(* ===== verification/Prelude.thy ===== *)
theory Prelude
  imports Main "HOL-Library.Word" "HOL-Library.List_Lexorder" "HOL-Library.Multiset"
begin

text \<open>
  Shared vocabulary of the development: how a Rust call can end (\<open>outcome\<close>), byte
  strings and their lexicographic order, unsigned 32-bit arithmetic of a release build,
  and the generic list and map lemmas the component theories use.

  Rust code ends a call in one of these ways: it returns \<open>Ok\<close>, it returns \<open>Err\<close> with an
  error value, it panics (\<open>expect\<close>, \<open>unwrap\<close>, \<open>unreachable!\<close>, an index out of range), or a
  loop runs on. The last two are the values \<open>Panic\<close> and \<open>Hang\<close>; a loop is modelled with
  fuel and \<open>Hang\<close> is what it returns when the fuel is used up, so that a theorem with
  conclusion \<open>Ok\<close> also states that the loop ends.
\<close>

named_theorems outcome_simps \<open>evaluation of the outcome combinators\<close>
named_theorems wf_intros \<open>preservation of component invariants\<close>
named_theorems frame_simps \<open>fields an operation leaves alone\<close>

section \<open>Outcomes\<close>

datatype ('e, 'a) outcome = Ok 'a | Err 'e | Panic | Hang

primrec and_then :: "('e, 'a) outcome \<Rightarrow> ('a \<Rightarrow> ('e, 'b) outcome) \<Rightarrow> ('e, 'b) outcome" where
  "and_then (Ok x) f = f x"
| "and_then (Err e) f = Err e"
| "and_then Panic f = Panic"
| "and_then Hang f = Hang"

primrec map_ok :: "('a \<Rightarrow> 'b) \<Rightarrow> ('e, 'a) outcome \<Rightarrow> ('e, 'b) outcome" where
  "map_ok f (Ok x) = Ok (f x)"
| "map_ok f (Err e) = Err e"
| "map_ok f Panic = Panic"
| "map_ok f Hang = Hang"

text \<open>\<open>ok_or\<close> and \<open>expect\<close> on an \<open>Option\<close>.\<close>

definition ok_or :: "'e \<Rightarrow> 'a option \<Rightarrow> ('e, 'a) outcome" where
  "ok_or e x = (case x of Some y \<Rightarrow> Ok y | None \<Rightarrow> Err e)"

definition expect :: "'a option \<Rightarrow> ('e, 'a) outcome" where
  "expect x = (case x of Some y \<Rightarrow> Ok y | None \<Rightarrow> Panic)"

text \<open>A \<open>for\<close> loop over a list whose body may fail.\<close>

fun fold_ok :: "('s \<Rightarrow> 'a \<Rightarrow> ('e, 's) outcome) \<Rightarrow> 's \<Rightarrow> 'a list \<Rightarrow> ('e, 's) outcome" where
  "fold_ok f s [] = Ok s"
| "fold_ok f s (x # xs) = and_then (f s x) (\<lambda>s'. fold_ok f s' xs)"

lemma and_then_eq_Ok [outcome_simps]:
  "and_then m f = Ok y \<longleftrightarrow> (\<exists>x. m = Ok x \<and> f x = Ok y)"
  by (cases m) auto

lemma map_ok_eq_Ok [outcome_simps]: "map_ok f m = Ok y \<longleftrightarrow> (\<exists>x. m = Ok x \<and> y = f x)"
  by (cases m) auto

lemma and_then_assoc: "and_then (and_then m f) g = and_then m (\<lambda>x. and_then (f x) g)"
  by (cases m) auto

lemma and_then_Ok_right [simp]: "and_then m Ok = m"
  by (cases m) auto

lemma ok_or_Some [simp]: "ok_or e (Some x) = Ok x"
  by (simp add: ok_or_def)

lemma ok_or_None [simp]: "ok_or e None = Err e"
  by (simp add: ok_or_def)

lemma ok_or_eq_Ok [outcome_simps]: "ok_or e x = Ok y \<longleftrightarrow> x = Some y"
  by (cases x) auto

lemma expect_Some [simp]: "expect (Some x) = Ok x"
  by (simp add: expect_def)

lemma expect_None [simp]: "expect None = Panic"
  by (simp add: expect_def)

lemma expect_eq_Ok [outcome_simps]: "expect x = Ok y \<longleftrightarrow> x = Some y"
  by (cases x) auto

lemma fold_ok_cong:
  "(\<And>s x. x \<in> set xs \<Longrightarrow> f s x = g s x) \<Longrightarrow> fold_ok f s xs = fold_ok g s xs"
proof (induction xs arbitrary: s)
  case (Cons x xs)
  then have "f s x = g s x" by simp
  moreover have "fold_ok f s' xs = fold_ok g s' xs" for s' using Cons by simp
  ultimately show ?case by simp
qed simp

lemma fold_ok_append:
  "fold_ok f s (xs @ ys) = and_then (fold_ok f s xs) (\<lambda>s'. fold_ok f s' ys)"
  by (induction xs arbitrary: s) (auto simp: and_then_assoc)

text \<open>
  The contract of a loop body: on a state with the invariant and an element that passes the
  guard the body returns, and keeps the invariant. Then the loop returns and keeps it. The
  contract is a locale, so that each component states it once for its body.
\<close>

locale total_step =
  fixes step :: "'s \<Rightarrow> 'a \<Rightarrow> ('e, 's) outcome"
    and good :: "'s \<Rightarrow> bool"
    and guard :: "'a \<Rightarrow> bool"
  assumes step_total: "good s \<Longrightarrow> guard a \<Longrightarrow> \<exists>s'. step s a = Ok s' \<and> good s'"
begin

lemma loop_total: "good s \<Longrightarrow> list_all guard xs \<Longrightarrow> \<exists>s'. fold_ok step s xs = Ok s' \<and> good s'"
proof (induction xs arbitrary: s)
  case (Cons x xs)
  then obtain t where "step s x = Ok t" "good t" using step_total [of s x] by auto
  with Cons show ?case by simp
qed simp

end

text \<open>
  A method on \<open>&mut self\<close> that may fail keeps the changes it made before the failure, so
  it is a function from the state to an outcome and the state it leaves.
\<close>

type_synonym ('s, 'e, 'a) st = "'s \<Rightarrow> ('e, 'a) outcome \<times> 's"

definition ret :: "'a \<Rightarrow> ('s, 'e, 'a) st" where
  "ret x s = (Ok x, s)"

definition raise :: "'e \<Rightarrow> ('s, 'e, 'a) st" where
  "raise e s = (Err e, s)"

definition lift_st :: "('e, 'a) outcome \<Rightarrow> ('s, 'e, 'a) st" where
  "lift_st m s = (m, s)"

definition sbind :: "('s, 'e, 'a) st \<Rightarrow> ('a \<Rightarrow> ('s, 'e, 'b) st) \<Rightarrow> ('s, 'e, 'b) st" where
  "sbind m f s = (case m s of
     (Ok x, s') \<Rightarrow> f x s'
   | (Err e, s') \<Rightarrow> (Err e, s')
   | (Panic, s') \<Rightarrow> (Panic, s')
   | (Hang, s') \<Rightarrow> (Hang, s'))"

definition get_st :: "('s, 'e, 's) st" where
  "get_st s = (Ok s, s)"

definition put_st :: "'s \<Rightarrow> ('s, 'e, unit) st" where
  "put_st s' s = (Ok (), s')"

text \<open>A mutation that can only succeed or panic, run on the current state.\<close>

definition modify_st :: "('s \<Rightarrow> ('e, 's) outcome) \<Rightarrow> ('s, 'e, unit) st" where
  "modify_st f s = (case f s of
     Ok s' \<Rightarrow> (Ok (), s') | Err e \<Rightarrow> (Err e, s) | Panic \<Rightarrow> (Panic, s) | Hang \<Rightarrow> (Hang, s))"

fun for_st :: "('a \<Rightarrow> ('s, 'e, unit) st) \<Rightarrow> 'a list \<Rightarrow> ('s, 'e, unit) st" where
  "for_st f [] = ret ()"
| "for_st f (x # xs) = sbind (f x) (\<lambda>_. for_st f xs)"

lemma sbind_Ok [simp]: "m s = (Ok x, s') \<Longrightarrow> sbind m f s = f x s'"
  by (simp add: sbind_def)

lemma sbind_Err: "m s = (Err e, s') \<Longrightarrow> sbind m f s = (Err e, s')"
  by (simp add: sbind_def)

lemma sbind_eq_Ok [outcome_simps]:
  "sbind m f s = (Ok y, s'') \<longleftrightarrow> (\<exists>x s'. m s = (Ok x, s') \<and> f x s' = (Ok y, s''))"
  by (auto simp: sbind_def split: prod.splits outcome.splits)

lemma ret_run [simp]: "ret x s = (Ok x, s)"
  by (simp add: ret_def)

lemma raise_run [simp]: "raise e s = (Err e, s)"
  by (simp add: raise_def)

lemma lift_st_run [simp]: "lift_st m s = (m, s)"
  by (simp add: lift_st_def)

lemma get_st_run [simp]: "get_st s = (Ok s, s)"
  by (simp add: get_st_def)

lemma put_st_run [simp]: "put_st s' s = (Ok (), s')"
  by (simp add: put_st_def)

lemma modify_st_Ok [simp]: "f s = Ok s' \<Longrightarrow> modify_st f s = (Ok (), s')"
  by (simp add: modify_st_def)

lemma modify_st_eq_Ok [outcome_simps]: "modify_st f s = (Ok x, s') \<longleftrightarrow> f s = Ok s'"
  by (auto simp: modify_st_def split: outcome.splits)

section \<open>Vectors\<close>

text \<open>\<open>v[i]\<close> and \<open>v[i] = x\<close> panic out of range; \<open>resize\<close> truncates or pads with a value.\<close>

definition vec_get :: "'a list \<Rightarrow> nat \<Rightarrow> ('e, 'a) outcome" where
  "vec_get xs i = (if i < length xs then Ok (xs ! i) else Panic)"

definition vec_set :: "'a list \<Rightarrow> nat \<Rightarrow> 'a \<Rightarrow> ('e, 'a list) outcome" where
  "vec_set xs i x = (if i < length xs then Ok (xs[i := x]) else Panic)"

definition vec_resize :: "nat \<Rightarrow> 'a \<Rightarrow> 'a list \<Rightarrow> 'a list" where
  "vec_resize n x xs = take n xs @ replicate (n - length xs) x"

lemma vec_get_Ok [simp]: "i < length xs \<Longrightarrow> vec_get xs i = Ok (xs ! i)"
  by (simp add: vec_get_def)

lemma vec_set_Ok [simp]: "i < length xs \<Longrightarrow> vec_set xs i x = Ok (xs[i := x])"
  by (simp add: vec_set_def)

lemma length_vec_resize [simp]: "length (vec_resize n x xs) = n"
  by (simp add: vec_resize_def)

lemma vec_resize_id: "length xs = n \<Longrightarrow> vec_resize n x xs = xs"
  by (simp add: vec_resize_def)

lemma nth_vec_resize: "i < n \<Longrightarrow> vec_resize n x xs ! i = (if i < length xs then xs ! i else x)"
  by (auto simp: vec_resize_def nth_append)

section \<open>Bytes\<close>

type_synonym byte = "8 word"
type_synonym bytes = "byte list"

section \<open>Unsigned 32-bit arithmetic\<close>

text \<open>
  A \<open>u32\<close> is a natural number below \<open>2 ^ 32\<close>. In a release build \<open>+\<close>, \<open>-\<close> and \<open>*\<close> wrap
  around and a shift distance is taken modulo 32.
\<close>

type_synonym u32 = nat

definition u32_add :: "u32 \<Rightarrow> u32 \<Rightarrow> u32" where
  "u32_add x y = (x + y) mod 2 ^ 32"

definition u32_sub :: "u32 \<Rightarrow> u32 \<Rightarrow> u32" where
  "u32_sub x y = (x + 2 ^ 32 - y) mod 2 ^ 32"

definition u32_mul :: "u32 \<Rightarrow> u32 \<Rightarrow> u32" where
  "u32_mul x y = (x * y) mod 2 ^ 32"

definition u32_shl :: "u32 \<Rightarrow> nat \<Rightarrow> u32" where
  "u32_shl x k = push_bit (k mod 32) x mod 2 ^ 32"

definition u32_shr :: "u32 \<Rightarrow> nat \<Rightarrow> u32" where
  "u32_shr x k = drop_bit (k mod 32) x"

lemma u32_add_no_overflow [simp]: "x + y < 2 ^ 32 \<Longrightarrow> u32_add x y = x + y"
  by (simp add: u32_add_def)

lemma u32_sub_no_overflow [simp]: "y \<le> x \<Longrightarrow> x < 2 ^ 32 \<Longrightarrow> u32_sub x y = x - y"
proof -
  assume le: "y \<le> x" and less: "x < 2 ^ 32"
  from le have "x + 2 ^ 32 - y = (x - y) + 2 ^ 32" by (rule diff_add_assoc2)
  moreover from less have "x - y < 2 ^ 32" by (rule less_imp_diff_less)
  ultimately show ?thesis unfolding u32_sub_def by (metis mod_add_self2 mod_less)
qed

lemma u32_mul_no_overflow [simp]: "x * y < 2 ^ 32 \<Longrightarrow> u32_mul x y = x * y"
  by (simp add: u32_mul_def)

lemma u32_shl_no_overflow: "k < 32 \<Longrightarrow> x * 2 ^ k < 2 ^ 32 \<Longrightarrow> u32_shl x k = x * 2 ^ k"
  by (simp add: u32_shl_def push_bit_eq_mult)

lemma u32_shl_one: "k < 32 \<Longrightarrow> u32_shl (Suc 0) k = 2 ^ k"
  using u32_shl_no_overflow [of k 1] power_strict_increasing [of k 32 "2 :: nat"] by simp

lemma u32_shr_eq: "k < 32 \<Longrightarrow> u32_shr x k = x div 2 ^ k"
  by (simp add: u32_shr_def drop_bit_eq_div)

end
