(* ===== verification/Crypto.thy ===== *)
theory Crypto
  imports Prelude
begin

text \<open>
  The key types of \<open>keyhive_crypto\<close> (\<open>share_key.rs\<close>, \<open>symmetric_key.rs\<close>, \<open>siv.rs\<close>,
  \<open>separable.rs\<close>, \<open>digest.rs\<close>) and the operations BeeKEM uses on them.

  X25519, BLAKE3 and XChaCha20-Poly1305 are third-party crates. They are the fields of a
  record \<open>crypto\<close> that every operation takes as an argument; \<open>crypto_laws\<close> states what the
  crates document: Diffie Hellman agreement, decryption inverts encryption, encryption
  fails only on over-long input, and output lengths. The random generator is a state \<open>'r\<close>
  with a function that draws 32 bytes.
\<close>

section \<open>Key types\<close>

text \<open>\<open>ShareKey\<close> wraps an X25519 public key; it is ordered by its bytes.\<close>

datatype share_key = PublicKey bytes

primrec share_key_bytes :: "share_key \<Rightarrow> bytes" where
  "share_key_bytes (PublicKey bs) = bs"

definition share_key_le :: "share_key \<Rightarrow> share_key \<Rightarrow> bool" where
  "share_key_le a b \<longleftrightarrow> share_key_bytes a \<le> share_key_bytes b"

instantiation share_key :: linorder
begin

definition less_eq_share_key :: "share_key \<Rightarrow> share_key \<Rightarrow> bool" where
  "less_eq_share_key a b \<longleftrightarrow> share_key_le a b"

definition less_share_key :: "share_key \<Rightarrow> share_key \<Rightarrow> bool" where
  "less_share_key a b \<longleftrightarrow> share_key_bytes a < share_key_bytes b"

instance
proof
  fix a b c :: share_key
  show "a < b \<longleftrightarrow> a \<le> b \<and> \<not> b \<le> a" by (auto simp: less_eq_share_key_def share_key_le_def less_share_key_def)
  show "a \<le> a" by (simp add: less_eq_share_key_def share_key_le_def)
  show "a \<le> b \<Longrightarrow> b \<le> c \<Longrightarrow> a \<le> c" by (auto simp: less_eq_share_key_def share_key_le_def)
  show "a \<le> b \<Longrightarrow> b \<le> a \<Longrightarrow> a = b" by (cases a; cases b) (auto simp: less_eq_share_key_def share_key_le_def)
  show "a \<le> b \<or> b \<le> a" by (auto simp: less_eq_share_key_def share_key_le_def)
qed

end

datatype share_secret_key = ShareSecretKey bytes
datatype symmetric_key = SymmetricKey bytes
datatype siv = Siv bytes

primrec secret_bytes :: "share_secret_key \<Rightarrow> bytes" where
  "secret_bytes (ShareSecretKey bs) = bs"

primrec symmetric_key_slice :: "symmetric_key \<Rightarrow> bytes" where
  "symmetric_key_slice (SymmetricKey bs) = bs"

primrec siv_bytes :: "siv \<Rightarrow> bytes" where
  "siv_bytes (Siv bs) = bs"

text \<open>\<open>Digest<T>\<close>: the phantom type parameter has no run-time content.\<close>

datatype digest = Digest bytes

primrec digest_slice :: "digest \<Rightarrow> bytes" where
  "digest_slice (Digest bs) = bs"

definition digest_le :: "digest \<Rightarrow> digest \<Rightarrow> bool" where
  "digest_le a b \<longleftrightarrow> digest_slice a \<le> digest_slice b"

instantiation digest :: linorder
begin

definition less_eq_digest :: "digest \<Rightarrow> digest \<Rightarrow> bool" where
  "less_eq_digest a b \<longleftrightarrow> digest_le a b"

definition less_digest :: "digest \<Rightarrow> digest \<Rightarrow> bool" where
  "less_digest a b \<longleftrightarrow> digest_slice a < digest_slice b"

instance
proof
  fix a b c :: digest
  show "a < b \<longleftrightarrow> a \<le> b \<and> \<not> b \<le> a" by (auto simp: less_eq_digest_def digest_le_def less_digest_def)
  show "a \<le> a" by (simp add: less_eq_digest_def digest_le_def)
  show "a \<le> b \<Longrightarrow> b \<le> c \<Longrightarrow> a \<le> c" by (auto simp: less_eq_digest_def digest_le_def)
  show "a \<le> b \<Longrightarrow> b \<le> a \<Longrightarrow> a = b" by (cases a; cases b) (auto simp: less_eq_digest_def digest_le_def)
  show "a \<le> b \<or> b \<le> a" by (auto simp: less_eq_digest_def digest_le_def)
qed

end

section \<open>Third-party primitives\<close>

record 'r crypto =
  x25519_public :: "bytes \<Rightarrow> bytes"
  x25519_dh :: "bytes \<Rightarrow> bytes \<Rightarrow> bytes"
  blake3_derive_key :: "string \<Rightarrow> bytes \<Rightarrow> bytes"
  blake3_hash :: "bytes \<Rightarrow> bytes"
  blake3_xof :: "bytes \<Rightarrow> nat \<Rightarrow> bytes"
  aead_encrypt :: "bytes \<Rightarrow> bytes \<Rightarrow> bytes \<Rightarrow> bytes \<Rightarrow> bytes option"
  aead_decrypt :: "bytes \<Rightarrow> bytes \<Rightarrow> bytes \<Rightarrow> bytes \<Rightarrow> bytes option"
  hash_to_hex :: "bytes \<Rightarrow> string"
  random_32 :: "'r \<Rightarrow> bytes \<times> 'r"

definition crypto_laws :: "('r, 'm) crypto_scheme \<Rightarrow> bool" where
  "crypto_laws C \<longleftrightarrow>
     (\<forall>a b. x25519_dh C a (x25519_public C b) = x25519_dh C b (x25519_public C a)) \<and>
     (\<forall>k n ad p c. aead_encrypt C k n ad p = Some c \<longrightarrow> aead_decrypt C k n ad c = Some p) \<and>
     (\<forall>k n ad p. length p div 64 < 2 ^ 32 - 1 \<longrightarrow> aead_encrypt C k n ad p \<noteq> None) \<and>
     (\<forall>ctx bs. length (blake3_derive_key C ctx bs) = 32) \<and>
     (\<forall>r. length (fst (random_32 C r)) = 32)"

section \<open>Operations\<close>

definition separator_str :: string where
  "separator_str = ''/keyhive/''"

definition separator :: bytes where
  "separator = map of_char separator_str"

definition derive_from_bytes :: "('r, 'm) crypto_scheme \<Rightarrow> bytes \<Rightarrow> bytes" where
  "derive_from_bytes C bs = blake3_derive_key C separator_str bs"

definition share_key_generate :: "('r, 'm) crypto_scheme \<Rightarrow> 'r \<Rightarrow> share_key \<times> 'r" where
  "share_key_generate C r = (case random_32 C r of (bs, r') \<Rightarrow> (PublicKey (x25519_public C bs), r'))"

definition secret_generate :: "('r, 'm) crypto_scheme \<Rightarrow> 'r \<Rightarrow> share_secret_key \<times> 'r" where
  "secret_generate C r = (case random_32 C r of (bs, r') \<Rightarrow> (ShareSecretKey bs, r'))"

definition share_key :: "('r, 'm) crypto_scheme \<Rightarrow> share_secret_key \<Rightarrow> share_key" where
  "share_key C sk = PublicKey (x25519_public C (secret_bytes sk))"

definition derive_new_secret_key ::
    "('r, 'm) crypto_scheme \<Rightarrow> share_secret_key \<Rightarrow> share_key \<Rightarrow> share_secret_key" where
  "derive_new_secret_key C sk other =
     ShareSecretKey (derive_from_bytes C (x25519_dh C (secret_bytes sk) (share_key_bytes other)))"

definition derive_symmetric_key ::
    "('r, 'm) crypto_scheme \<Rightarrow> share_secret_key \<Rightarrow> share_key \<Rightarrow> symmetric_key" where
  "derive_symmetric_key C sk other =
     SymmetricKey (derive_from_bytes C (x25519_dh C (secret_bytes sk) (share_key_bytes other)))"

definition ratchet_forward :: "('r, 'm) crypto_scheme \<Rightarrow> share_secret_key \<Rightarrow> share_secret_key" where
  "ratchet_forward C sk = ShareSecretKey (derive_from_bytes C (secret_bytes sk))"

definition ratchet_n_forward ::
    "('r, 'm) crypto_scheme \<Rightarrow> nat \<Rightarrow> share_secret_key \<Rightarrow> share_secret_key" where
  "ratchet_n_forward C n sk = fold (\<lambda>_ acc. ratchet_forward C acc) [0..<n] sk"

definition symmetric_generate :: "('r, 'm) crypto_scheme \<Rightarrow> 'r \<Rightarrow> symmetric_key \<times> 'r" where
  "symmetric_generate C r = (case random_32 C r of (bs, r') \<Rightarrow> (SymmetricKey bs, r'))"

definition siv_new :: "('r, 'm) crypto_scheme \<Rightarrow> symmetric_key \<Rightarrow> bytes \<Rightarrow> bytes \<Rightarrow> siv" where
  "siv_new C key plaintext doc_id =
     Siv (blake3_xof C (separator @ doc_id @ symmetric_key_slice key @ plaintext) 24)"

definition sym_try_encrypt ::
    "('r, 'm) crypto_scheme \<Rightarrow> symmetric_key \<Rightarrow> siv \<Rightarrow> bytes \<Rightarrow> bytes option" where
  "sym_try_encrypt C key nonce plain =
     aead_encrypt C (symmetric_key_slice key) (siv_bytes nonce) separator plain"

definition sym_try_decrypt ::
    "('r, 'm) crypto_scheme \<Rightarrow> symmetric_key \<Rightarrow> siv \<Rightarrow> bytes \<Rightarrow> bytes option" where
  "sym_try_decrypt C key nonce cipher =
     aead_decrypt C (symmetric_key_slice key) (siv_bytes nonce) separator cipher"

text \<open>\<open>Digest::hash\<close> serialises with \<open>bincode\<close>; the serialised bytes are the argument here.\<close>

definition digest_hash :: "('r, 'm) crypto_scheme \<Rightarrow> bytes \<Rightarrow> digest" where
  "digest_hash C bs = Digest (blake3_hash C bs)"

definition digest_display :: "('r, 'm) crypto_scheme \<Rightarrow> digest \<Rightarrow> string" where
  "digest_display C d = ''Digest('' @ hash_to_hex C (digest_slice d) @ '')''"

text \<open>
  \<open>trailing_zeros\<close> walks the bytes from the last one. The \<open>u8\<close> counter wraps in a release
  build, which matters only for the all-zero hash.
\<close>

definition count_zeros :: "byte \<Rightarrow> nat" where
  "count_zeros b = length (filter (\<lambda>i. \<not> bit b i) [0..<8])"

fun trailing_zeros_loop :: "bytes \<Rightarrow> nat \<Rightarrow> nat" where
  "trailing_zeros_loop [] n = n"
| "trailing_zeros_loop (b # bs) n =
     (let zeros = count_zeros b; n' = (n + zeros) mod 256 in
      if zeros \<noteq> 8 then n' else trailing_zeros_loop bs n')"

definition trailing_zeros :: "digest \<Rightarrow> nat" where
  "trailing_zeros d = trailing_zeros_loop (rev (digest_slice d)) 0"

fun trailing_zero_bytes_loop :: "bytes \<Rightarrow> nat \<Rightarrow> nat" where
  "trailing_zero_bytes_loop [] n = n"
| "trailing_zero_bytes_loop (b # bs) n =
     (if b = 0 then trailing_zero_bytes_loop bs ((n + 1) mod 256) else n)"

definition trailing_zero_bytes :: "digest \<Rightarrow> nat" where
  "trailing_zero_bytes d = trailing_zero_bytes_loop (rev (digest_slice d)) 0"

section \<open>Lemmas\<close>

lemma derive_symmetric_key_agree:
  assumes "crypto_laws C"
  shows "derive_symmetric_key C a (share_key C b) = derive_symmetric_key C b (share_key C a)"
  using assms by (simp add: crypto_laws_def derive_symmetric_key_def share_key_def)

lemma sym_decrypt_encrypt:
  "crypto_laws C \<Longrightarrow> sym_try_encrypt C key nonce p = Some c \<Longrightarrow> sym_try_decrypt C key nonce c = Some p"
  by (simp add: crypto_laws_def sym_try_encrypt_def sym_try_decrypt_def)

lemma sym_encrypt_short:
  assumes "crypto_laws C" "length p \<le> 32"
  obtains c where "sym_try_encrypt C key nonce p = Some c"
proof -
  have "length p div 64 < 2 ^ 32 - 1" using assms(2) by simp
  then have "sym_try_encrypt C key nonce p \<noteq> None"
    using assms(1) unfolding crypto_laws_def sym_try_encrypt_def by blast
  then show ?thesis using that by blast
qed

lemma length_ratchet [simp]: "crypto_laws C \<Longrightarrow> length (secret_bytes (ratchet_forward C sk)) = 32"
  by (simp add: crypto_laws_def ratchet_forward_def derive_from_bytes_def)

lemma ratchet_0 [simp]: "ratchet_n_forward C 0 sk = sk"
  by (simp add: ratchet_n_forward_def)

lemma ratchet_Suc: "ratchet_n_forward C (Suc n) sk = ratchet_forward C (ratchet_n_forward C n sk)"
  by (simp add: ratchet_n_forward_def)

lemma ratchet_add:
  "ratchet_n_forward C (m + n) sk = ratchet_n_forward C m (ratchet_n_forward C n sk)"
  by (induction m) (simp_all add: ratchet_Suc)

lemma ratchet_Suc_right: "ratchet_n_forward C (Suc n) sk = ratchet_n_forward C n (ratchet_forward C sk)"
  using ratchet_add [of C n 1 sk] ratchet_Suc [of C 0 sk] by simp

lemma length_ratchet_n:
  "crypto_laws C \<Longrightarrow> length (secret_bytes sk) = 32 \<Longrightarrow> length (secret_bytes (ratchet_n_forward C n sk)) = 32"
  by (cases n) (simp_all add: ratchet_Suc)

text \<open>
  A concrete instance of the primitives that satisfies \<open>crypto_laws\<close>: the public key is the
  secret, the shared secret is the sorted pair, encryption appends a tag.
\<close>

definition demo_crypto :: "nat crypto" where
  "demo_crypto = \<lparr>
     x25519_public = (\<lambda>bs. bs),
     x25519_dh = (\<lambda>a b. if a \<le> b then a @ b else b @ a),
     blake3_derive_key = (\<lambda>ctx bs. take 32 (1 # bs @ replicate 32 0)),
     blake3_hash = (\<lambda>bs. take 32 (bs @ replicate 32 0)),
     blake3_xof = (\<lambda>bs n. take n (bs @ replicate n 0)),
     aead_encrypt = (\<lambda>k n ad p. Some (p @ k)),
     aead_decrypt = (\<lambda>k n ad c.
       if length k \<le> length c \<and> drop (length c - length k) c = k
       then Some (take (length c - length k) c) else None),
     hash_to_hex = (\<lambda>bs. []),
     random_32 = (\<lambda>r. (replicate 32 (of_nat r), Suc r)) \<rparr>"

lemma demo_crypto_laws: "crypto_laws demo_crypto"
  by (auto simp: crypto_laws_def demo_crypto_def)

end
