(* ===== verification/Transact.thy ===== *)
theory Transact
  imports Prelude
begin

text \<open>
  Transactions by fork and merge (\<open>keyhive_core/src/transact.rs\<close>, the \<open>Fork\<close> and \<open>Merge\<close>
  traits of \<open>transact/\<close> and of \<open>beekem/src/transact.rs\<close>).

  A transaction runs on a fork of a data structure and is merged back when it succeeds.
  \<open>transact_async\<close> forks first and merges later, when other transactions may have been
  merged into the trunk; the model takes the trunk at both times. The contract of the two
  traits is the locale \<open>fork_merge\<close>; \<open>growing_merge\<close> adds that merging loses nothing of
  the trunk. The collections and the BeeKEM types that implement the traits interpret them.
\<close>

section \<open>Transactions\<close>

definition transact_blocking ::
    "('s \<Rightarrow> 'f) \<Rightarrow> ('s \<Rightarrow> 'f \<Rightarrow> 's) \<Rightarrow> ('f \<Rightarrow> ('e, unit) outcome \<times> 'f) \<Rightarrow> ('s, 'e, unit) st" where
  "transact_blocking fork merge tx trunk =
     (case tx (fork trunk) of
        (Ok _, forked) \<Rightarrow> (Ok (), merge trunk forked)
      | (Err e, _) \<Rightarrow> (Err e, trunk)
      | (Panic, _) \<Rightarrow> (Panic, trunk)
      | (Hang, _) \<Rightarrow> (Hang, trunk))"

text \<open>The fork is taken from \<open>start\<close>; \<open>trunk\<close> is what the merge finds.\<close>

definition transact_async ::
    "('s \<Rightarrow> 'f) \<Rightarrow> ('s \<Rightarrow> 'f \<Rightarrow> 's) \<Rightarrow> ('f \<Rightarrow> ('e, 'f) outcome) \<Rightarrow> 's \<Rightarrow> ('s, 'e, unit) st" where
  "transact_async fork merge tx start trunk =
     (case tx (fork start) of
        Ok diverged \<Rightarrow> (Ok (), merge trunk diverged)
      | Err e \<Rightarrow> (Err e, trunk)
      | Panic \<Rightarrow> (Panic, trunk)
      | Hang \<Rightarrow> (Hang, trunk))"

text \<open>\<open>HashSet\<close> and \<open>HashMap\<close> fork by cloning; a map keeps its own value for a key.\<close>

definition set_fork :: "'a set \<Rightarrow> 'a set" where
  "set_fork s = s"

definition set_merge :: "'a set \<Rightarrow> 'a set \<Rightarrow> 'a set" where
  "set_merge s f = s \<union> f"

definition map_fork :: "('k \<rightharpoonup> 'v) \<Rightarrow> ('k \<rightharpoonup> 'v)" where
  "map_fork m = m"

definition map_merge :: "('k \<rightharpoonup> 'v) \<Rightarrow> ('k \<rightharpoonup> 'v) \<Rightarrow> ('k \<rightharpoonup> 'v)" where
  "map_merge m f = f ++ m"

section \<open>The contract\<close>

locale fork_merge =
  fixes fork :: "'s \<Rightarrow> 'f"
    and merge :: "'s \<Rightarrow> 'f \<Rightarrow> 's"
  assumes merge_fork: "merge s (fork s) = s"
    and merge_again: "merge (merge s f) f = merge s f"
begin

lemma failed_unchanged:
  "fst (transact_blocking fork merge tx s) \<noteq> Ok () \<Longrightarrow> snd (transact_blocking fork merge tx s) = s"
  by (auto simp: transact_blocking_def split: prod.splits outcome.splits)

lemma read_only_unchanged:
  assumes "\<And>f. snd (tx f) = f"
  shows "snd (transact_blocking fork merge tx s) = s"
proof -
  obtain r where "tx (fork s) = (r, fork s)" using assms by (metis prod.collapse)
  then show ?thesis by (cases r) (simp_all add: transact_blocking_def merge_fork)
qed

lemma blocking_is_async:
  "transact_blocking fork merge (\<lambda>f. case tx f of
       Ok f' \<Rightarrow> (Ok (), f') | Err e \<Rightarrow> (Err e, f) | Panic \<Rightarrow> (Panic, f) | Hang \<Rightarrow> (Hang, f)) s =
     transact_async fork merge tx s s"
  by (auto simp: transact_blocking_def transact_async_def split: outcome.splits)

lemma retry_same_fork:
  "fst (transact_async fork merge tx start s) = Ok () \<Longrightarrow>
    transact_async fork merge tx start (snd (transact_async fork merge tx start s)) =
    transact_async fork merge tx start s"
  by (auto simp: transact_async_def merge_again split: outcome.splits)

end

locale growing_merge = fork_merge fork merge
  for fork :: "'s \<Rightarrow> 'f" and merge :: "'s \<Rightarrow> 'f \<Rightarrow> 's" +
  fixes below :: "'s \<Rightarrow> 's \<Rightarrow> bool"
  assumes below_refl: "below s s"
    and below_merge: "below s (merge s f)"
begin

lemma trunk_kept: "below s (snd (transact_async fork merge tx start s))"
  by (auto simp: transact_async_def below_refl below_merge split: outcome.splits)

lemma trunk_kept_blocking: "below s (snd (transact_blocking fork merge tx s))"
  by (auto simp: transact_blocking_def below_refl below_merge split: outcome.splits prod.splits)

end

interpretation hash_set: growing_merge set_fork set_merge "(\<subseteq>)"
  by unfold_locales (auto simp: set_fork_def set_merge_def)

interpretation hash_map: growing_merge map_fork map_merge "(\<subseteq>\<^sub>m)"
  by unfold_locales (auto simp: map_fork_def map_merge_def map_le_def map_add_def fun_eq_iff
      split: option.splits)

end
