(* ===== verification/Keys.thy ===== *)
theory Keys
  imports Crypto Transact
begin

text \<open>
  Errors (\<open>beekem/src/error.rs\<close>), encrypted secrets (\<open>encrypted.rs\<close>), the member's secret
  key store \<open>ShareKeyMap\<close> and the public key or conflicting keys of a node (\<open>keys.rs\<close>).

  The lemmas: a secret encrypted for a key pair is readable by both ends of the Diffie
  Hellman exchange; \<open>NodeKey::merge\<close> is the multiset union of the new keys and the old keys
  that were not removed, so concurrent changes of a node commute.
\<close>

section \<open>Errors\<close>

text \<open>The message strings carried by some variants are left out.\<close>

datatype cgka_error =
    Conversion | CurrentEncrypterNotFound | Decryption | DeriveNonce | Encryption
  | EncryptedSecretNotFound | IdentifierNotFound | InvalidOperation | InvalidPathLength
  | NoRootKey | NotInitialized | OperationNotFound | OutOfOrderOperation
  | OwnerIdentifierNotFound | ShareKeyNotFound | SecretKeyNotFound | RemoveLastMember
  | Serialize | UnexpectedKeyConflict | UnexpectedInitialOperation
  | UnexpectedInviteOperation | UnknownPcsKey | SigningError

definition is_missing_dependency :: "cgka_error \<Rightarrow> bool" where
  "is_missing_dependency e \<longleftrightarrow> e \<in> {NotInitialized, IdentifierNotFound,
     UnexpectedInitialOperation, UnexpectedInviteOperation, OutOfOrderOperation}"

section \<open>Encrypted secrets\<close>

record encrypted_secret =
  es_nonce :: siv
  es_ciphertext :: bytes
  es_paired_pk :: share_key

definition encrypted_secret_new :: "siv \<Rightarrow> bytes \<Rightarrow> share_key \<Rightarrow> encrypted_secret" where
  "encrypted_secret_new nonce ciphertext paired_pk =
     \<lparr> es_nonce = nonce, es_ciphertext = ciphertext, es_paired_pk = paired_pk \<rparr>"

text \<open>\<open>None\<close> is the \<open>chacha20poly1305::Error\<close>.\<close>

definition try_encrypter_decrypt ::
    "('r, 'm) crypto_scheme \<Rightarrow> encrypted_secret \<Rightarrow> share_secret_key \<Rightarrow> bytes option" where
  "try_encrypter_decrypt C es encrypter_secret_key =
     (let key = derive_symmetric_key C encrypter_secret_key (es_paired_pk es) in
      sym_try_decrypt C key (es_nonce es) (es_ciphertext es))"

definition encrypt_secret ::
    "('r, 'm) crypto_scheme \<Rightarrow> bytes \<Rightarrow> share_secret_key \<Rightarrow> share_secret_key \<Rightarrow> share_key \<Rightarrow>
     (cgka_error, encrypted_secret) outcome" where
  "encrypt_secret C doc_id secret sk paired_pk =
     (let key = derive_symmetric_key C sk paired_pk;
          ciphertext = secret_bytes secret;
          nonce = siv_new C key ciphertext doc_id in
      map_ok (\<lambda>ct. encrypted_secret_new nonce ct paired_pk)
        (ok_or Encryption (sym_try_encrypt C key nonce ciphertext)))"

section \<open>ShareKeyMap\<close>

type_synonym share_key_map = "share_key \<rightharpoonup> share_secret_key"

definition share_key_map_new :: share_key_map where
  "share_key_map_new = Map.empty"

definition share_key_map_insert :: "share_key \<Rightarrow> share_secret_key \<Rightarrow> share_key_map \<Rightarrow> share_key_map" where
  "share_key_map_insert pk sk m = m(pk \<mapsto> sk)"

definition share_key_map_contains :: "share_key_map \<Rightarrow> share_key \<Rightarrow> bool" where
  "share_key_map_contains m pk \<longleftrightarrow> m pk \<noteq> None"

definition try_decrypt_encryption ::
    "('r, 'm) crypto_scheme \<Rightarrow> share_key_map \<Rightarrow> share_key \<Rightarrow> encrypted_secret \<Rightarrow>
     (cgka_error, bytes) outcome" where
  "try_decrypt_encryption C m encrypter_pk encrypted =
     and_then (ok_or SecretKeyNotFound (m (es_paired_pk encrypted))) (\<lambda>sk.
       let key = derive_symmetric_key C sk encrypter_pk in
       ok_or Decryption (sym_try_decrypt C key (es_nonce encrypted) (es_ciphertext encrypted)))"

definition share_key_map_extend :: "share_key_map \<Rightarrow> share_key_map \<Rightarrow> share_key_map" where
  "share_key_map_extend m other = m ++ other"

definition share_key_map_fork :: "share_key_map \<Rightarrow> share_key_map" where
  "share_key_map_fork m = m"

definition share_key_map_merge :: "share_key_map \<Rightarrow> share_key_map \<Rightarrow> share_key_map" where
  "share_key_map_merge m fork = m ++ fork"

section \<open>NodeKey\<close>

record conflict_keys =
  ck_first :: share_key
  ck_second :: share_key
  ck_more :: "share_key list"

datatype node_key = ShareKey share_key | ConflictKeys conflict_keys

definition conflict_push :: "share_key \<Rightarrow> conflict_keys \<Rightarrow> conflict_keys" where
  "conflict_push key ck = ck\<lparr> ck_more := ck_more ck @ [key] \<rparr>"

definition conflict_contains :: "conflict_keys \<Rightarrow> share_key \<Rightarrow> bool" where
  "conflict_contains ck key \<longleftrightarrow> ck_first ck = key \<or> ck_second ck = key \<or> key \<in> set (ck_more ck)"

definition conflict_len :: "conflict_keys \<Rightarrow> nat" where
  "conflict_len ck = 2 + length (ck_more ck)"

definition conflict_iter :: "conflict_keys \<Rightarrow> share_key list" where
  "conflict_iter ck = [ck_first ck] @ [ck_second ck] @ ck_more ck"

definition conflict_to_vec :: "conflict_keys \<Rightarrow> share_key list" where
  "conflict_to_vec ck = [ck_first ck, ck_second ck] @ ck_more ck"

primrec node_key_keys :: "node_key \<Rightarrow> share_key list" where
  "node_key_keys (ShareKey pk) = [pk]"
| "node_key_keys (ConflictKeys ks) = conflict_to_vec ks"

primrec node_key_len :: "node_key \<Rightarrow> nat" where
  "node_key_len (ShareKey _) = 1"
| "node_key_len (ConflictKeys ks) = conflict_len ks"

primrec node_key_contains :: "node_key \<Rightarrow> share_key \<Rightarrow> bool" where
  "node_key_contains (ShareKey pk) key \<longleftrightarrow> key = pk"
| "node_key_contains (ConflictKeys ks) key \<longleftrightarrow> conflict_contains ks key"

text \<open>The match on the slice of keys; the empty slice is \<open>unreachable!\<close>.\<close>

fun node_key_of_slice :: "share_key list \<Rightarrow> ('e, node_key) outcome" where
  "node_key_of_slice [] = Panic"
| "node_key_of_slice [first] = Ok (ShareKey first)"
| "node_key_of_slice [first, second] =
     Ok (ConflictKeys \<lparr> ck_first = first, ck_second = second, ck_more = [] \<rparr>)"
| "node_key_of_slice (first # second # rest) =
     Ok (ConflictKeys \<lparr> ck_first = first, ck_second = second, ck_more = rest \<rparr>)"

definition node_key_merge :: "node_key \<Rightarrow> node_key \<Rightarrow> share_key list \<Rightarrow> ('e, node_key) outcome" where
  "node_key_merge self new_key removed =
     (case self of
        ShareKey key \<Rightarrow>
          if key \<in> set removed then Ok new_key
          else node_key_of_slice (sort (node_key_keys new_key @ [key]))
      | ConflictKeys ks \<Rightarrow>
          node_key_of_slice
            (sort (node_key_keys new_key @ filter (\<lambda>k. k \<notin> set removed) (conflict_iter ks))))"

section \<open>Lemmas\<close>

lemma node_key_keys_nonempty [simp]: "node_key_keys k \<noteq> []"
  by (cases k) (simp_all add: conflict_to_vec_def)

lemma node_key_len_keys: "node_key_len k = length (node_key_keys k)"
  by (cases k) (simp_all add: conflict_to_vec_def conflict_len_def)

lemma node_key_contains_keys: "node_key_contains k key \<longleftrightarrow> key \<in> set (node_key_keys k)"
  by (cases k) (auto simp: conflict_to_vec_def conflict_contains_def)

lemma conflict_iter_vec: "conflict_iter ck = conflict_to_vec ck"
  by (simp add: conflict_iter_def conflict_to_vec_def)

lemma node_key_of_slice_keys: "node_key_of_slice (node_key_keys k) = Ok k"
proof (cases k)
  case (ConflictKeys ks)
  then show ?thesis by (cases "ck_more ks") (simp_all add: conflict_to_vec_def)
qed simp

lemma node_key_of_slice_nonempty:
  assumes "xs \<noteq> []"
  shows "\<exists>k. node_key_of_slice xs = Ok k \<and> node_key_keys k = xs"
  using assms by (cases xs rule: node_key_of_slice.cases) (auto simp: conflict_to_vec_def)

lemma node_key_of_slice_Ok:
  "node_key_of_slice xs = Ok k \<longleftrightarrow> node_key_keys k = xs"
proof
  assume "node_key_of_slice xs = Ok k"
  then show "node_key_keys k = xs"
    by (cases xs rule: node_key_of_slice.cases) (auto simp: conflict_to_vec_def)
next
  assume "node_key_keys k = xs"
  then show "node_key_of_slice xs = Ok k" using node_key_of_slice_keys [of k] by simp
qed

lemma sort_nonempty: "xs \<noteq> [] \<Longrightarrow> sort xs \<noteq> []"
  by (metis length_0_conv length_sort)

lemma node_key_merge_mset:
  obtains k where "node_key_merge self new removed = (Ok k :: ('e, _) outcome)"
    and "mset (node_key_keys k) =
      mset (node_key_keys new) + filter_mset (\<lambda>k. k \<notin> set removed) (mset (node_key_keys self))"
proof (cases self)
  case (ShareKey key)
  show ?thesis
  proof (cases "key \<in> set removed")
    case True
    with ShareKey show ?thesis by (intro that [of new]) (simp_all add: node_key_merge_def)
  next
    case False
    obtain k where "node_key_of_slice (sort (node_key_keys new @ [key])) = (Ok k :: ('e, _) outcome)"
      "node_key_keys k = sort (node_key_keys new @ [key])"
      using node_key_of_slice_nonempty [OF sort_nonempty, of "node_key_keys new @ [key]"] by auto
    with False ShareKey show ?thesis by (intro that [of k]) (simp_all add: node_key_merge_def)
  qed
next
  case (ConflictKeys ks)
  let ?ys = "node_key_keys new @ filter (\<lambda>k. k \<notin> set removed) (conflict_iter ks)"
  obtain k where "node_key_of_slice (sort ?ys) = (Ok k :: ('e, _) outcome)" "node_key_keys k = sort ?ys"
    using node_key_of_slice_nonempty [OF sort_nonempty, of ?ys] by auto
  with ConflictKeys show ?thesis
    by (intro that [of k]) (simp_all add: node_key_merge_def conflict_iter_vec mset_filter)
qed

text \<open>A merge that keeps an old key sorts, so its result is determined by the multiset.\<close>

lemma node_key_merge_sorted:
  assumes "\<exists>k \<in> set (node_key_keys self). k \<notin> set removed"
  shows "node_key_merge self new removed = node_key_of_slice (sort
    (node_key_keys new @ filter (\<lambda>k. k \<notin> set removed) (node_key_keys self)))"
  using assms by (cases self) (auto simp: node_key_merge_def conflict_iter_vec)

lemma node_key_merge_all_removed:
  "set (node_key_keys self) \<subseteq> set removed \<Longrightarrow> self = ShareKey k \<or> sorted (node_key_keys new) \<Longrightarrow>
    node_key_merge self new removed = Ok new"
proof (cases self)
  case (ConflictKeys ks)
  assume "set (node_key_keys self) \<subseteq> set removed" "self = ShareKey k \<or> sorted (node_key_keys new)"
  with ConflictKeys have s: "sorted (node_key_keys new)"
    and e: "filter (\<lambda>k. k \<notin> set removed) (conflict_iter ks) = []"
    by (auto simp: conflict_iter_vec filter_empty_conv)
  show ?thesis
    unfolding node_key_merge_def ConflictKeys node_key.case e
    by (simp add: sorted_sort_id [OF s] node_key_of_slice_keys)
qed (simp add: node_key_merge_def)

lemma encrypt_secret_short:
  assumes "crypto_laws C" "length (secret_bytes secret) = 32"
  obtains es where "encrypt_secret C doc secret sk pk = Ok es" "es_paired_pk es = pk"
    and "sym_try_decrypt C (derive_symmetric_key C sk pk) (es_nonce es) (es_ciphertext es) =
      Some (secret_bytes secret)"
proof -
  let ?key = "derive_symmetric_key C sk pk"
  obtain ct where ct: "sym_try_encrypt C ?key (siv_new C ?key (secret_bytes secret) doc) (secret_bytes secret) = Some ct"
    using sym_encrypt_short [of C "secret_bytes secret"] assms by auto
  then have "encrypt_secret C doc secret sk pk =
      Ok (encrypted_secret_new (siv_new C ?key (secret_bytes secret) doc) ct pk)"
    by (simp add: encrypt_secret_def Let_def)
  then show ?thesis using sym_decrypt_encrypt [OF assms(1) ct] that
    by (simp add: encrypted_secret_new_def)
qed

section \<open>Fork and merge of secret key maps\<close>

interpretation share_key_map: fork_merge share_key_map_fork share_key_map_merge
  by unfold_locales (auto simp: share_key_map_fork_def share_key_map_merge_def map_add_def fun_eq_iff split: option.splits)

section \<open>Properties\<close>

text \<open>
  C15 A secret encrypted under the shared key of two key pairs is recovered by both: the
  encrypter reads it with its own secret and the stored partner key, the partner reads it
  with its secret, found under the partner key, and the encrypter's public key.
\<close>

theorem encrypt_secret_readable_by_both:
  assumes "crypto_laws C" "length (secret_bytes secret) = 32"
    and "m (share_key C partner) = Some partner"
  shows "\<exists>es. encrypt_secret C doc secret sk (share_key C partner) = Ok es \<and>
    try_encrypter_decrypt C es sk = Some (secret_bytes secret) \<and>
    try_decrypt_encryption C m (share_key C sk) es = Ok (secret_bytes secret)"
proof -
  obtain es where es: "encrypt_secret C doc secret sk (share_key C partner) = Ok es"
      "es_paired_pk es = share_key C partner"
    and dec: "sym_try_decrypt C (derive_symmetric_key C sk (share_key C partner))
      (es_nonce es) (es_ciphertext es) = Some (secret_bytes secret)"
    by (rule encrypt_secret_short [OF assms(1,2), of doc sk "share_key C partner"])
  then show ?thesis
    using assms(3) derive_symmetric_key_agree [OF assms(1), of partner sk]
    by (intro exI [of _ es]) (simp add: try_encrypter_decrypt_def try_decrypt_encryption_def Let_def)
qed

theorem encrypt_secret_readable_by_both_witness:
  "\<exists>es. encrypt_secret demo_crypto [7] (ShareSecretKey (replicate 32 5)) (ShareSecretKey [1])
      (share_key demo_crypto (ShareSecretKey [2])) = Ok es \<and>
    try_encrypter_decrypt demo_crypto es (ShareSecretKey [1]) = Some (replicate 32 5)"
  using encrypt_secret_readable_by_both [of demo_crypto "ShareSecretKey (replicate 32 5)"
      "[share_key demo_crypto (ShareSecretKey [2]) \<mapsto> ShareSecretKey [2]]" "ShareSecretKey [2]" "[7]"
      "ShareSecretKey [1]"]
  by (auto simp: demo_crypto_laws)

text \<open>
  C23 \<open>NodeKey::merge\<close> never reaches its \<open>unreachable!\<close>; it holds the new keys and those old
  keys that the change did not remove, with their multiplicities.
\<close>

theorem node_key_merge_keys:
  "\<exists>k. node_key_merge self new removed = (Ok k :: ('e, _) outcome) \<and>
    mset (node_key_keys k) =
      mset (node_key_keys new) + {# key \<in># mset (node_key_keys self). key \<notin> set removed #}"
  by (rule node_key_merge_mset [of self new removed, where 'e = 'e]) blast

text \<open>
  C22 Two concurrent changes of a node key commute: when neither removes a key the other one
  adds, both orders give the same \<open>NodeKey\<close>, with the keys in the same order.
\<close>

theorem node_key_merge_commutes:
  assumes "set (node_key_keys a) \<inter> set rb = {}" "set (node_key_keys b) \<inter> set ra = {}"
  shows "and_then (node_key_merge self a ra) (\<lambda>k. node_key_merge k b rb) =
    (and_then (node_key_merge self b rb) (\<lambda>k. node_key_merge k a ra) :: ('e, _) outcome)"
proof -
  obtain ka where ka: "node_key_merge self a ra = (Ok ka :: ('e, _) outcome)"
    and mka: "mset (node_key_keys ka) =
      mset (node_key_keys a) + filter_mset (\<lambda>k. k \<notin> set ra) (mset (node_key_keys self))"
    by (rule node_key_merge_mset)
  obtain kb where kb: "node_key_merge self b rb = (Ok kb :: ('e, _) outcome)"
    and mkb: "mset (node_key_keys kb) =
      mset (node_key_keys b) + filter_mset (\<lambda>k. k \<notin> set rb) (mset (node_key_keys self))"
    by (rule node_key_merge_mset)
  obtain x y where xy: "x \<in> set (node_key_keys a)" "y \<in> set (node_key_keys b)"
    using hd_in_set [OF node_key_keys_nonempty] by blast
  have "x \<in># mset (node_key_keys ka)" "y \<in># mset (node_key_keys kb)"
    using xy unfolding mka mkb by auto
  then have "x \<in> set (node_key_keys ka)" "y \<in> set (node_key_keys kb)" by auto
  then have keep: "\<exists>k \<in> set (node_key_keys ka). k \<notin> set rb" "\<exists>k \<in> set (node_key_keys kb). k \<notin> set ra"
    using xy assms by blast+
  have fa: "filter_mset (\<lambda>k. k \<notin> set rb) (mset (node_key_keys a)) = mset (node_key_keys a)"
    and fb: "filter_mset (\<lambda>k. k \<notin> set ra) (mset (node_key_keys b)) = mset (node_key_keys b)"
    using assms by (auto simp: filter_mset_eq_conv)
  have "sort (node_key_keys b @ filter (\<lambda>k. k \<notin> set rb) (node_key_keys ka)) =
      sort (node_key_keys a @ filter (\<lambda>k. k \<notin> set ra) (node_key_keys kb))"
    by (rule properties_for_sort)
      (simp_all add: mka mkb fa fb filter_filter_mset conj_commute)
  then show ?thesis
    unfolding ka kb by (simp add: node_key_merge_sorted [OF keep(1)] node_key_merge_sorted [OF keep(2)])
qed

theorem node_key_merge_commutes_witness:
  "and_then (node_key_merge (ShareKey (PublicKey [0])) (ShareKey (PublicKey [2])) [PublicKey [0]])
     (\<lambda>k. node_key_merge k (ShareKey (PublicKey [1])) [PublicKey [0]]) =
   (and_then (node_key_merge (ShareKey (PublicKey [0])) (ShareKey (PublicKey [1])) [PublicKey [0]])
     (\<lambda>k. node_key_merge k (ShareKey (PublicKey [2])) [PublicKey [0]]) :: (unit, _) outcome)"
  using node_key_merge_commutes [of "ShareKey (PublicKey [2])" "[PublicKey [0]]" "ShareKey (PublicKey [1])"
      "[PublicKey [0]]" "ShareKey (PublicKey [0])", where 'e = unit] by simp

end
