(* ===== verification/Tree_Nav.thy ===== *)
theory Tree_Nav
  imports Prelude
begin

text \<open>
  The interface a tree algorithm relies on: nodes of a complete binary tree of depth \<open>d\<close>
  have coordinates \<open>(k, q)\<close>, level and position from the left, and the navigation functions
  move between coordinates. The locale \<open>tree_nav\<close> states those laws; its lemmas are what
  climbing loops and subtree recursions need. The array representation of BeeKEM
  interprets it in \<open>Tree_Math\<close>.
\<close>

section \<open>Coordinates\<close>

definition in_tree :: "nat \<Rightarrow> nat \<Rightarrow> nat \<Rightarrow> bool" where
  "in_tree d k q \<longleftrightarrow> k \<le> d \<and> d \<le> 30 \<and> q < 2 ^ (d - k)"

lemma in_tree_parent: "in_tree d k q \<Longrightarrow> k < d \<Longrightarrow> in_tree d (Suc k) (q div 2)"
proof -
  assume "in_tree d k q" "k < d"
  then have "q < 2 * 2 ^ (d - Suc k)"
    by (simp add: in_tree_def flip: power_Suc) (simp add: Suc_diff_Suc)
  then show ?thesis using \<open>in_tree d k q\<close> \<open>k < d\<close> by (auto simp: in_tree_def)
qed

lemma in_tree_child: "in_tree d (Suc k) q \<Longrightarrow> r < 2 \<Longrightarrow> in_tree d k (2 * q + r)"
proof -
  assume t: "in_tree d (Suc k) q" and r: "r < 2"
  then have "2 * q + r < 2 * 2 ^ (d - Suc k)" by (auto simp: in_tree_def)
  also have "\<dots> = 2 ^ (d - k)" using t
    by (simp add: in_tree_def Suc_diff_Suc flip: power_Suc)
  finally show ?thesis using t by (auto simp: in_tree_def)
qed

lemma in_tree_ancestor:
  assumes "in_tree d k q" "k + n \<le> d"
  shows "in_tree d (k + n) (q div 2 ^ n)"
proof -
  have "q < 2 ^ (d - (k + n)) * 2 ^ n" using assms by (simp add: in_tree_def flip: power_add)
  then show ?thesis using assms by (simp add: in_tree_def less_mult_imp_div_less)
qed

lemma in_tree_descendant:
  assumes "in_tree d k q" "m \<le> k" "p div 2 ^ (k - m) = q"
  shows "in_tree d m p"
proof -
  have "p div 2 ^ (k - m) < 2 ^ (d - k)" using assms by (simp add: in_tree_def)
  then have "p < 2 ^ (d - k) * 2 ^ (k - m)" by (subst (asm) div_less_iff_less_mult) simp_all
  then show ?thesis using assms(1,2) by (simp add: in_tree_def flip: power_add)
qed

lemma in_tree_anc: "d \<le> 30 \<Longrightarrow> i < 2 ^ d \<Longrightarrow> k \<le> d \<Longrightarrow> in_tree d k (i div 2 ^ k)"
  using in_tree_ancestor [of d 0 i k] by (simp add: in_tree_def)

lemma in_tree_top: "in_tree d d q \<Longrightarrow> q = 0"
  by (simp add: in_tree_def)

lemma in_tree_sibling: "in_tree d k q \<Longrightarrow> k < d \<Longrightarrow> in_tree d k (if even q then q + 1 else q - 1)"
  using in_tree_child [OF in_tree_parent [of d k q], of "if even q then 1 else 0"]
  by (auto elim!: evenE oddE)

lemma div_pow_Suc: "i div 2 ^ k div 2 = i div (2 ^ Suc k :: nat)"
  by (simp add: div_mult2_eq mult.commute flip: div_mult2_eq)

lemma div_pow_add: "i div 2 ^ k div 2 ^ n = i div (2 ^ (k + n) :: nat)"
  by (simp add: power_add div_mult2_eq)

section \<open>The contract\<close>

locale tree_nav =
  fixes node :: "nat \<Rightarrow> nat \<Rightarrow> 'n"
    and up :: "'n \<Rightarrow> 'n"
    and left_child :: "'n \<Rightarrow> 'n"
    and right_child :: "'n \<Rightarrow> 'n"
    and other :: "'n \<Rightarrow> 'n"
    and top :: "nat \<Rightarrow> 'n"
  assumes node_inj: "in_tree d k q \<Longrightarrow> in_tree d k' q' \<Longrightarrow> node k q = node k' q' \<Longrightarrow> k = k' \<and> q = q'"
    and up_node: "in_tree d k q \<Longrightarrow> k < d \<Longrightarrow> up (node k q) = node (Suc k) (q div 2)"
    and left_node: "in_tree d (Suc k) q \<Longrightarrow> left_child (node (Suc k) q) = node k (2 * q)"
    and right_node: "in_tree d (Suc k) q \<Longrightarrow> right_child (node (Suc k) q) = node k (2 * q + 1)"
    and other_node: "in_tree d k q \<Longrightarrow> k < d \<Longrightarrow>
      other (node k q) = node k (if even q then q + 1 else q - 1)"
    and top_node: "d \<le> 30 \<Longrightarrow> top d = node d 0"
begin

lemma up_pow: "in_tree d k q \<Longrightarrow> k + n \<le> d \<Longrightarrow> (up ^^ n) (node k q) = node (k + n) (q div 2 ^ n)"
proof (induction n)
  case (Suc n)
  then have "(up ^^ n) (node k q) = node (k + n) (q div 2 ^ n)" by simp
  moreover have "in_tree d (k + n) (q div 2 ^ n)" using in_tree_ancestor Suc.prems by simp
  ultimately show ?case using Suc.prems up_node [of d "k + n" "q div 2 ^ n"]
    by (simp add: div_pow_Suc del: power_Suc)
qed simp

lemma reaches_top: "in_tree d k q \<Longrightarrow> (up ^^ (d - k)) (node k q) = top d"
  using up_pow [of d k q "d - k"] in_tree_ancestor [of d k q "d - k"] in_tree_top
  by (auto simp: in_tree_def top_node)

lemma top_iff: "in_tree d k q \<Longrightarrow> node k q = top d \<longleftrightarrow> k = d"
  using node_inj [of d k q d 0] top_node [of d] in_tree_top [of d q]
  by (auto simp: in_tree_def)

lemma children_up:
  "in_tree d (Suc k) q \<Longrightarrow> up (left_child (node (Suc k) q)) = node (Suc k) q \<and>
    up (right_child (node (Suc k) q)) = node (Suc k) q"
  using in_tree_child [of d k q 0] in_tree_child [of d k q 1] up_node [of d k "2 * q"]
    up_node [of d k "2 * q + 1"]
  by (auto simp: left_node right_node in_tree_def)

lemma other_other: "in_tree d k q \<Longrightarrow> k < d \<Longrightarrow> other (other (node k q)) = node k q"
  using other_node [OF in_tree_sibling, of d k q] by (auto simp: other_node elim!: oddE evenE)

text \<open>
  A loop that treats a node and goes up until it has treated the root is a fold over the
  ancestors; with enough fuel it does not run out.
\<close>

lemma climb_is_fold:
  assumes loop: "\<And>n x s. keep s \<Longrightarrow> loop n x s = (if x \<noteq> top d
      then (case n of 0 \<Rightarrow> Hang | Suc m \<Rightarrow> and_then (step x s) (loop m (up x)))
      else fin x s)"
    and keeps: "\<And>x s s'. keep s \<Longrightarrow> step x s = (Ok s' :: ('e, 's) outcome) \<Longrightarrow> keep s'"
    and t: "in_tree d k q" and fuel: "d - k \<le> n" and s: "keep s"
  shows "loop n (node k q) s =
    and_then (fold_ok (\<lambda>s m. step (node m (q div 2 ^ (m - k))) s) s [k..<d]) (fin (top d))"
  using t fuel s
proof (induction "d - k" arbitrary: k q n s)
  case 0
  then have "k = d" by (simp add: in_tree_def)
  with 0 show ?case using top_iff [OF 0(2)] by (subst loop) (auto simp: in_tree_top)
next
  case (Suc l)
  then have k: "k < d" by simp
  then obtain m where n: "n = Suc m" using Suc by (cases n) auto
  have ne: "node k q \<noteq> top d" using top_iff Suc k by blast
  have IH: "loop m (node (Suc k) (q div 2)) s' =
      and_then (fold_ok (\<lambda>s m. step (node m (q div 2 div 2 ^ (m - Suc k))) s) s' [Suc k..<d]) (fin (top d))"
    if "keep s'" for s'
    using Suc in_tree_parent [of d k q] k n that by (intro Suc.hyps(1)) auto
  have eq: "fold_ok (\<lambda>s m. step (node m (q div 2 div 2 ^ (m - Suc k))) s) s' [Suc k..<d] =
      fold_ok (\<lambda>s m. step (node m (q div 2 ^ (m - k))) s) s' [Suc k..<d]" for s'
  proof (rule fold_ok_cong)
    fix s m assume "m \<in> set [Suc k..<d]"
    then have "m - k = Suc (m - Suc k)" by auto
    then show "step (node m (q div 2 div 2 ^ (m - Suc k))) s = step (node m (q div 2 ^ (m - k))) s"
      by (simp add: div_mult2_eq)
  qed
  show ?case
  proof (cases "step (node k q) s")
    case (Ok s')
    then have "keep s'" using keeps Suc.prems by blast
    then show ?thesis using Ok ne k n Suc.prems up_node [of d k q] IH eq
      by (subst loop) (simp_all add: upt_conv_Cons)
  qed (use ne k n Suc.prems in \<open>subst loop, simp_all add: upt_conv_Cons\<close>)+
qed

end

end
