(* ===== verification/Tree_Math.thy ===== *)
theory Tree_Math
  imports Tree_Nav
begin

unbundle bit_operations_syntax

text \<open>
  The array representation of a complete binary tree (\<open>beekem/src/treemath.rs\<close>): node
  indices, tree sizes, and navigation between parents, children, siblings and common
  ancestors by bit operations on \<open>u32\<close> indices.

  The lemmas relate the bit operations to coordinates: \<open>node_at k q\<close> is the index of the
  \<open>q\<close>-th node (from the left) of level \<open>k\<close>, level 0 being the leaves.
\<close>

named_theorems node_simps \<open>navigation on coordinates\<close>

section \<open>Indices\<close>

text \<open>\<open>LeafNodeIndex\<close> and \<open>InnerNodeIndex\<close> wrap a \<open>u32\<close>.\<close>

type_synonym leaf_node_index = u32
type_synonym inner_node_index = u32

datatype tree_node_index = Leaf leaf_node_index | Inner inner_node_index

definition leaf_to_tree_index :: "leaf_node_index \<Rightarrow> u32" where
  "leaf_to_tree_index i = u32_mul i 2"

definition leaf_from_tree_index :: "u32 \<Rightarrow> leaf_node_index" where
  "leaf_from_tree_index x = x div 2"

definition inner_to_tree_index :: "inner_node_index \<Rightarrow> u32" where
  "inner_to_tree_index i = u32_add (u32_mul i 2) 1"

definition inner_from_tree_index :: "u32 \<Rightarrow> inner_node_index" where
  "inner_from_tree_index x = u32_sub x 1 div 2"

definition tree_node_index_new :: "u32 \<Rightarrow> tree_node_index" where
  "tree_node_index_new x =
     (if x mod 2 = 0 then Leaf (leaf_from_tree_index x) else Inner (inner_from_tree_index x))"

primrec tree_node_index_u32 :: "tree_node_index \<Rightarrow> u32" where
  "tree_node_index_u32 (Leaf i) = leaf_to_tree_index i"
| "tree_node_index_u32 (Inner i) = inner_to_tree_index i"

section \<open>Levels and sizes\<close>

text \<open>
  The loops of \<open>log2\<close> and \<open>level\<close> count up to at most 32 shifts. For the two argument
  ranges where the source's loop would shift by 32 or more (\<open>log2\<close> from \<open>2 ^ 31\<close> on,
  \<open>level\<close> of \<open>2 ^ 32 - 1\<close>) the source does not return; no index of a tree reaches them.
\<close>

function log2_loop :: "u32 \<Rightarrow> nat \<Rightarrow> nat" where
  "log2_loop x k = (if k < 32 \<and> u32_shr x k > 0 then log2_loop x (k + 1) else k)"
  by pat_completeness auto
termination by (relation "measure (\<lambda>(x, k). 32 - k)") auto

definition log2 :: "u32 \<Rightarrow> nat" where
  "log2 x = (if x = 0 then 0 else log2_loop x 0 - 1)"

function level_loop :: "u32 \<Rightarrow> nat \<Rightarrow> nat" where
  "level_loop x k = (if k < 32 \<and> u32_shr x k AND 1 = 1 then level_loop x (k + 1) else k)"
  by pat_completeness auto
termination by (relation "measure (\<lambda>(x, k). 32 - k)") auto

definition level :: "u32 \<Rightarrow> nat" where
  "level x = (if x AND 1 = 0 then 0 else level_loop x 0)"

declare log2_loop.simps [simp del] level_loop.simps [simp del]

text \<open>\<open>TreeSize\<close> wraps the number of nodes.\<close>

type_synonym tree_size = u32

definition tree_size_new :: "u32 \<Rightarrow> tree_size" where
  "tree_size_new nodes = u32_sub (u32_shl 1 (log2 nodes + 1)) 1"

definition from_leaf_count :: "u32 \<Rightarrow> tree_size" where
  "from_leaf_count n = tree_size_new (u32_mul n 2)"

definition leaf_count :: "tree_size \<Rightarrow> u32" where
  "leaf_count s = u32_add (s div 2) 1"

definition inner_node_count :: "tree_size \<Rightarrow> u32" where
  "inner_node_count s = s div 2"

definition leaf_is_left :: "tree_size \<Rightarrow> leaf_node_index \<Rightarrow> bool" where
  "leaf_is_left s i \<longleftrightarrow> i < leaf_count s div 2"

definition tree_size_inc :: "tree_size \<Rightarrow> tree_size" where
  "tree_size_inc s = u32_add (u32_mul s 2) 1"

definition is_node_in_tree :: "tree_node_index \<Rightarrow> tree_size \<Rightarrow> bool" where
  "is_node_in_tree i s \<longleftrightarrow> tree_node_index_u32 i < s"

section \<open>Navigation\<close>

definition root :: "tree_size \<Rightarrow> tree_node_index" where
  "root s = tree_node_index_new (u32_sub (u32_shl 1 (log2 s)) 1)"

definition left :: "inner_node_index \<Rightarrow> tree_node_index" where
  "left i = (let x = inner_to_tree_index i; k = level x in
     tree_node_index_new (x XOR u32_shl 1 (k - 1)))"

definition right :: "inner_node_index \<Rightarrow> tree_node_index" where
  "right i = (let x = inner_to_tree_index i; k = level x in
     tree_node_index_new (x XOR u32_shl 3 (k - 1)))"

definition parent :: "tree_node_index \<Rightarrow> inner_node_index" where
  "parent i = (let x = tree_node_index_u32 i; k = level x; b = u32_shr x (k + 1) AND 1 in
     inner_from_tree_index ((x OR u32_shl 1 k) XOR u32_shl b (k + 1)))"

definition sibling :: "tree_node_index \<Rightarrow> tree_node_index" where
  "sibling i = (let p = parent i in
     if tree_node_index_u32 i < inner_to_tree_index p then right p else left p)"

text \<open>
  The loop of \<open>direct_path\<close> climbs until it meets the root. It is given fuel: an index in
  the tree is at most 32 levels below the root, and the lemma \<open>direct_path_leaf\<close> below
  shows that the fuel is never used up for a leaf of the tree.
\<close>

fun direct_path_loop :: "nat \<Rightarrow> u32 \<Rightarrow> u32 \<Rightarrow> ('e, inner_node_index list) outcome" where
  "direct_path_loop fuel r x =
     (if x = r then Ok []
      else case fuel of
        0 \<Rightarrow> Hang
      | Suc n \<Rightarrow> (let p = parent (tree_node_index_new x) in
          map_ok (Cons p) (direct_path_loop n r (inner_to_tree_index p))))"

declare direct_path_loop.simps [simp del]

definition direct_path :: "tree_node_index \<Rightarrow> tree_size \<Rightarrow> ('e, inner_node_index list) outcome" where
  "direct_path i s = direct_path_loop 32 (tree_node_index_u32 (root s)) (tree_node_index_u32 i)"

text \<open>
  The loop of \<open>lowest_common_ancestor\<close> shifts both indices right until they agree, at the
  latest when both are 0.
\<close>

lemma halves_less: "x \<noteq> y \<Longrightarrow> x div 2 + y div 2 < x + (y :: nat)"
  by linarith

function lca_loop :: "u32 \<Rightarrow> u32 \<Rightarrow> nat \<Rightarrow> u32 \<times> nat" where
  "lca_loop xn yn k = (if xn \<noteq> yn then lca_loop (xn div 2) (yn div 2) (k + 1) else (xn, k))"
  by pat_completeness auto
termination by (relation "measure (\<lambda>(x, y, k). x + y)") (simp_all add: halves_less)

declare lca_loop.simps [simp del]

definition lowest_common_ancestor :: "leaf_node_index \<Rightarrow> leaf_node_index \<Rightarrow> inner_node_index" where
  "lowest_common_ancestor i j =
     (let x = leaf_to_tree_index i; y = leaf_to_tree_index j;
          lx = level x + 1; ly = level y + 1 in
      if lx \<le> ly \<and> u32_shr x ly = u32_shr y ly then inner_from_tree_index y
      else if ly \<le> lx \<and> u32_shr x lx = u32_shr y lx then inner_from_tree_index x
      else (let (xn, k) = lca_loop x y 0 in
        inner_from_tree_index (u32_sub (u32_add (u32_shl xn k) (u32_shl 1 (k - 1))) 1)))"

section \<open>Coordinates\<close>

definition node_at :: "nat \<Rightarrow> nat \<Rightarrow> u32" where
  "node_at k q = push_bit (Suc k) q OR mask k"

definition inner_at :: "nat \<Rightarrow> nat \<Rightarrow> inner_node_index" where
  "inner_at k q = q * 2 ^ k + 2 ^ (k - 1) - 1"

definition node_idx :: "nat \<Rightarrow> nat \<Rightarrow> tree_node_index" where
  "node_idx k q = (if k = 0 then Leaf q else Inner (inner_at k q))"

lemma node_idx_Suc [simp]: "node_idx (Suc k) q = Inner (inner_at (Suc k) q)"
  by (simp add: node_idx_def)

lemma node_idx_0 [simp]: "node_idx 0 q = Leaf q"
  by (simp add: node_idx_def)

lemma bit_node_at: "bit (node_at k q) j \<longleftrightarrow> j < k \<or> (k < j \<and> bit q (j - Suc k))"
  by (auto simp: node_at_def bit_simps simp del: push_bit_Suc)

lemma node_at_eq: "node_at k q = q * 2 ^ Suc k + (2 ^ k - 1)"
proof -
  have "node_at k q = push_bit (Suc k) q + mask k"
    unfolding node_at_def
    by (rule disjunctive_add [symmetric]) (auto simp: bit_simps)
  then show ?thesis by (simp add: push_bit_eq_mult mask_eq_exp_minus_1 algebra_simps)
qed

lemma Suc_node_at: "Suc (node_at k q) = q * 2 ^ Suc k + 2 ^ k"
  by (simp add: node_at_eq)

lemma node_at_less: "in_tree d k q \<Longrightarrow> node_at k q + 2 ^ k < 2 ^ Suc d"
proof -
  assume "in_tree d k q"
  then have k: "k \<le> d" and q: "q + 1 \<le> 2 ^ (d - k)" by (auto simp: in_tree_def)
  have "(q + 1) * 2 ^ Suc k \<le> 2 ^ (d - k) * 2 ^ Suc k" using q by (rule mult_right_mono) simp
  also have "\<dots> = 2 ^ Suc d" using k by (simp flip: power_add)
  finally have "q * 2 ^ Suc k + 2 ^ Suc k \<le> 2 ^ Suc d" by simp
  moreover have "(2 :: nat) ^ k - 1 < 2 ^ k" by simp
  then have "node_at k q + 2 ^ k < q * 2 ^ Suc k + 2 ^ Suc k"
    unfolding node_at_eq power_Suc by linarith
  ultimately show ?thesis by linarith
qed

lemma pow_le_31: "d \<le> 30 \<Longrightarrow> (2 :: nat) ^ Suc d \<le> 2 ^ 31"
  by (rule power_increasing) simp_all

lemma node_at_u32: "in_tree d k q \<Longrightarrow> node_at k q < 2 ^ 31 - 1"
proof -
  assume t: "in_tree d k q"
  then have "(2 :: nat) ^ Suc d \<le> 2 ^ 31" by (intro pow_le_31) (simp add: in_tree_def)
  moreover have "(1 :: nat) \<le> 2 ^ k" by simp
  ultimately show ?thesis using node_at_less [OF t] by linarith
qed

lemma shr_mod: "j < 32 \<Longrightarrow> u32_shr x j mod 2 = of_bool (bit x j)"
  by (simp add: u32_shr_def bit_iff_odd_drop_bit mod2_eq_if)

lemma level_loop_step:
  "level_loop x k = (if k < 32 \<and> bit x k then level_loop x (Suc k) else k)"
  by (subst level_loop.simps) (auto simp: shr_mod and_one_eq)

lemma level_loop_node_at: "j \<le> k \<Longrightarrow> k < 32 \<Longrightarrow> level_loop (node_at k q) j = k"
proof (induction "k - j" arbitrary: j)
  case 0
  then show ?case by (subst level_loop_step) (simp add: bit_node_at)
next
  case (Suc n)
  then have "level_loop (node_at k q) (Suc j) = k" by simp
  with Suc show ?case by (subst level_loop_step) (simp add: bit_node_at)
qed

lemma even_node_at [simp]: "even (node_at k q) \<longleftrightarrow> k = 0"
  using bit_node_at [of k q 0] by (auto simp: bit_0)

lemma level_node_at: "k < 32 \<Longrightarrow> level (node_at k q) = k"
  by (auto simp: level_def and_one_eq level_loop_node_at)

lemma node_at_inner: "0 < k \<Longrightarrow> node_at k q = 2 * inner_at k q + 1"
proof -
  assume "0 < k"
  then obtain m where k: "k = Suc m" by (cases k) auto
  obtain p where p: "(2 :: nat) ^ m = Suc p" by (cases "(2 :: nat) ^ m") auto
  show ?thesis unfolding node_at_eq inner_at_def k by (simp add: p)
qed

lemma node_at_leaf: "node_at 0 q = 2 * q"
  by (simp add: node_at_eq)

lemma idx_u32 [node_simps]: "in_tree d k q \<Longrightarrow> tree_node_index_u32 (node_idx k q) = node_at k q"
  using node_at_u32 [of d k q]
  by (auto simp: node_idx_def node_at_inner node_at_leaf leaf_to_tree_index_def
      inner_to_tree_index_def)

lemma inner_u32 [node_simps]:
  "in_tree d k q \<Longrightarrow> 0 < k \<Longrightarrow> inner_to_tree_index (inner_at k q) = node_at k q"
  using idx_u32 [of d k q] by (simp add: node_idx_def)

lemma inner_from [node_simps]:
  "in_tree d k q \<Longrightarrow> 0 < k \<Longrightarrow> inner_from_tree_index (node_at k q) = inner_at k q"
  using node_at_u32 [of d k q] by (simp add: inner_from_tree_index_def node_at_inner)

lemma idx_new [node_simps]: "in_tree d k q \<Longrightarrow> tree_node_index_new (node_at k q) = node_idx k q"
  by (auto simp: tree_node_index_new_def node_idx_def inner_from leaf_from_tree_index_def
      node_at_leaf simp flip: even_iff_mod_2_eq_zero)


lemma bit_u32_shl: "bit (u32_shl x k) j \<longleftrightarrow> j < 32 \<and> k mod 32 \<le> j \<and> bit x (j - k mod 32)"
  unfolding u32_shl_def take_bit_eq_mod [symmetric] by (auto simp: bit_simps)

lemma bit_one: "bit (1 :: nat) j \<longleftrightarrow> j = 0"
  by (cases j) (simp_all add: bit_0 bit_Suc)

lemma bit_compare:
  assumes "\<And>j. j < k \<Longrightarrow> bit x j = bit y j" "bit x k = bit (y :: nat) k"
    and "\<And>j. k < j \<Longrightarrow> bit x j = bit y j"
  shows "x = y"
proof (rule bit_eqI)
  fix j
  show "bit x j = bit y j" using assms by (cases j k rule: linorder_cases) auto
qed

lemma bit_half: "Suc k < j \<Longrightarrow> bit (q div 2) (j - Suc (Suc k)) = bit (q :: nat) (j - Suc k)"
  by (simp add: Suc_diff_Suc flip: bit_Suc)

lemma bit_twice: "bit (2 * q :: nat) j \<longleftrightarrow> 0 < j \<and> bit q (j - 1)"
  by (auto simp: bit_double_iff)

lemma bit_twice_Suc: "bit (Suc (2 * q)) j \<longleftrightarrow> j = 0 \<or> bit q (j - 1)"
  by (cases j) (auto simp: bit_Suc bit_0)

lemmas node_bits = bit_simps bit_u32_shl bit_one bit_node_at shr_mod and_one_eq
  bit_half bit_twice bit_twice_Suc

lemma parent_idx [node_simps]:
  assumes "in_tree d k q" "k < d"
  shows "parent (node_idx k q) = inner_at (Suc k) (q div 2)"
proof -
  let ?x = "node_at k q"
  have k: "k < 30" using assms by (auto simp: in_tree_def)
  have "(?x OR u32_shl 1 k) XOR u32_shl (u32_shr ?x (k + 1) AND 1) (k + 1) = node_at (Suc k) (q div 2)"
    by (rule bit_compare [where k = "Suc k"])
      (use k in \<open>auto simp: node_bits\<close>)
  then show ?thesis using assms in_tree_parent [OF assms] k
    by (simp add: parent_def idx_u32 level_node_at Let_def inner_from)
qed


lemma left_idx [node_simps]:
  assumes "in_tree d (Suc k) q"
  shows "left (inner_at (Suc k) q) = node_idx k (2 * q)"
proof -
  have k: "k < 30" using assms by (auto simp: in_tree_def)
  have "node_at (Suc k) q XOR u32_shl 1 k = node_at k (2 * q)"
    by (rule bit_compare [where k = k])
      (use k in \<open>auto simp: node_bits\<close>)
  then show ?thesis using assms in_tree_child [OF assms, of 0] k
    by (simp add: left_def inner_u32 level_node_at Let_def idx_new)
qed

lemma right_idx [node_simps]:
  assumes "in_tree d (Suc k) q"
  shows "right (inner_at (Suc k) q) = node_idx k (2 * q + 1)"
proof -
  have k: "k < 30" using assms by (auto simp: in_tree_def)
  have three: "bit (3 :: nat) j \<longleftrightarrow> j < 2" for j
    by (cases j; cases "j - 1") (auto simp: bit_Suc bit_0)
  have "node_at (Suc k) q XOR u32_shl 3 k = node_at k (2 * q + 1)"
    by (rule bit_compare [where k = k])
      (use k in \<open>auto simp: node_bits three\<close>)
  then show ?thesis using assms in_tree_child [OF assms, of 1] k
    by (simp add: right_def inner_u32 level_node_at Let_def idx_new)
qed


lemma node_at_mono_parent:
  "node_at k q < node_at (Suc k) (q div 2) \<longleftrightarrow> even q"
proof -
  obtain p where p: "(2 :: nat) ^ k = Suc p" by (cases "(2 :: nat) ^ k") auto
  show ?thesis
  proof (cases "even q")
    case True
    then obtain b where "q = 2 * b" by (rule evenE)
    then show ?thesis by (simp add: node_at_eq p)
  next
    case False
    then obtain b where "q = 2 * b + 1" by (rule oddE)
    then show ?thesis by (simp add: node_at_eq p)
  qed
qed

lemma sibling_idx [node_simps]:
  assumes "in_tree d k q" "k < d"
  shows "sibling (node_idx k q) = node_idx k (if even q then q + 1 else q - 1)"
proof -
  have t: "in_tree d (Suc k) (q div 2)" by (rule in_tree_parent [OF assms])
  have "sibling (node_idx k q) =
      (if even q then right (inner_at (Suc k) (q div 2)) else left (inner_at (Suc k) (q div 2)))"
    using assms t by (simp add: sibling_def parent_idx Let_def idx_u32 inner_u32 node_at_mono_parent)
  then show ?thesis using t by (auto simp: left_idx right_idx elim!: evenE oddE)
qed

lemma log2_loop_eq:
  assumes "2 ^ k \<le> x" "x < 2 ^ Suc k" "k < 31" "j \<le> Suc k"
  shows "log2_loop x j = Suc k"
  using assms(4)
proof (induction "Suc k - j" arbitrary: j)
  case 0
  then have "j = Suc k" by simp
  with assms show ?case by (subst log2_loop.simps) (simp add: u32_shr_eq)
next
  case (Suc n)
  then have "j \<le> k" and IH: "log2_loop x (Suc j) = Suc k" by simp_all
  have "(2 :: nat) ^ j \<le> 2 ^ k" using \<open>j \<le> k\<close> by (rule power_increasing) simp
  also note assms(1)
  finally have "0 < x div 2 ^ j" by (simp add: div_greater_zero_iff)
  then show ?case using IH assms(3) \<open>j \<le> k\<close>
    by (subst log2_loop.simps) (simp add: u32_shr_eq)
qed

lemma log2_eq: "2 ^ k \<le> x \<Longrightarrow> x < 2 ^ Suc k \<Longrightarrow> k < 31 \<Longrightarrow> log2 x = k"
proof -
  assume a: "2 ^ k \<le> x" "x < 2 ^ Suc k" "k < 31"
  then have "x \<noteq> 0" using not_le by (metis le_zero_eq power_not_zero zero_neq_numeral)
  then show ?thesis using log2_loop_eq [OF a, of 0] by (simp add: log2_def)
qed

lemma log2_bounds:
  assumes "0 < x" "x < 2 ^ 31"
  shows "2 ^ log2 x \<le> x" "x < 2 ^ Suc (log2 x)" "log2 x < 31"
proof -
  obtain k where k: "2 ^ k \<le> x" "x < 2 ^ Suc k"
    using ex_power_ivl1 [of 2 x] assms by auto
  moreover have "k < 31"
  proof (rule ccontr)
    assume "\<not> k < 31"
    then have "(2 :: nat) ^ 31 \<le> 2 ^ k" by (intro power_increasing) auto
    with k assms show False by linarith
  qed
  ultimately show "2 ^ log2 x \<le> x" "x < 2 ^ Suc (log2 x)" "log2 x < 31"
    by (simp_all add: log2_eq)
qed


lemma two_pow_Suc_le: "d \<le> 30 \<Longrightarrow> (2 :: nat) ^ d \<le> 2 ^ 30"
  by (rule power_increasing) simp_all

definition full_size :: "nat \<Rightarrow> tree_size" where
  "full_size d = 2 ^ Suc d - 1"

lemma log2_full_size: "d \<le> 30 \<Longrightarrow> log2 (full_size d) = d"
  by (rule log2_eq) (simp_all add: full_size_def)

lemma root_idx [node_simps]: "d \<le> 30 \<Longrightarrow> root (full_size d) = node_idx d 0"
proof -
  assume d: "d \<le> 30"
  have "(2 :: nat) ^ d \<le> 2 ^ 30" using d by (rule two_pow_Suc_le)
  moreover have "(1 :: nat) \<le> 2 ^ d" by simp
  ultimately have "u32_sub (u32_shl 1 d) 1 = node_at d 0"
    using d by (simp add: node_at_eq u32_shl_one)
  moreover have "in_tree d d 0" using d by (simp add: in_tree_def)
  ultimately show ?thesis by (simp add: root_def log2_full_size d idx_new)
qed

lemma leaf_count_full [node_simps]: "d \<le> 30 \<Longrightarrow> leaf_count (full_size d) = 2 ^ d"
proof -
  assume d: "d \<le> 30"
  obtain p where p: "(2 :: nat) ^ d = Suc p" by (cases "(2 :: nat) ^ d") auto
  with two_pow_Suc_le [OF d] show ?thesis by (simp add: leaf_count_def full_size_def)
qed

lemma inner_count_full [node_simps]: "inner_node_count (full_size d) = 2 ^ d - 1"
proof -
  obtain p where p: "(2 :: nat) ^ d = Suc p" by (cases "(2 :: nat) ^ d") auto
  then show ?thesis by (simp add: inner_node_count_def full_size_def)
qed

lemma inc_full [node_simps]: "d < 30 \<Longrightarrow> tree_size_inc (full_size d) = full_size (Suc d)"
proof -
  assume d: "d < 30"
  obtain p where p: "(2 :: nat) ^ d = Suc p" by (cases "(2 :: nat) ^ d") auto
  with two_pow_Suc_le [of "Suc d"] d show ?thesis by (simp add: tree_size_inc_def full_size_def)
qed

lemma tree_size_new_full:
  assumes "0 < n" "n < 2 ^ 31"
  shows "tree_size_new n = full_size (log2 n)"
proof -
  have "log2 n < 31" using assms by (rule log2_bounds)
  moreover have "(2 :: nat) ^ Suc (log2 n) \<le> 2 ^ 31"
    using \<open>log2 n < 31\<close> by (intro power_increasing) simp_all
  moreover have "(1 :: nat) \<le> 2 ^ Suc (log2 n)" by (rule one_le_power) simp
  ultimately show ?thesis
    by (simp add: tree_size_new_def full_size_def u32_shl_one del: power_Suc)
qed

lemma log2_double: "0 < n \<Longrightarrow> n < 2 ^ 30 \<Longrightarrow> log2 (2 * n) = Suc (log2 n)"
proof -
  assume n: "0 < n" "n < 2 ^ 30"
  have b: "2 ^ log2 n \<le> n" "n < 2 ^ Suc (log2 n)" using log2_bounds [of n] n by simp_all
  have "log2 n < 30"
  proof (rule ccontr)
    assume "\<not> log2 n < 30"
    then have "(2 :: nat) ^ 30 \<le> 2 ^ log2 n" by (intro power_increasing) auto
    with b n show False by linarith
  qed
  with b show ?thesis by (intro log2_eq) auto
qed

lemma from_leaf_count_full:
  assumes "0 < n" "n < 2 ^ 30"
  shows "from_leaf_count n = full_size (Suc (log2 n))"
  using assms by (simp add: from_leaf_count_def mult.commute [of n] tree_size_new_full log2_double)

lemma from_leaf_count_zero: "from_leaf_count 0 = full_size 0"
  using u32_shl_one [of 1]
  by (simp add: from_leaf_count_def tree_size_new_def log2_def full_size_def)


section \<open>Paths\<close>

definition anc :: "nat \<Rightarrow> leaf_node_index \<Rightarrow> inner_node_index" where
  "anc k i = inner_at k (i div 2 ^ k)"

lemma level_idx_inj:
  "in_tree d k q \<Longrightarrow> in_tree d' k' q' \<Longrightarrow> node_at k q = node_at k' q' \<longleftrightarrow> k = k' \<and> q = q'"
proof
  assume t: "in_tree d k q" "in_tree d' k' q'" and eq: "node_at k q = node_at k' q'"
  have "k < 32" "k' < 32" using t by (auto simp: in_tree_def)
  then have "k = k'" using eq level_node_at by metis
  moreover from eq have "Suc (node_at k q) = Suc (node_at k' q')" by simp
  ultimately show "k = k' \<and> q = q'" by (simp add: Suc_node_at)
qed simp

lemma direct_path_loop_eq:
  assumes "in_tree d k q" "d - k \<le> fuel"
  shows "(direct_path_loop fuel (node_at d 0) (node_at k q) :: ('e, _) outcome) =
    Ok (map (\<lambda>j. inner_at j (q div 2 ^ (j - k))) [Suc k..<Suc d])"
  using assms
proof (induction fuel arbitrary: k q)
  case 0
  then have "k = d" "q = 0" by (auto simp: in_tree_def)
  then show ?case by (subst direct_path_loop.simps) simp
next
  case (Suc n)
  have td: "in_tree d d 0" using Suc.prems by (auto simp: in_tree_def)
  show ?case
  proof (cases "k = d")
    case True
    with Suc.prems have "q = 0" by (auto simp: in_tree_def)
    with True show ?thesis by (subst direct_path_loop.simps) simp
  next
    case False
    then have kd: "k < d" using Suc.prems by (auto simp: in_tree_def)
    have t: "in_tree d (Suc k) (q div 2)" by (rule in_tree_parent [OF Suc.prems(1) kd])
    have ne: "node_at k q \<noteq> node_at d 0"
      using level_idx_inj [OF Suc.prems(1) td] False by simp
    have shift: "q div 2 div 2 ^ (j - Suc k) = q div 2 ^ (j - k)" if "j \<in> set [Suc (Suc k)..<Suc d]" for j
    proof -
      from that have "j - k = Suc (j - Suc k)" by auto
      then show ?thesis by (simp add: div_mult2_eq)
    qed
    from Suc.prems have dn: "d - Suc k \<le> n" by simp
    have "(direct_path_loop n (node_at d 0) (node_at (Suc k) (q div 2)) :: ('e, _) outcome) =
        Ok (map (\<lambda>j. inner_at j (q div 2 div 2 ^ (j - Suc k))) [Suc (Suc k)..<Suc d])"
      by (rule Suc.IH [OF t dn])
    moreover have "map (\<lambda>j. inner_at j (q div 2 div 2 ^ (j - Suc k))) [Suc (Suc k)..<Suc d] =
        map (\<lambda>j. inner_at j (q div 2 ^ (j - k))) [Suc (Suc k)..<Suc d]"
      using shift by (intro map_cong) simp_all
    moreover have "[Suc k..<Suc d] = Suc k # [Suc (Suc k)..<Suc d]"
      using kd by (simp add: upt_rec)
    ultimately show ?thesis using ne Suc.prems(1) kd t
      by (subst direct_path_loop.simps) (simp add: Let_def idx_new parent_idx inner_u32 del: upt_Suc)
  qed
qed

lemma direct_path_idx:
  assumes "in_tree d k q"
  shows "direct_path (node_idx k q) (full_size d) =
    Ok (map (\<lambda>j. inner_at j (q div 2 ^ (j - k))) [Suc k..<Suc d])"
proof -
  have d: "d \<le> 30" "d - k \<le> 32" and td: "in_tree d d 0" using assms by (auto simp: in_tree_def)
  show ?thesis
    unfolding direct_path_def root_idx [OF d(1)] idx_u32 [OF td] idx_u32 [OF assms]
    by (rule direct_path_loop_eq [OF assms d(2)])
qed

lemma direct_path_leaf:
  assumes "d \<le> 30" "i < 2 ^ d"
  shows "direct_path (Leaf i) (full_size d) = Ok (map (\<lambda>k. anc k i) [1..<Suc d])"
  using direct_path_idx [of d 0 i] assms by (simp add: in_tree_def node_idx_def anc_def)

definition lca_level :: "nat \<Rightarrow> nat \<Rightarrow> nat" where
  "lca_level i j = (LEAST m. i div 2 ^ m = j div 2 ^ m)"

lemma lca_level_same: "i div 2 ^ lca_level i j = j div 2 ^ lca_level i j"
proof -
  have "\<exists>m. i div 2 ^ m = j div 2 ^ m"
  proof
    have "i < 2 ^ (i + j)" "j < 2 ^ (i + j)"
      using less_exp [of "i + j"] by linarith+
    then show "i div 2 ^ (i + j) = j div 2 ^ (i + j)" by simp
  qed
  then show ?thesis unfolding lca_level_def by (rule LeastI_ex)
qed

lemma lca_level_zero: "lca_level x x = 0"
  unfolding lca_level_def by (rule Least_equality) simp_all

lemma lca_level_step: "x \<noteq> y \<Longrightarrow> lca_level x y = Suc (lca_level (x div 2) (y div 2))"
proof -
  assume ne: "x \<noteq> y"
  have "(LEAST m. x div 2 ^ m = y div 2 ^ m) = Suc (LEAST m. x div 2 ^ Suc m = y div 2 ^ Suc m)"
    using lca_level_same [of x y] ne by (intro Least_Suc) auto
  then show ?thesis by (simp add: lca_level_def div_mult2_eq)
qed

lemma lca_loop_eq: "lca_loop x y k = (x div 2 ^ lca_level x y, k + lca_level x y)"
proof (induction x y k rule: lca_loop.induct)
  case (1 x y k)
  show ?case
  proof (cases "x = y")
    case True
    then show ?thesis by (subst lca_loop.simps) (simp add: lca_level_zero)
  next
    case False
    with 1 show ?thesis by (subst lca_loop.simps) (simp add: lca_level_step div_mult2_eq)
  qed
qed

lemma lca_level_div: "i div 2 ^ m = j div 2 ^ m \<longleftrightarrow> lca_level i j \<le> m"
proof
  assume "i div 2 ^ m = j div 2 ^ m"
  then show "lca_level i j \<le> m" unfolding lca_level_def by (rule Least_le)
next
  assume "lca_level i j \<le> m"
  then have split: "(2 :: nat) ^ m = 2 ^ lca_level i j * 2 ^ (m - lca_level i j)"
    by (simp flip: power_add)
  show "i div 2 ^ m = j div 2 ^ m"
    unfolding split div_mult2_eq by (subst lca_level_same) (rule refl)
qed

lemma lca_idx:
  assumes "i < 2 ^ d" "j < 2 ^ d" "d \<le> 30" "i \<noteq> j"
  shows "lowest_common_ancestor i j = anc (lca_level i j) i"
    and "0 < lca_level i j" and "lca_level i j \<le> d"
proof -
  let ?m = "lca_level i j"
  have b: "i < 2 ^ 30" "j < 2 ^ 30" using assms two_pow_Suc_le [of d] by linarith+
  show pos: "0 < ?m" using lca_level_div [of i 0 j] assms(4) by (cases ?m) auto
  show le: "?m \<le> d" using assms(1,2) lca_level_div [of i d j] by simp
  have t: "in_tree d ?m (i div 2 ^ ?m)"
    using assms le by (auto simp: in_tree_def less_mult_imp_div_less simp flip: power_add)
  have x: "leaf_to_tree_index i = 2 * i" "leaf_to_tree_index j = 2 * j"
    using b by (simp_all add: leaf_to_tree_index_def)
  have lev: "level (2 * i) = 0" "level (2 * j) = 0" by (simp_all add: level_def and_one_eq)
  have step: "lca_level (2 * i) (2 * j) = Suc ?m" using assms(4) by (subst lca_level_step) auto
  have pow: "(2 :: nat) ^ ?m * 2 \<le> 2 ^ 31"
    using power_increasing [of "Suc ?m" 31 "2 :: nat"] le assms(3) by simp
  have shl: "u32_shl (i div 2 ^ ?m) (Suc ?m) = i div 2 ^ ?m * 2 ^ Suc ?m"
  proof (rule u32_shl_no_overflow)
    show "Suc ?m < 32" using le assms(3) by simp
    have "i div 2 ^ ?m * 2 ^ Suc ?m \<le> Suc (node_at ?m (i div 2 ^ ?m))"
      unfolding Suc_node_at by (rule le_add1)
    also have "\<dots> < 2 ^ 32" using node_at_u32 [OF t] by simp
    finally show "i div 2 ^ ?m * 2 ^ Suc ?m < 2 ^ 32" .
  qed
  have "u32_sub (u32_add (u32_shl (i div 2 ^ ?m) (Suc ?m)) (u32_shl (Suc 0) ?m)) (Suc 0) =
      node_at ?m (i div 2 ^ ?m)"
    using node_at_u32 [OF t] le assms(3)
    by (simp add: shl u32_shl_one Suc_node_at [symmetric] del: power_Suc)
  moreover have "u32_shr (2 * i) 1 = i" "u32_shr (2 * j) 1 = j" by (simp_all add: u32_shr_eq)
  ultimately show "lowest_common_ancestor i j = anc ?m i"
    using assms(4) pos t
    by (simp add: lowest_common_ancestor_def x lev lca_loop_eq step Let_def anc_def inner_from)
qed

section \<open>All nodes of a tree\<close>

lemma node_at_double: "Suc (2 * node_at k q) = node_at (Suc k) q"
proof -
  have "Suc (Suc (2 * node_at k q)) = 2 * Suc (node_at k q)" by simp
  also have "\<dots> = Suc (node_at (Suc k) q)" unfolding Suc_node_at by simp
  finally show ?thesis by simp
qed

lemma node_at_cover: "x < 2 ^ Suc d - 1 \<Longrightarrow> \<exists>k q. k \<le> d \<and> q < 2 ^ (d - k) \<and> x = node_at k q"
proof (induction d arbitrary: x)
  case 0
  then show ?case by (intro exI [of _ 0]) (simp add: node_at_leaf)
next
  case (Suc d)
  show ?case
  proof (cases "even x")
    case True
    then obtain y where "x = 2 * y" by (rule evenE)
    with Suc.prems show ?thesis by (intro exI [of _ 0] exI [of _ y]) (simp add: node_at_leaf)
  next
    case False
    then obtain y where y: "x = 2 * y + 1" by (rule oddE)
    with Suc.prems have "y < 2 ^ Suc d - 1" by simp
    then obtain k q where "k \<le> d" "q < 2 ^ (d - k)" "y = node_at k q" using Suc.IH by blast
    with y show ?thesis by (intro exI [of _ "Suc k"] exI [of _ q]) (simp add: node_at_double)
  qed
qed

lemma inner_at_cover:
  assumes "d \<le> 30" "i < 2 ^ d - 1"
  obtains k q where "in_tree d (Suc k) q" "i = inner_at (Suc k) q"
proof -
  from assms have "2 * i + 1 < 2 ^ Suc d - 1" by simp
  then obtain k q where kq: "k \<le> d" "q < 2 ^ (d - k)" "2 * i + 1 = node_at k q"
    using node_at_cover by blast
  have "odd (node_at k q)" unfolding kq(3) [symmetric] by simp
  then have "0 < k" by simp
  then obtain m where m: "k = Suc m" by (cases k) auto
  with kq have "i = inner_at (Suc m) q" using node_at_inner [of "Suc m" q] by simp
  moreover have "in_tree d (Suc m) q" using kq assms m by (simp add: in_tree_def)
  ultimately show ?thesis using that by blast
qed

lemma inner_at_less: "in_tree d k q \<Longrightarrow> 0 < k \<Longrightarrow> inner_at k q < 2 ^ d - Suc 0"
proof -
  assume t: "in_tree d k q" and k: "0 < k"
  have "2 * inner_at k q + 1 + 2 ^ k < 2 * 2 ^ d"
    using node_at_less [OF t] node_at_inner [OF k, of q] by simp
  moreover have "(2 :: nat) \<le> 2 ^ k" using k power_increasing [of 1 k "2 :: nat"] by simp
  ultimately show ?thesis by linarith
qed

lemma node_at_full: "in_tree d k q \<Longrightarrow> node_at k q < full_size d"
  using node_at_less [of d k q] zero_less_power [of "2 :: nat" k] unfolding full_size_def power_Suc by linarith

lemma inner_at_inj:
  "in_tree d k q \<Longrightarrow> in_tree d' k' q' \<Longrightarrow> 0 < k \<Longrightarrow> 0 < k' \<Longrightarrow>
    inner_at k q = inner_at k' q' \<longleftrightarrow> k = k' \<and> q = q'"
  using level_idx_inj [of d k q d' k' q'] by (auto simp: node_at_inner)

lemma node_idx_inj:
  "in_tree d k q \<Longrightarrow> in_tree d' k' q' \<Longrightarrow> node_idx k q = node_idx k' q' \<longleftrightarrow> k = k' \<and> q = q'"
  by (auto simp: node_idx_def inner_at_inj)

lemma anc_inj:
  "d \<le> 30 \<Longrightarrow> i < 2 ^ d \<Longrightarrow> j < 2 ^ d \<Longrightarrow> 0 < k \<Longrightarrow> k \<le> d \<Longrightarrow> 0 < k' \<Longrightarrow> k' \<le> d \<Longrightarrow>
    anc k i = anc k' j \<longleftrightarrow> k = k' \<and> i div 2 ^ k = j div 2 ^ k"
  by (auto simp: anc_def inner_at_inj [OF in_tree_anc in_tree_anc])

lemma anc_less: "d \<le> 30 \<Longrightarrow> i < 2 ^ d \<Longrightarrow> 0 < k \<Longrightarrow> k \<le> d \<Longrightarrow> anc k i < 2 ^ d - Suc 0"
  by (simp add: anc_def inner_at_less in_tree_anc)

lemma Inner_anc: "0 < k \<Longrightarrow> Inner (anc k i) = node_idx k (i div 2 ^ k)"
  by (simp add: node_idx_def anc_def)

lemma parent_leaf: "d \<le> 30 \<Longrightarrow> i < 2 ^ d \<Longrightarrow> 0 < d \<Longrightarrow> parent (Leaf i) = anc 1 i"
  using parent_idx [of d 0 i] by (simp add: in_tree_def node_idx_def anc_def)

lemma parent_anc: "d \<le> 30 \<Longrightarrow> i < 2 ^ d \<Longrightarrow> 0 < k \<Longrightarrow> k < d \<Longrightarrow> parent (Inner (anc k i)) = anc (Suc k) i"
  using parent_idx [OF in_tree_anc, of d i k]
  by (simp add: Inner_anc) (simp add: anc_def div_mult2_eq mult.commute flip: div_mult2_eq)

lemma root_anc: "0 < d \<Longrightarrow> d \<le> 30 \<Longrightarrow> i < 2 ^ d \<Longrightarrow> root (full_size d) = Inner (anc d i)"
  by (simp add: root_idx Inner_anc)

section \<open>Navigation contract\<close>

interpretation bee: tree_nav node_idx "\<lambda>n. Inner (parent n)"
  "\<lambda>n. case n of Inner i \<Rightarrow> left i | Leaf l \<Rightarrow> Leaf l"
  "\<lambda>n. case n of Inner i \<Rightarrow> right i | Leaf l \<Rightarrow> Leaf l"
  sibling "\<lambda>d. root (full_size d)"
  by unfold_locales
    (simp_all add: node_idx_inj parent_idx left_idx right_idx sibling_idx root_idx)

section \<open>Properties\<close>

text \<open>
  C33 Converting an index to a \<open>TreeNodeIndex\<close> and back gives the index, and a node of a
  tree with at most \<open>2 ^ 30\<close> leaves survives the trip through \<open>u32\<close>.
\<close>

theorem tree_node_index_roundtrip:
  assumes "x < 2 ^ 32" "l < 2 ^ 31" "n < 2 ^ 31"
  shows "tree_node_index_u32 (tree_node_index_new x) = x \<and>
    tree_node_index_new (tree_node_index_u32 (Leaf l)) = Leaf l \<and>
    tree_node_index_new (tree_node_index_u32 (Inner n)) = Inner n"
proof (intro conjI)
  show "tree_node_index_u32 (tree_node_index_new x) = x"
  proof (cases "even x")
    case True
    then obtain y where "x = 2 * y" by (rule evenE)
    with assms(1) show ?thesis
      by (simp add: tree_node_index_new_def leaf_to_tree_index_def leaf_from_tree_index_def)
  next
    case False
    then obtain y where "x = 2 * y + 1" by (rule oddE)
    with assms(1) show ?thesis
      by (simp add: tree_node_index_new_def inner_to_tree_index_def inner_from_tree_index_def)
  qed
  show "tree_node_index_new (tree_node_index_u32 (Leaf l)) = Leaf l"
    using assms(2) by (simp add: tree_node_index_new_def leaf_to_tree_index_def leaf_from_tree_index_def)
  have "Suc (n * 2) mod 2 = Suc 0" by presburger
  then show "tree_node_index_new (tree_node_index_u32 (Inner n)) = Inner n"
    using assms(3)
    by (simp add: tree_node_index_new_def inner_to_tree_index_def inner_from_tree_index_def)
qed

theorem tree_node_index_roundtrip_witness:
  "tree_node_index_u32 (tree_node_index_new 4294967295) = 4294967295 \<and>
   tree_node_index_new (tree_node_index_u32 (Leaf 5)) = Leaf 5"
  using tree_node_index_roundtrip [of 4294967295 5 0] by simp

text \<open>
  C19 Every inner node \<open>i\<close> of a tree of depth \<open>d\<close> is the parent of both of its children, the
  two children are siblings of each other, both lie one level below \<open>i\<close>, and both are
  nodes of the tree.
\<close>

theorem children_of_inner_node:
  assumes "d \<le> 30" "i < inner_node_count (full_size d)"
  shows "parent (left i) = i \<and> parent (right i) = i \<and>
    sibling (left i) = right i \<and> sibling (right i) = left i \<and> left i \<noteq> right i \<and>
    is_node_in_tree (left i) (full_size d) \<and> is_node_in_tree (right i) (full_size d) \<and>
    Suc (level (tree_node_index_u32 (left i))) = level (inner_to_tree_index i) \<and>
    Suc (level (tree_node_index_u32 (right i))) = level (inner_to_tree_index i)"
proof -
  obtain k q where t: "in_tree d (Suc k) q" and i: "i = inner_at (Suc k) q"
    using inner_at_cover [of d i] assms by (auto simp: inner_count_full)
  have l: "in_tree d k (2 * q)" and r: "in_tree d k (Suc (2 * q))" and k: "k < d" "k < 30"
    using in_tree_child [OF t, of 0] in_tree_child [OF t, of 1] t by (auto simp: in_tree_def)
  have le: "node_at k (2 * q) < full_size d" "node_at k (Suc (2 * q)) < full_size d"
    using node_at_full l r by blast+
  show ?thesis
    using l r k t le
    by (simp add: i left_idx [OF t] right_idx [OF t] parent_idx [OF l] parent_idx [OF r]
        sibling_idx [OF l] sibling_idx [OF r] node_idx_inj [OF l r] is_node_in_tree_def
        idx_u32 [OF l] idx_u32 [OF r] inner_u32 [OF t] level_node_at)
qed

theorem children_of_inner_node_witness:
  "parent (left 1) = 1 \<and> sibling (left 1) = right 1"
  using children_of_inner_node [of 3 1] by (simp add: inner_count_full)


text \<open>
  C17 The direct path of a leaf ends: it is the list of its ancestors, one per level, from the
  parent of the leaf to the root, each the parent of the one before it, and all of them
  are inner nodes of the tree.
\<close>

theorem direct_path_climbs_to_root:
  assumes "0 < d" "d \<le> 30" "i < leaf_count (full_size d)"
  shows "\<exists>p. direct_path (Leaf i) (full_size d) = (Ok p :: ('e, _) outcome) \<and> length p = d \<and>
    hd p = parent (Leaf i) \<and> root (full_size d) = Inner (last p) \<and>
    (\<forall>n < d - 1. p ! Suc n = parent (Inner (p ! n))) \<and>
    list_all (\<lambda>n. n < inner_node_count (full_size d)) p \<and> distinct p"
proof -
  have i: "i < 2 ^ d" using assms by (simp add: leaf_count_full)
  let ?p = "map (\<lambda>k. anc k i) [1..<Suc d]"
  have "direct_path (Leaf i) (full_size d) = (Ok ?p :: ('e, _) outcome)"
    using direct_path_leaf [of d i] assms i by simp
  moreover have "hd ?p = parent (Leaf i)" using assms i by (simp add: hd_map hd_upt parent_leaf del: upt_Suc)
  moreover have "root (full_size d) = Inner (last ?p)" using root_anc assms i by (simp add: last_map)
  moreover have "\<forall>n < d - 1. ?p ! Suc n = parent (Inner (?p ! n))"
    using assms i by (auto simp: nth_append parent_anc simp del: upt_Suc)
  moreover have "list_all (\<lambda>n. n < inner_node_count (full_size d)) ?p"
    using assms i by (auto simp: list_all_iff inner_count_full anc_less)
  moreover have "distinct ?p"
    using assms i anc_inj [of d i i] by (auto simp: distinct_map inj_on_def)
  ultimately show ?thesis by (intro exI [of _ ?p]) simp
qed

theorem direct_path_climbs_to_root_witness:
  "\<exists>p. direct_path (Leaf 5) (full_size 3) = (Ok p :: (unit, _) outcome) \<and> length p = 3 \<and>
    root (full_size 3) = Inner (last p)"
  using direct_path_climbs_to_root [of 3 5, where 'e = unit] by (auto simp: leaf_count_full)

text \<open>
  C20 The lowest common ancestor of two different leaves is on both direct paths, and below it
  the two paths have no node in common.
\<close>

theorem lca_is_lowest_common:
  assumes "d \<le> 30" "i < leaf_count (full_size d)" "j < leaf_count (full_size d)" "i \<noteq> j"
  shows "\<exists>p q a. direct_path (Leaf i) (full_size d) = (Ok p :: ('e, _) outcome) \<and>
    direct_path (Leaf j) (full_size d) = (Ok q :: ('e, _) outcome) \<and>
    lowest_common_ancestor i j = a \<and> a \<in> set p \<and> a \<in> set q \<and>
    set (takeWhile (\<lambda>n. n \<noteq> a) p) \<inter> set q = {}"
proof -
  have ij: "i < 2 ^ d" "j < 2 ^ d" using assms by (simp_all add: leaf_count_full)
  then have d: "0 < d" using assms(4) by (cases d) auto
  let ?P = "\<lambda>i. map (\<lambda>k. anc k i) [1..<Suc d]"
  let ?l = "lca_level i j"
  have l: "0 < ?l" "?l \<le> d" and lca: "lowest_common_ancestor i j = anc ?l i"
    using lca_idx [OF ij assms(1,4)] by auto
  have dp: "direct_path (Leaf x) (full_size d) = (Ok (?P x) :: ('e, _) outcome)" if "x < 2 ^ d" for x
    using direct_path_leaf [of d x] that d assms(1) by simp
  have split: "[1..<Suc d] = [1..<?l] @ ?l # [Suc ?l..<Suc d]"
    using l upt_add_eq_append [of 1 ?l "Suc d - ?l"] upt_conv_Cons [of ?l "Suc d"] by simp
  have same: "anc ?l i = anc ?l j" unfolding anc_def using lca_level_same [of i j] by simp
  have mem: "anc ?l x \<in> set (?P x)" for x using l by (auto simp del: upt_Suc)
  have "takeWhile (\<lambda>n. n \<noteq> anc ?l i) (?P i) = takeWhile (\<lambda>n. n \<noteq> anc ?l i) (map (\<lambda>k. anc k i) [1..<?l])"
    unfolding split by (simp add: takeWhile_tail)
  then have below: "set (takeWhile (\<lambda>n. n \<noteq> anc ?l i) (?P i)) \<subseteq> (\<lambda>k. anc k i) ` {1..<?l}"
    by (auto dest: set_takeWhileD)
  have "(\<lambda>k. anc k i) ` {1..<?l} \<inter> set (?P j) = {}"
    using l assms(1) ij lca_level_div [of i _ j] by (auto simp: anc_inj [of d i j] simp del: upt_Suc)
  with below have "set (takeWhile (\<lambda>n. n \<noteq> anc ?l i) (?P i)) \<inter> set (?P j) = {}" by blast
  then show ?thesis using dp [OF ij(1)] dp [OF ij(2)] lca mem [of i] mem [of j] same by metis
qed

theorem lca_is_lowest_common_witness:
  "\<exists>p q a. direct_path (Leaf 2) (full_size 3) = (Ok p :: (unit, _) outcome) \<and>
    direct_path (Leaf 5) (full_size 3) = (Ok q :: (unit, _) outcome) \<and>
    lowest_common_ancestor 2 5 = a \<and> a \<in> set p \<and> a \<in> set q"
  using lca_is_lowest_common [of 3 2 5, where 'e = unit] by (auto simp: leaf_count_full)

text \<open>
  C21 The tree size computed for \<open>n\<close> leaves has room for a leaf with index \<open>n\<close>, and for at
  least one leaf but no more than \<open>2 * n\<close>.
\<close>

theorem from_leaf_count_capacity:
  assumes "n < 2 ^ 30"
  shows "\<exists>d \<le> 30. from_leaf_count n = full_size d \<and> n < leaf_count (from_leaf_count n) \<and>
    leaf_count (from_leaf_count n) \<le> max 1 (2 * n)"
proof (cases "n = 0")
  case True
  then show ?thesis by (intro exI [of _ 0]) (simp add: from_leaf_count_zero leaf_count_full)
next
  case False
  have "n < 2 ^ 31" using assms by simp
  then have b: "2 ^ log2 n \<le> n" "n < 2 ^ Suc (log2 n)" using log2_bounds [of n] False by simp_all
  have "log2 n < 30"
    using b(1) assms power_less_imp_less_exp [of "2 :: nat" "log2 n" 30] by linarith
  with False b assms show ?thesis
    by (intro exI [of _ "Suc (log2 n)"]) (simp add: from_leaf_count_full leaf_count_full)
qed

theorem from_leaf_count_capacity_witness:
  "5 < leaf_count (from_leaf_count 5) \<and> leaf_count (from_leaf_count 5) \<le> 10"
  using from_leaf_count_capacity [of 5] by auto

end
