(* ===== verification/Secret_Store.thy ===== *)
theory Secret_Store
  imports Keys Tree_Math
begin

text \<open>
  The secret store of an inner tree node (\<open>beekem/src/secret_store.rs\<close>): one version per
  concurrently written key pair of the node. A version holds the node's new secret,
  encrypted for the nodes that may read it and indexed by their tree index.
\<close>

section \<open>Model\<close>

record secret_store_version =
  ssv_pk :: share_key
  ssv_sk :: "tree_node_index \<rightharpoonup> encrypted_secret"
  ssv_encrypter_pk :: share_key

record secret_store =
  ss_versions :: "secret_store_version list"

definition secret_store_new ::
    "share_key \<Rightarrow> share_key \<Rightarrow> (tree_node_index \<rightharpoonup> encrypted_secret) \<Rightarrow> secret_store" where
  "secret_store_new pk encrypter_pk sk =
     \<lparr> ss_versions = [\<lparr> ssv_pk = pk, ssv_sk = sk, ssv_encrypter_pk = encrypter_pk \<rparr>] \<rparr>"

definition has_conflict :: "secret_store \<Rightarrow> bool" where
  "has_conflict s \<longleftrightarrow> length (ss_versions s) > 1"

definition store_node_key :: "secret_store \<Rightarrow> ('e, node_key) outcome" where
  "store_node_key s =
     (if length (ss_versions s) = 1 then Ok (ShareKey (ssv_pk (ss_versions s ! 0)))
      else node_key_of_slice (map ssv_pk (ss_versions s)))"

text \<open>The index looked up: the last one seen, else the latest seen before with an entry.\<close>

definition lookup_idx ::
    "(tree_node_index \<rightharpoonup> encrypted_secret) \<Rightarrow> tree_node_index list \<Rightarrow>
     (cgka_error, tree_node_index) outcome" where
  "lookup_idx sk seen_idxs =
     (if seen_idxs = [] then Err EncryptedSecretNotFound
      else if sk (last seen_idxs) \<noteq> None then Ok (last seen_idxs)
      else ok_or EncryptedSecretNotFound (find (\<lambda>idx. sk idx \<noteq> None) (drop 1 (rev seen_idxs))))"

definition version_decrypt_secret ::
    "('r, 'm) crypto_scheme \<Rightarrow> secret_store_version \<Rightarrow> node_key \<Rightarrow> share_key_map \<Rightarrow>
     tree_node_index list \<Rightarrow> (cgka_error, share_secret_key) outcome" where
  "version_decrypt_secret C v child_node_key child_sks seen_idxs =
     (let is_encrypter = node_key_contains child_node_key (ssv_encrypter_pk v) in
      and_then (lookup_idx (ssv_sk v) seen_idxs) (\<lambda>idx.
      and_then (ok_or EncryptedSecretNotFound (ssv_sk v idx)) (\<lambda>encrypted.
      and_then
        (if is_encrypter then
           and_then (ok_or SecretKeyNotFound (child_sks (ssv_encrypter_pk v))) (\<lambda>secret_key.
             ok_or Decryption (try_encrypter_decrypt C encrypted secret_key))
         else try_decrypt_encryption C child_sks (ssv_encrypter_pk v) encrypted) (\<lambda>decrypted.
      if length decrypted = 32 then Ok (ShareSecretKey decrypted) else Err Conversion))))"

definition store_decrypt_secret ::
    "('r, 'm) crypto_scheme \<Rightarrow> secret_store \<Rightarrow> node_key \<Rightarrow> share_key_map \<Rightarrow>
     tree_node_index list \<Rightarrow> (cgka_error, share_secret_key) outcome" where
  "store_decrypt_secret C s child_node_key child_sks seen_idxs =
     (if has_conflict s then Err UnexpectedKeyConflict
      else and_then (vec_get (ss_versions s) 0) (\<lambda>v.
        version_decrypt_secret C v child_node_key child_sks seen_idxs))"

definition remove_keys_from :: "share_key set \<Rightarrow> secret_store \<Rightarrow> secret_store" where
  "remove_keys_from removed_keys s =
     (if removed_keys = {} then s
      else s\<lparr> ss_versions := filter (\<lambda>v. ssv_pk v \<notin> removed_keys) (ss_versions s) \<rparr>)"

definition store_merge :: "secret_store \<Rightarrow> secret_store \<Rightarrow> share_key set \<Rightarrow> secret_store" where
  "store_merge self other removed_keys =
     (let s = remove_keys_from removed_keys self in
      s\<lparr> ss_versions := ss_versions s @ ss_versions other \<rparr>)"

section \<open>Lemmas\<close>

lemma store_merge_versions [simp]:
  "ss_versions (store_merge s other removed) =
     filter (\<lambda>v. ssv_pk v \<notin> removed) (ss_versions s) @ ss_versions other"
  by (simp add: store_merge_def remove_keys_from_def Let_def)

lemma store_new_versions [simp]:
  "ss_versions (secret_store_new pk epk sk) = [\<lparr> ssv_pk = pk, ssv_sk = sk, ssv_encrypter_pk = epk \<rparr>]"
  by (simp add: secret_store_new_def)

lemma store_new_no_conflict [simp]: "\<not> has_conflict (secret_store_new pk epk sk)"
  by (simp add: has_conflict_def)

text \<open>The \<open>unreachable!\<close> of \<open>node_key\<close> is reached exactly by a store with no version.\<close>

lemma store_node_key_slice: "store_node_key s = node_key_of_slice (map ssv_pk (ss_versions s))"
  by (cases "ss_versions s" rule: remdups_adj.cases) (simp_all add: store_node_key_def)

lemma store_node_key_Ok:
  "store_node_key s = Ok k \<longleftrightarrow> node_key_keys k = map ssv_pk (ss_versions s)"
  by (simp add: store_node_key_slice node_key_of_slice_Ok)

lemma store_node_key_nonempty:
  assumes "ss_versions s \<noteq> []"
  obtains k where "store_node_key s = (Ok k :: ('e, _) outcome)" "node_key_keys k = map ssv_pk (ss_versions s)"
proof -
  from assms obtain k where "node_key_keys k = map ssv_pk (ss_versions s)"
    using node_key_of_slice_nonempty [of "map ssv_pk (ss_versions s)"] by auto
  then show ?thesis using that store_node_key_Ok [of s k] by blast
qed

lemma store_node_key_single:
  "ss_versions s = [v] \<Longrightarrow> store_node_key s = Ok (ShareKey (ssv_pk v))"
  by (simp add: store_node_key_def)

lemma decrypt_as_encrypter:
  assumes "crypto_laws C" "seen \<noteq> []" "ssv_sk v (last seen) = Some es"
    and "encrypt_secret C doc secret sk pk = Ok es" "length (secret_bytes secret) = 32"
    and "node_key_contains child (ssv_encrypter_pk v)" "sks (ssv_encrypter_pk v) = Some sk"
  shows "version_decrypt_secret C v child sks seen = Ok secret"
proof -
  obtain es' where "encrypt_secret C doc secret sk pk = Ok es'" "es_paired_pk es' = pk"
    and "sym_try_decrypt C (derive_symmetric_key C sk pk) (es_nonce es') (es_ciphertext es') =
      Some (secret_bytes secret)"
    by (rule encrypt_secret_short [OF assms(1,5)])
  with assms show ?thesis
    by (cases secret)
      (simp add: version_decrypt_secret_def lookup_idx_def try_encrypter_decrypt_def)
qed

lemma decrypt_as_partner:
  assumes "crypto_laws C" "seen \<noteq> []" "ssv_sk v (last seen) = Some es"
    and "encrypt_secret C doc secret sk (share_key C partner) = Ok es"
    and "length (secret_bytes secret) = 32" "ssv_encrypter_pk v = share_key C sk"
    and "\<not> node_key_contains child (ssv_encrypter_pk v)" "sks (share_key C partner) = Some partner"
  shows "version_decrypt_secret C v child sks seen = Ok secret"
proof -
  obtain es' where "encrypt_secret C doc secret sk (share_key C partner) = Ok es'"
      "es_paired_pk es' = share_key C partner"
    and "sym_try_decrypt C (derive_symmetric_key C sk (share_key C partner)) (es_nonce es')
      (es_ciphertext es') = Some (secret_bytes secret)"
    by (rule encrypt_secret_short [OF assms(1,5)])
  with assms derive_symmetric_key_agree [OF assms(1), of partner sk] show ?thesis
    by (cases secret)
      (simp add: version_decrypt_secret_def lookup_idx_def try_decrypt_encryption_def)
qed

section \<open>Properties\<close>



text \<open>
  C34 The comment on the field \<open>versions\<close> states that the public keys are in lexicographic
  order. \<open>merge\<close> appends, so two stores with one version each merge into an unsorted one
  whenever the second key is smaller.
\<close>

theorem store_merge_not_sorted:
  "b < a \<Longrightarrow> \<not> sorted (map ssv_pk (ss_versions (store_merge (secret_store_new a ea ska)
     (secret_store_new b eb skb) {})))"
  by simp

theorem store_merge_not_sorted_witness:
  "\<not> sorted (map ssv_pk (ss_versions (store_merge (secret_store_new (PublicKey [2]) (PublicKey [9]) Map.empty)
     (secret_store_new (PublicKey [1]) (PublicKey [9]) Map.empty) {})))"
  by (rule store_merge_not_sorted) (simp add: less_share_key_def)

end
