(* ===== verification/Pcs_Key.thy ===== *)
theory Pcs_Key
  imports Keys
begin

text \<open>
  PCS keys and application secrets (\<open>beekem/src/pcs_key.rs\<close>) and encrypted content
  (\<open>EncryptedContent\<close> in \<open>encrypted.rs\<close>). The \<open>bincode\<close> serialiser is a third-party crate:
  its encodings of the three hashed types are the fields of the record \<open>bincode\<close>.
\<close>

section \<open>Model\<close>

datatype pcs_key = PcsKey share_secret_key

primrec pcs_secret :: "pcs_key \<Rightarrow> share_secret_key" where
  "pcs_secret (PcsKey sk) = sk"

record 'cr bincode =
  ser_secret :: "share_secret_key \<Rightarrow> bytes"
  ser_pcs_key :: "pcs_key \<Rightarrow> bytes"
  ser_content_ref :: "'cr \<Rightarrow> bytes"

record 'cr encrypted_content =
  ec_nonce :: siv
  ec_ciphertext :: bytes
  ec_pcs_key_hash :: digest
  ec_pcs_update_op_hash :: digest
  ec_content_ref :: 'cr
  ec_pred_refs :: digest

definition encrypted_content_new ::
    "siv \<Rightarrow> bytes \<Rightarrow> digest \<Rightarrow> digest \<Rightarrow> 'cr \<Rightarrow> digest \<Rightarrow> 'cr encrypted_content" where
  "encrypted_content_new nonce ciphertext pcs_key_hash pcs_update_op_hash content_ref pred_refs =
     \<lparr> ec_nonce = nonce, ec_ciphertext = ciphertext, ec_pcs_key_hash = pcs_key_hash,
       ec_pcs_update_op_hash = pcs_update_op_hash, ec_content_ref = content_ref,
       ec_pred_refs = pred_refs \<rparr>"

definition content_try_decrypt ::
    "('r, 'm) crypto_scheme \<Rightarrow> 'cr encrypted_content \<Rightarrow> symmetric_key \<Rightarrow> bytes option" where
  "content_try_decrypt C ec key = sym_try_decrypt C key (ec_nonce ec) (ec_ciphertext ec)"

record 'cr application_secret =
  as_key :: symmetric_key
  as_pcs_key_hash :: digest
  as_pcs_update_op_hash :: digest
  as_nonce :: siv
  as_content_ref :: 'cr
  as_pred_refs :: digest

definition application_secret_new ::
    "symmetric_key \<Rightarrow> digest \<Rightarrow> digest \<Rightarrow> siv \<Rightarrow> 'cr \<Rightarrow> digest \<Rightarrow> 'cr application_secret" where
  "application_secret_new key pcs_key_hash pcs_update_op_hash nonce content_ref pred_refs =
     \<lparr> as_key = key, as_pcs_key_hash = pcs_key_hash, as_pcs_update_op_hash = pcs_update_op_hash,
       as_nonce = nonce, as_content_ref = content_ref, as_pred_refs = pred_refs \<rparr>"

definition app_try_encrypt ::
    "('r, 'm) crypto_scheme \<Rightarrow> 'cr application_secret \<Rightarrow> bytes \<Rightarrow> 'cr encrypted_content option" where
  "app_try_encrypt C s plaintext =
     map_option (\<lambda>ciphertext. encrypted_content_new (as_nonce s) ciphertext (as_pcs_key_hash s)
         (as_pcs_update_op_hash s) (as_content_ref s) (as_pred_refs s))
       (sym_try_encrypt C (as_key s) (as_nonce s) plaintext)"

definition static_context :: string where
  "static_context = ''/keyhive/beekem/app_secret/''"

definition derive_application_secret ::
    "('r, 'm) crypto_scheme \<Rightarrow> 'cr bincode \<Rightarrow> pcs_key \<Rightarrow> siv \<Rightarrow> 'cr \<Rightarrow> digest \<Rightarrow> digest \<Rightarrow>
     'cr application_secret" where
  "derive_application_secret C B pcs nonce content_ref pred_refs pcs_update_op_hash =
     (let pcs_hash = digest_hash C (ser_secret B (pcs_secret pcs));
          display_ref = digest_hash C (ser_content_ref B content_ref);
          app_secret_context = map of_char
            (''epoch:'' @ digest_display C pcs_hash @ ''/pred:'' @ digest_display C pred_refs @
             ''/content:'' @ digest_display C display_ref);
          key_material = secret_bytes (pcs_secret pcs) @ app_secret_context;
          app_secret_bytes = blake3_derive_key C static_context key_material;
          symmetric_key = SymmetricKey (derive_from_bytes C app_secret_bytes) in
      application_secret_new symmetric_key (digest_hash C (ser_pcs_key B pcs)) pcs_update_op_hash
        nonce content_ref pred_refs)"

definition pcs_to_symmetric_key :: "('r, 'm) crypto_scheme \<Rightarrow> pcs_key \<Rightarrow> symmetric_key" where
  "pcs_to_symmetric_key C pcs = SymmetricKey (derive_from_bytes C (secret_bytes (pcs_secret pcs)))"

lemma content_roundtrip:
  assumes "crypto_laws C"
    and "app_try_encrypt C (derive_application_secret C B pcs nonce ref preds op_hash) plaintext = Some ec"
  shows "content_try_decrypt C ec (as_key (derive_application_secret C B pcs any_nonce
      (ec_content_ref ec) (ec_pred_refs ec) (ec_pcs_update_op_hash ec))) = Some plaintext \<and>
    ec_pcs_key_hash ec = digest_hash C (ser_pcs_key B pcs) \<and> ec_pcs_update_op_hash ec = op_hash"
  using assms sym_decrypt_encrypt [OF assms(1)]
  by (auto simp: app_try_encrypt_def encrypted_content_new_def derive_application_secret_def
      application_secret_new_def content_try_decrypt_def Let_def)

section \<open>Properties\<close>

text \<open>
  C16 Content encrypted under an application secret is decrypted by every holder of the PCS
  key: the key derived again from the metadata in the encrypted content, with any nonce,
  recovers the plaintext, and the content names the hash of that PCS key.
\<close>

theorem application_secret_roundtrip:
  assumes "crypto_laws C"
    and "app_try_encrypt C (derive_application_secret C B pcs nonce ref preds op_hash) plaintext = Some ec"
  shows "content_try_decrypt C ec (as_key (derive_application_secret C B pcs any_nonce
      (ec_content_ref ec) (ec_pred_refs ec) (ec_pcs_update_op_hash ec))) = Some plaintext \<and>
    ec_pcs_key_hash ec = digest_hash C (ser_pcs_key B pcs) \<and> ec_pcs_update_op_hash ec = op_hash"
  by (rule content_roundtrip [OF assms])

definition demo_bincode :: "nat bincode" where
  "demo_bincode = \<lparr> ser_secret = secret_bytes, ser_pcs_key = (\<lambda>k. secret_bytes (pcs_secret k)),
     ser_content_ref = (\<lambda>n. [of_nat n]) \<rparr>"

theorem application_secret_roundtrip_witness:
  "\<exists>ec. app_try_encrypt demo_crypto (derive_application_secret demo_crypto demo_bincode
        (PcsKey (ShareSecretKey (replicate 32 3))) (Siv []) 5 (Digest []) (Digest [])) [1, 2, 3] = Some ec \<and>
     content_try_decrypt demo_crypto ec (as_key (derive_application_secret demo_crypto demo_bincode
        (PcsKey (ShareSecretKey (replicate 32 3))) (Siv [9]) (ec_content_ref ec) (ec_pred_refs ec)
        (ec_pcs_update_op_hash ec))) = Some [1, 2, 3]"
proof -
  let ?s = "derive_application_secret demo_crypto demo_bincode
    (PcsKey (ShareSecretKey (replicate 32 3))) (Siv []) 5 (Digest []) (Digest [])"
  obtain ct where "sym_try_encrypt demo_crypto (as_key ?s) (as_nonce ?s) [1, 2, 3] = Some ct"
    by (rule sym_encrypt_short [OF demo_crypto_laws, of "[1, 2, 3]"]) simp
  then obtain ec where "app_try_encrypt demo_crypto ?s [1, 2, 3] = Some ec"
    by (simp add: app_try_encrypt_def)
  then show ?thesis
    using application_secret_roundtrip [OF demo_crypto_laws, of demo_bincode _ _ _ _ _ "[1, 2, 3]" ec "Siv [9]"]
    by blast
qed

end
