(* ===== verification/Ids.thy ===== *)
theory Ids
  imports Prelude
begin

text \<open>
  Identities (\<open>beekem/src/id.rs\<close>): a member and a tree are named by the bytes of an Ed25519
  verifying key; equality and order are those of the bytes.
\<close>

datatype member_id = MemberId bytes

primrec member_id_bytes :: "member_id \<Rightarrow> bytes" where
  "member_id_bytes (MemberId bs) = bs"

definition member_id_le :: "member_id \<Rightarrow> member_id \<Rightarrow> bool" where
  "member_id_le a b \<longleftrightarrow> member_id_bytes a \<le> member_id_bytes b"

instantiation member_id :: linorder
begin

definition less_eq_member_id :: "member_id \<Rightarrow> member_id \<Rightarrow> bool" where
  "less_eq_member_id a b \<longleftrightarrow> member_id_le a b"

definition less_member_id :: "member_id \<Rightarrow> member_id \<Rightarrow> bool" where
  "less_member_id a b \<longleftrightarrow> member_id_bytes a < member_id_bytes b"

instance
proof
  fix a b c :: member_id
  show "a < b \<longleftrightarrow> a \<le> b \<and> \<not> b \<le> a" by (auto simp: less_eq_member_id_def member_id_le_def less_member_id_def)
  show "a \<le> a" by (simp add: less_eq_member_id_def member_id_le_def)
  show "a \<le> b \<Longrightarrow> b \<le> c \<Longrightarrow> a \<le> c" by (auto simp: less_eq_member_id_def member_id_le_def)
  show "a \<le> b \<Longrightarrow> b \<le> a \<Longrightarrow> a = b" by (cases a; cases b) (auto simp: less_eq_member_id_def member_id_le_def)
  show "a \<le> b \<or> b \<le> a" by (auto simp: less_eq_member_id_def member_id_le_def)
qed

end

datatype tree_id = TreeId bytes

primrec tree_id_bytes :: "tree_id \<Rightarrow> bytes" where
  "tree_id_bytes (TreeId bs) = bs"

definition tree_id_le :: "tree_id \<Rightarrow> tree_id \<Rightarrow> bool" where
  "tree_id_le a b \<longleftrightarrow> tree_id_bytes a \<le> tree_id_bytes b"

instantiation tree_id :: linorder
begin

definition less_eq_tree_id :: "tree_id \<Rightarrow> tree_id \<Rightarrow> bool" where
  "less_eq_tree_id a b \<longleftrightarrow> tree_id_le a b"

definition less_tree_id :: "tree_id \<Rightarrow> tree_id \<Rightarrow> bool" where
  "less_tree_id a b \<longleftrightarrow> tree_id_bytes a < tree_id_bytes b"

instance
proof
  fix a b c :: tree_id
  show "a < b \<longleftrightarrow> a \<le> b \<and> \<not> b \<le> a" by (auto simp: less_eq_tree_id_def tree_id_le_def less_tree_id_def)
  show "a \<le> a" by (simp add: less_eq_tree_id_def tree_id_le_def)
  show "a \<le> b \<Longrightarrow> b \<le> c \<Longrightarrow> a \<le> c" by (auto simp: less_eq_tree_id_def tree_id_le_def)
  show "a \<le> b \<Longrightarrow> b \<le> a \<Longrightarrow> a = b" by (cases a; cases b) (auto simp: less_eq_tree_id_def tree_id_le_def)
  show "a \<le> b \<or> b \<le> a" by (auto simp: less_eq_tree_id_def tree_id_le_def)
qed

end

end
