(* ===== verification/Bee_Kem.thy ===== *)
theory Bee_Kem
  imports Secret_Store Pcs_Key Ids "HOL-Library.Product_Lexorder"
begin

text \<open>
  The BeeKEM tree (\<open>beekem/src/tree.rs\<close>): the record of the tree and one definition per
  method. An index out of range, a failed \<open>expect\<close> and \<open>panic!\<close> are \<open>Panic\<close>; the climbing
  loops take fuel 32, one more than the largest number of levels of a tree over \<open>u32\<close>
  indices, and are \<open>Hang\<close> when it is used up. \<open>debug_assert!\<close> has no effect in a release
  build and is left out.
\<close>

type_synonym 'a cgka_result = "(cgka_error, 'a) outcome"

section \<open>Data\<close>

record leaf_node =
  ln_id :: member_id
  ln_pk :: node_key

record path_change =
  pc_leaf_id :: member_id
  pc_leaf_idx :: u32
  pc_leaf_pk :: node_key
  pc_path :: "(u32 \<times> secret_store) list"
  pc_removed_keys :: "share_key list"

record beekem =
  bk_doc_id :: tree_id
  bk_next_leaf_idx :: leaf_node_index
  bk_leaves :: "leaf_node option list"
  bk_inner_nodes :: "secret_store option list"
  bk_tree_size :: tree_size
  bk_id_to_leaf_idx :: "member_id \<rightharpoonup> leaf_node_index"
  bk_current_secret_encrypter_leaf_idx :: "leaf_node_index option"

section \<open>Access to nodes\<close>

definition leaf :: "beekem \<Rightarrow> leaf_node_index \<Rightarrow> (leaf_node option) cgka_result" where
  "leaf t idx = vec_get (bk_leaves t) idx"

definition leaf_index_for_id :: "beekem \<Rightarrow> member_id \<Rightarrow> leaf_node_index cgka_result" where
  "leaf_index_for_id t mid = ok_or IdentifierNotFound (bk_id_to_leaf_idx t mid)"

definition id_for_leaf :: "beekem \<Rightarrow> leaf_node_index \<Rightarrow> member_id cgka_result" where
  "id_for_leaf t idx = and_then (leaf t idx) (\<lambda>l. map_ok ln_id (ok_or IdentifierNotFound l))"

definition inner_node :: "beekem \<Rightarrow> inner_node_index \<Rightarrow> (secret_store option) cgka_result" where
  "inner_node t idx = vec_get (bk_inner_nodes t) idx"

definition insert_leaf_at ::
    "leaf_node_index \<Rightarrow> member_id \<Rightarrow> node_key \<Rightarrow> beekem \<Rightarrow> beekem cgka_result" where
  "insert_leaf_at idx mid pk t =
     map_ok (\<lambda>ls. t\<lparr> bk_leaves := ls \<rparr>)
       (vec_set (bk_leaves t) idx (Some \<lparr> ln_id = mid, ln_pk = pk \<rparr>))"

definition insert_inner_node_at ::
    "inner_node_index \<Rightarrow> secret_store \<Rightarrow> beekem \<Rightarrow> beekem cgka_result" where
  "insert_inner_node_at idx s t =
     map_ok (\<lambda>ns. t\<lparr> bk_inner_nodes := ns \<rparr>) (vec_set (bk_inner_nodes t) idx (Some s))"

definition blank_inner_node :: "inner_node_index \<Rightarrow> beekem \<Rightarrow> beekem cgka_result" where
  "blank_inner_node idx t =
     map_ok (\<lambda>ns. t\<lparr> bk_inner_nodes := ns \<rparr>) (vec_set (bk_inner_nodes t) idx None)"

definition is_blank :: "beekem \<Rightarrow> tree_node_index \<Rightarrow> bool cgka_result" where
  "is_blank t idx = (case idx of
     Leaf l \<Rightarrow> map_ok (\<lambda>x. x = None) (leaf t l)
   | Inner p \<Rightarrow> map_ok (\<lambda>x. x = None) (inner_node t p))"

definition should_skip_for_resolution :: "beekem \<Rightarrow> tree_node_index \<Rightarrow> bool cgka_result" where
  "should_skip_for_resolution t idx = (case idx of
     Leaf _ \<Rightarrow> is_blank t idx
   | Inner i \<Rightarrow> map_ok (\<lambda>x. case x of None \<Rightarrow> True | Some n \<Rightarrow> has_conflict n) (inner_node t i))"

definition is_root :: "beekem \<Rightarrow> tree_node_index \<Rightarrow> bool" where
  "is_root t idx \<longleftrightarrow> idx = root (bk_tree_size t)"

definition node_key_for_index :: "beekem \<Rightarrow> tree_node_index \<Rightarrow> node_key cgka_result" where
  "node_key_for_index t idx = (case idx of
     Leaf l \<Rightarrow> and_then (leaf t l) (\<lambda>x. map_ok ln_pk (ok_or ShareKeyNotFound x))
   | Inner i \<Rightarrow> and_then (inner_node t i) (\<lambda>x. and_then (ok_or ShareKeyNotFound x) store_node_key))"

definition contains_id :: "beekem \<Rightarrow> member_id \<Rightarrow> bool" where
  "contains_id t mid \<longleftrightarrow> bk_id_to_leaf_idx t mid \<noteq> None"

definition node_key_for_id :: "beekem \<Rightarrow> member_id \<Rightarrow> node_key cgka_result" where
  "node_key_for_id t mid = and_then (leaf_index_for_id t mid) (\<lambda>idx. node_key_for_index t (Leaf idx))"

definition member_count :: "beekem \<Rightarrow> u32" where
  "member_count t = card (dom (bk_id_to_leaf_idx t)) mod 2 ^ 32"

definition path_length_for :: "beekem \<Rightarrow> leaf_node_index \<Rightarrow> nat cgka_result" where
  "path_length_for t idx = map_ok length (direct_path (Leaf idx) (bk_tree_size t))"

definition has_root_key :: "beekem \<Rightarrow> bool cgka_result" where
  "has_root_key t = (case root (bk_tree_size t) of
     Leaf _ \<Rightarrow> Panic
   | Inner p_idx \<Rightarrow> map_ok (\<lambda>x. case x of Some r \<Rightarrow> \<not> has_conflict r | None \<Rightarrow> False) (inner_node t p_idx))"

definition conflict_node_count :: "beekem \<Rightarrow> nat" where
  "conflict_node_count t =
     length (filter (\<lambda>n. case n of Some s \<Rightarrow> has_conflict s | None \<Rightarrow> False) (bk_inner_nodes t))"

section \<open>Growing and blanking\<close>

definition grow_tree_to_size :: "beekem \<Rightarrow> beekem" where
  "grow_tree_to_size t = t\<lparr>
     bk_leaves := vec_resize (leaf_count (bk_tree_size t)) None (bk_leaves t),
     bk_inner_nodes := vec_resize (inner_node_count (bk_tree_size t)) None (bk_inner_nodes t) \<rparr>"

definition maybe_grow_tree :: "u32 \<Rightarrow> beekem \<Rightarrow> beekem" where
  "maybe_grow_tree new_count t =
     (if bk_tree_size t \<ge> from_leaf_count new_count then t
      else grow_tree_to_size (t\<lparr> bk_tree_size := tree_size_inc (bk_tree_size t) \<rparr>))"

fun blank_path_loop :: "nat \<Rightarrow> inner_node_index \<Rightarrow> beekem \<Rightarrow> beekem cgka_result" where
  "blank_path_loop fuel idx t =
     (if \<not> is_root t (Inner idx) then
        (case fuel of
           0 \<Rightarrow> Hang
         | Suc n \<Rightarrow> and_then (blank_inner_node idx t) (blank_path_loop n (parent (Inner idx))))
      else map_ok (\<lambda>t'. t'\<lparr> bk_current_secret_encrypter_leaf_idx := None \<rparr>) (blank_inner_node idx t))"

declare blank_path_loop.simps [simp del]

definition blank_path :: "inner_node_index \<Rightarrow> beekem \<Rightarrow> beekem cgka_result" where
  "blank_path idx t = blank_path_loop 32 idx t"

definition blank_leaf_and_path :: "leaf_node_index \<Rightarrow> beekem \<Rightarrow> beekem cgka_result" where
  "blank_leaf_and_path idx t =
     and_then (map_ok (\<lambda>ls. t\<lparr> bk_leaves := ls \<rparr>) (vec_set (bk_leaves t) idx None))
       (blank_path (parent (Leaf idx)))"

definition push_leaf :: "member_id \<Rightarrow> node_key \<Rightarrow> beekem \<Rightarrow> (beekem \<times> u32) cgka_result" where
  "push_leaf mid pk t =
     (let t1 = maybe_grow_tree (bk_next_leaf_idx t) t;
          l_idx = bk_next_leaf_idx t1;
          t2 = t1\<lparr> bk_next_leaf_idx := u32_add l_idx 1 \<rparr> in
      and_then (insert_leaf_at l_idx mid pk t2) (\<lambda>t3.
      map_ok (\<lambda>t5. (t5, l_idx))
        (blank_path (parent (Leaf l_idx))
          (t3\<lparr> bk_id_to_leaf_idx := (bk_id_to_leaf_idx t3)(mid \<mapsto> l_idx) \<rparr>))))"

definition beekem_new :: "tree_id \<Rightarrow> member_id \<Rightarrow> share_key \<Rightarrow> beekem cgka_result" where
  "beekem_new doc_id initial_member_id initial_member_pk =
     map_ok fst (push_leaf initial_member_id (ShareKey initial_member_pk)
       (grow_tree_to_size \<lparr> bk_doc_id = doc_id, bk_next_leaf_idx = 0, bk_leaves = [],
          bk_inner_nodes = [], bk_tree_size = from_leaf_count 1,
          bk_id_to_leaf_idx = Map.empty, bk_current_secret_encrypter_leaf_idx = None \<rparr>))"

section \<open>Removing\<close>

text \<open>
  \<open>leaf(next_leaf_idx - 1)\<close> at \<open>next_leaf_idx = 0\<close> wraps around and panics, so the loop runs
  at most \<open>next_leaf_idx\<close> times.
\<close>

fun collect_tombstones :: "nat \<Rightarrow> beekem \<Rightarrow> beekem cgka_result" where
  "collect_tombstones fuel t =
     and_then (leaf t (u32_sub (bk_next_leaf_idx t) 1)) (\<lambda>l.
       if l = None then
         (case fuel of
            0 \<Rightarrow> Hang
          | Suc n \<Rightarrow>
              and_then (blank_path (parent (Leaf (u32_sub (bk_next_leaf_idx t) 1))) t) (\<lambda>t'.
                collect_tombstones n (t'\<lparr> bk_next_leaf_idx := u32_sub (bk_next_leaf_idx t') 1 \<rparr>)))
       else Ok t)"

declare collect_tombstones.simps [simp del]

definition removed_path_keys :: "beekem \<Rightarrow> inner_node_index list \<Rightarrow> share_key list cgka_result" where
  "removed_path_keys t path =
     fold_ok (\<lambda>acc idx. and_then (inner_node t idx) (\<lambda>x. case x of
         Some store \<Rightarrow> map_ok (\<lambda>k. acc @ node_key_keys k) (store_node_key store)
       | None \<Rightarrow> Ok acc)) [] path"

definition remove_id :: "member_id \<Rightarrow> (beekem, cgka_error, u32 \<times> share_key list) st" where
  "remove_id mid t =
     (if member_count t = 1 then (Err RemoveLastMember, t)
      else sbind (lift_st (leaf_index_for_id t mid)) (\<lambda>l_idx.
        sbind (lift_st (and_then (direct_path (Leaf l_idx) (bk_tree_size t)) (removed_path_keys t)))
          (\<lambda>removed_keys.
        sbind (modify_st (\<lambda>t. and_then (blank_leaf_and_path l_idx t) (\<lambda>t1.
          let t2 = t1\<lparr> bk_id_to_leaf_idx := (bk_id_to_leaf_idx t1)(mid := None) \<rparr> in
          collect_tombstones (bk_next_leaf_idx t2) t2))) (\<lambda>_.
        ret (l_idx, removed_keys)))) t)"

section \<open>Concurrent membership changes\<close>

definition blank_removed ::
    "(member_id \<times> u32) list \<Rightarrow> member_id set \<times> beekem \<Rightarrow> (member_id set \<times> beekem) cgka_result" where
  "blank_removed removed s =
     fold_ok (\<lambda>(added, t) (mid, idx). map_ok (\<lambda>t'. (added - {mid}, t')) (blank_leaf_and_path idx t)) s removed"

fun collect_leaves_to_sort ::
    "nat \<Rightarrow> member_id set \<Rightarrow> leaf_node list \<Rightarrow> beekem \<Rightarrow> (leaf_node list \<times> beekem) cgka_result" where
  "collect_leaves_to_sort fuel added acc t =
     (if added \<noteq> {} \<and> bk_next_leaf_idx t > 0 then
        (case fuel of
           0 \<Rightarrow> Hang
         | Suc n \<Rightarrow>
             (let leaf_idx = u32_sub (bk_next_leaf_idx t) 1 in
              and_then (leaf t leaf_idx) (\<lambda>l.
              let (added', acc') = (case l of
                    Some next_leaf \<Rightarrow> (added - {ln_id next_leaf}, acc @ [next_leaf])
                  | None \<Rightarrow> (added, acc)) in
              and_then (blank_leaf_and_path leaf_idx t) (\<lambda>t'.
                collect_leaves_to_sort n added' acc' (t'\<lparr> bk_next_leaf_idx := leaf_idx \<rparr>)))))
      else Ok (acc, t))"

declare collect_leaves_to_sort.simps [simp del]

definition push_leaves :: "leaf_node list \<Rightarrow> beekem \<Rightarrow> beekem cgka_result" where
  "push_leaves ls t = fold_ok (\<lambda>t l. map_ok fst (push_leaf (ln_id l) (ln_pk l) t)) t ls"

text \<open>The set of removals is iterated in its order (\<open>BTreeSet\<close>).\<close>

definition sort_leaves_and_blank_paths ::
    "member_id set \<Rightarrow> (member_id \<times> u32) set \<Rightarrow> beekem \<Rightarrow> beekem cgka_result" where
  "sort_leaves_and_blank_paths added_ids removed_ids t =
     and_then (blank_removed (sorted_list_of_set removed_ids) (added_ids, t)) (\<lambda>(added, t1).
     and_then (collect_leaves_to_sort (bk_next_leaf_idx t1) added [] t1) (\<lambda>(leaves_to_sort, t2).
     push_leaves (sort_key ln_id leaves_to_sort) t2))"

section \<open>Resolution\<close>

fun append_resolution ::
    "nat \<Rightarrow> beekem \<Rightarrow> tree_node_index \<Rightarrow> tree_node_index list \<Rightarrow> (tree_node_index list) cgka_result" where
  "append_resolution fuel t idx acc =
     and_then (should_skip_for_resolution t idx) (\<lambda>skip.
       if skip then
         (case idx of
            Leaf _ \<Rightarrow> Ok acc
          | Inner i_idx \<Rightarrow>
              (case fuel of
                 0 \<Rightarrow> Hang
               | Suc n \<Rightarrow> and_then (append_resolution n t (left i_idx) acc)
                   (append_resolution n t (right i_idx))))
       else Ok (acc @ [idx]))"

declare append_resolution.simps [simp del]

section \<open>Decrypting\<close>

definition maybe_decrypt_parent_key ::
    "('r, 'm) crypto_scheme \<Rightarrow> beekem \<Rightarrow> tree_node_index \<Rightarrow> node_key \<Rightarrow> tree_node_index list \<Rightarrow>
     (share_key_map, cgka_error, share_secret_key option) st" where
  "maybe_decrypt_parent_key C t child_idx child_node_key seen_idxs =
     sbind (lift_st (inner_node t (parent child_idx))) (\<lambda>p. case p of
       None \<Rightarrow> ret None
     | Some store \<Rightarrow> sbind (lift_st (store_node_key store)) (\<lambda>k. case k of
         ConflictKeys _ \<Rightarrow> ret None
       | ShareKey parent_pk \<Rightarrow> sbind get_st (\<lambda>child_sks.
           if share_key_map_contains child_sks parent_pk then ret (child_sks parent_pk)
           else sbind (lift_st (store_decrypt_secret C store child_node_key child_sks seen_idxs))
             (\<lambda>secret. sbind (put_st (share_key_map_insert parent_pk secret child_sks))
               (\<lambda>_. ret (Some secret))))))"

text \<open>The inner loop: the next parent that is neither blank nor in conflict.\<close>

fun next_parent_loop ::
    "nat \<Rightarrow> beekem \<Rightarrow> tree_node_index \<Rightarrow> tree_node_index \<Rightarrow>
     (tree_node_index \<times> tree_node_index) cgka_result" where
  "next_parent_loop fuel t child_idx parent_idx =
     and_then (should_skip_for_resolution t parent_idx) (\<lambda>skip.
       if skip then
         (case fuel of
            0 \<Rightarrow> Hang
          | Suc n \<Rightarrow> next_parent_loop n t parent_idx (Inner (parent parent_idx)))
       else Ok (child_idx, parent_idx))"

declare next_parent_loop.simps [simp del]

fun decrypt_loop ::
    "nat \<Rightarrow> ('r, 'm) crypto_scheme \<Rightarrow> beekem \<Rightarrow> inner_node_index \<Rightarrow> tree_node_index \<Rightarrow>
     tree_node_index \<Rightarrow> tree_node_index list \<Rightarrow> node_key \<Rightarrow> share_secret_key option \<Rightarrow>
     (share_key_map, cgka_error, share_secret_key) st" where
  "decrypt_loop fuel C t lca child_idx parent_idx seen_idxs child_node_key last_secret =
     (if is_root t child_idx then lift_st (ok_or NoRootKey last_secret)
      else case fuel of
        0 \<Rightarrow> lift_st Hang
      | Suc n \<Rightarrow>
          sbind (lift_st (next_parent_loop 32 t child_idx parent_idx)) (\<lambda>(child_idx, parent_idx).
          sbind (maybe_decrypt_parent_key C t child_idx child_node_key seen_idxs) (\<lambda>maybe_secret.
          case maybe_secret of
            None \<Rightarrow> lift_st Panic
          | Some secret \<Rightarrow>
              if parent_idx = Inner lca then
                sbind (lift_st (direct_path parent_idx (bk_tree_size t)))
                  (\<lambda>path. ret (ratchet_n_forward C (length path) secret))
              else
                sbind (lift_st (node_key_for_index t parent_idx)) (\<lambda>key.
                decrypt_loop n C t lca parent_idx (Inner (parent parent_idx))
                  (seen_idxs @ [parent_idx]) key (Some secret)))))"

declare decrypt_loop.simps [simp del]

definition decrypt_tree_secret ::
    "('r, 'm) crypto_scheme \<Rightarrow> beekem \<Rightarrow> member_id \<Rightarrow> (share_key_map, cgka_error, share_secret_key) st" where
  "decrypt_tree_secret C t owner_id =
     sbind (lift_st (leaf_index_for_id t owner_id)) (\<lambda>leaf_idx.
     sbind (lift_st (has_root_key t)) (\<lambda>root_key.
     if \<not> root_key then raise NoRootKey
     else
       sbind (lift_st (and_then (leaf t leaf_idx) expect)) (\<lambda>lf.
       if Some leaf_idx = bk_current_secret_encrypter_leaf_idx t then
         (case ln_pk lf of
            ConflictKeys _ \<Rightarrow> raise ShareKeyNotFound
          | ShareKey pk \<Rightarrow>
              sbind get_st (\<lambda>owner_sks.
              sbind (lift_st (ok_or ShareKeyNotFound (owner_sks pk))) (\<lambda>secret.
              sbind (lift_st (direct_path (Leaf leaf_idx) (bk_tree_size t))) (\<lambda>path.
              ret (ratchet_n_forward C (length path) secret)))))
       else
         sbind (lift_st (expect (bk_current_secret_encrypter_leaf_idx t))) (\<lambda>encrypter.
         decrypt_loop 32 C t (lowest_common_ancestor leaf_idx encrypter) (Leaf leaf_idx)
           (Inner (parent (Leaf leaf_idx))) [Leaf leaf_idx] (ln_pk lf) None))))"

section \<open>Encrypting\<close>

definition encrypt_for_resolution ::
    "('r, 'm) crypto_scheme \<Rightarrow> beekem \<Rightarrow> tree_node_index \<Rightarrow> share_secret_key \<Rightarrow> share_secret_key \<Rightarrow>
     tree_node_index list \<Rightarrow>
     ((tree_node_index \<rightharpoonup> encrypted_secret) \<times> bool) cgka_result" where
  "encrypt_for_resolution C t child_idx child_sk new_parent_sk resolution =
     fold_ok (\<lambda>(secret_map, used_paired_sibling) idx.
       and_then (node_key_for_index t idx) (\<lambda>k. case k of
         ConflictKeys _ \<Rightarrow> Panic
       | ShareKey next_pk \<Rightarrow>
           map_ok (\<lambda>encrypted_sk.
               ((if used_paired_sibling then secret_map else secret_map(child_idx \<mapsto> encrypted_sk))
                  (idx \<mapsto> encrypted_sk), True))
             (encrypt_secret C (tree_id_bytes (bk_doc_id t)) new_parent_sk child_sk next_pk)))
       (Map.empty, False) resolution"

definition encrypt_new_secret_store_for_parent ::
    "('r, 'm) crypto_scheme \<Rightarrow> beekem \<Rightarrow> tree_node_index \<Rightarrow> share_key \<Rightarrow> share_secret_key \<Rightarrow>
     share_key \<Rightarrow> share_secret_key \<Rightarrow> ('r, cgka_error, secret_store) st" where
  "encrypt_new_secret_store_for_parent C t child_idx child_pk child_sk new_parent_pk new_parent_sk =
     sbind (lift_st (append_resolution 32 t (sibling child_idx) [])) (\<lambda>sibling_resolution.
     if sibling_resolution = [] then
       sbind (\<lambda>r. case secret_generate C r of (paired_sk, r') \<Rightarrow> (Ok paired_sk, r')) (\<lambda>paired_sk.
       sbind (lift_st (encrypt_secret C (tree_id_bytes (bk_doc_id t)) new_parent_sk child_sk
           (share_key C paired_sk))) (\<lambda>encrypted_sk.
       ret (secret_store_new new_parent_pk child_pk [child_idx \<mapsto> encrypted_sk])))
     else
       sbind (lift_st (encrypt_for_resolution C t child_idx child_sk new_parent_sk sibling_resolution))
         (\<lambda>(secret_map, _). ret (secret_store_new new_parent_pk child_pk secret_map)))"

text \<open>The state of the next operations is the tree and the random generator.\<close>

definition encrypt_key_for_parent ::
    "('r, 'm) crypto_scheme \<Rightarrow> tree_node_index \<Rightarrow> share_key \<Rightarrow> share_secret_key \<Rightarrow> share_key \<Rightarrow>
     share_secret_key \<Rightarrow> (beekem \<times> 'r, cgka_error, unit) st" where
  "encrypt_key_for_parent C child_idx child_pk child_sk new_parent_pk new_parent_sk =
     sbind (\<lambda>(t, r). case encrypt_new_secret_store_for_parent C t child_idx child_pk child_sk
              new_parent_pk new_parent_sk r of (s, r') \<Rightarrow> (s, (t, r'))) (\<lambda>secret_store.
     modify_st (\<lambda>(t, r). map_ok (\<lambda>t'. (t', r)) (insert_inner_node_at (parent child_idx) secret_store t)))"

fun encrypt_path_loop ::
    "nat \<Rightarrow> ('r, 'm) crypto_scheme \<Rightarrow> tree_node_index \<Rightarrow> share_key \<Rightarrow> share_secret_key \<Rightarrow>
     inner_node_index \<Rightarrow> path_change \<Rightarrow> (beekem \<times> 'r, cgka_error, share_secret_key \<times> path_change) st" where
  "encrypt_path_loop fuel C child_idx child_pk child_sk parent_idx new_path =
     sbind get_st (\<lambda>(t, _).
     if is_root t child_idx then ret (child_sk, new_path)
     else case fuel of
       0 \<Rightarrow> lift_st Hang
     | Suc n \<Rightarrow>
         sbind (lift_st (and_then (inner_node t parent_idx) (\<lambda>x. case x of
             Some store \<Rightarrow> map_ok node_key_keys (store_node_key store) | None \<Rightarrow> Ok []))) (\<lambda>old_keys.
         let new_parent_sk = ratchet_forward C child_sk;
             new_parent_pk = share_key C new_parent_sk in
         sbind (encrypt_key_for_parent C child_idx child_pk child_sk new_parent_pk new_parent_sk) (\<lambda>_.
         sbind get_st (\<lambda>(t', _).
         sbind (lift_st (and_then (inner_node t' parent_idx) expect)) (\<lambda>node.
         encrypt_path_loop n C (Inner parent_idx) new_parent_pk new_parent_sk (parent (Inner parent_idx))
           (new_path\<lparr> pc_path := pc_path new_path @ [(parent_idx, node)],
             pc_removed_keys := pc_removed_keys new_path @ old_keys \<rparr>))))))"

declare encrypt_path_loop.simps [simp del]

definition encrypt_path ::
    "('r, 'm) crypto_scheme \<Rightarrow> member_id \<Rightarrow> share_key \<Rightarrow> share_key_map \<Rightarrow>
     (beekem \<times> 'r, cgka_error, (pcs_key \<times> path_change) option) st" where
  "encrypt_path C mid pk sks =
     sbind get_st (\<lambda>(t, _).
     sbind (lift_st (leaf_index_for_id t mid)) (\<lambda>leaf_idx.
     sbind (lift_st (map_ok node_key_keys (node_key_for_id t mid))) (\<lambda>removed_keys.
     let new_path = \<lparr> pc_leaf_id = mid, pc_leaf_idx = leaf_idx, pc_leaf_pk = ShareKey pk,
           pc_path = [], pc_removed_keys = removed_keys \<rparr> in
     sbind (modify_st (\<lambda>(t, r). map_ok (\<lambda>t'. (t', r)) (insert_leaf_at leaf_idx mid (ShareKey pk) t))) (\<lambda>_.
     sbind (lift_st (ok_or SecretKeyNotFound (sks pk))) (\<lambda>child_sk.
     sbind (encrypt_path_loop 32 C (Leaf leaf_idx) pk child_sk (parent (Leaf leaf_idx)) new_path)
       (\<lambda>(root_sk, path).
     sbind (modify_st (\<lambda>(t, r).
         Ok (t\<lparr> bk_current_secret_encrypter_leaf_idx := Some leaf_idx \<rparr>, r))) (\<lambda>_.
     ret (Some (PcsKey root_sk, path)))))))))"

section \<open>Applying a path\<close>

definition is_valid_path :: "beekem \<Rightarrow> path_change \<Rightarrow> bool cgka_result" where
  "is_valid_path t new_path =
     and_then (expect (bk_id_to_leaf_idx t (pc_leaf_id new_path))) (\<lambda>leaf_idx.
     map_ok (\<lambda>len. length (pc_path new_path) = len \<and> leaf_idx = pc_leaf_idx new_path)
       (path_length_for t (pc_leaf_idx new_path)))"

definition apply_node ::
    "share_key set \<Rightarrow> beekem \<Rightarrow> u32 \<times> secret_store \<Rightarrow> beekem cgka_result" where
  "apply_node removed_keys t = (\<lambda>(idx, node).
     and_then (inner_node t idx) (\<lambda>x. case x of
       Some current_node \<Rightarrow> insert_inner_node_at idx (store_merge current_node node removed_keys) t
     | None \<Rightarrow> insert_inner_node_at idx node t))"

definition apply_path :: "path_change \<Rightarrow> beekem \<Rightarrow> beekem cgka_result" where
  "apply_path new_path t =
     (if bk_id_to_leaf_idx t (pc_leaf_id new_path) = None then Ok t
      else
        and_then (expect (bk_id_to_leaf_idx t (pc_leaf_id new_path))) (\<lambda>leaf_idx.
        and_then (is_valid_path t new_path) (\<lambda>valid.
        and_then (and_then (leaf t leaf_idx) expect) (\<lambda>lf.
        and_then (node_key_merge (ln_pk lf) (pc_leaf_pk new_path) (pc_removed_keys new_path)) (\<lambda>key.
        and_then (insert_leaf_at leaf_idx (pc_leaf_id new_path) key t) (\<lambda>t1.
        if \<not> valid then blank_path (parent (Leaf leaf_idx)) t1
        else
          and_then (fold_ok (apply_node (set (pc_removed_keys new_path))) t1 (pc_path new_path)) (\<lambda>t2.
          map_ok (\<lambda>has_key. t2\<lparr> bk_current_secret_encrypter_leaf_idx :=
              (if has_key then Some leaf_idx else None) \<rparr>)
            (has_root_key t2))))))))"

end
