(* ===== verification/Signed.thy ===== *)
theory Signed
  imports Crypto
begin

text \<open>
  Signatures (\<open>keyhive_crypto/src/signed.rs\<close> and \<open>signer/\<close>) and hexadecimal output
  (\<open>hex.rs\<close>). Ed25519 and \<open>bincode\<close> are third-party crates: Ed25519 is the record \<open>ed25519\<close>
  with the law \<open>ed25519_laws\<close> that a signature made with a key verifies under its public key;
  the encoding of a payload is a function argument that may fail.

  The cached digest of \<open>Signed\<close> is the digest of its encoding (the cell is only ever set to
  that value), so it is not part of the model's record.
\<close>

section \<open>Model\<close>

record 'r ed25519 =
  ed_generate :: "'r \<Rightarrow> bytes \<times> 'r"
  ed_public :: "bytes \<Rightarrow> bytes"
  ed_sign :: "bytes \<Rightarrow> bytes \<Rightarrow> bytes option"
  ed_verify :: "bytes \<Rightarrow> bytes \<Rightarrow> bytes \<Rightarrow> bool"

definition ed25519_laws :: "('r, 'm) ed25519_scheme \<Rightarrow> bool" where
  "ed25519_laws E \<longleftrightarrow> (\<forall>key msg s. ed_sign E key msg = Some s \<longrightarrow> ed_verify E (ed_public E key) msg s)"

datatype verification_error = SignatureVerificationFailed | PayloadSerializationFailed
datatype signing_error = SigningFailed | SerializationFailed

record 'p signed =
  sg_payload :: 'p
  sg_issuer :: bytes
  sg_signature :: bytes

definition signed_new :: "'p \<Rightarrow> bytes \<Rightarrow> bytes \<Rightarrow> 'p signed" where
  "signed_new payload issuer signature =
     \<lparr> sg_payload = payload, sg_issuer = issuer, sg_signature = signature \<rparr>"

text \<open>The encoding of a \<open>Signed\<close> cannot fail (\<open>expect\<close>), so it is a total function.\<close>

definition signed_digest :: "('r, 'm) crypto_scheme \<Rightarrow> ('p signed \<Rightarrow> bytes) \<Rightarrow> 'p signed \<Rightarrow> digest" where
  "signed_digest C ser s = digest_hash C (ser s)"

definition signed_eq :: "'p signed \<Rightarrow> 'p signed \<Rightarrow> bool" where
  "signed_eq a b \<longleftrightarrow> sg_issuer a = sg_issuer b \<and> sg_signature a = sg_signature b"

definition try_verify ::
    "('r, 'm) ed25519_scheme \<Rightarrow> ('p \<Rightarrow> bytes option) \<Rightarrow> 'p signed \<Rightarrow> (verification_error, unit) outcome" where
  "try_verify E ser s =
     and_then (ok_or PayloadSerializationFailed (ser (sg_payload s))) (\<lambda>buf.
       if ed_verify E (sg_issuer s) buf (sg_signature s) then Ok () else Err SignatureVerificationFailed)"

definition signed_map :: "('p \<Rightarrow> 'q) \<Rightarrow> 'p signed \<Rightarrow> 'q signed" where
  "signed_map f s = signed_new (f (sg_payload s)) (sg_issuer s) (sg_signature s)"

datatype ordering = Less | Equal | Greater

definition cmp_of :: "'a :: linorder \<Rightarrow> 'a \<Rightarrow> ordering" where
  "cmp_of a b = (if a < b then Less else if a = b then Equal else Greater)"

definition signed_cmp :: "('p \<Rightarrow> 'p \<Rightarrow> ordering) \<Rightarrow> 'p signed \<Rightarrow> 'p signed \<Rightarrow> ordering" where
  "signed_cmp payload_cmp a b =
     (case cmp_of (sg_issuer a) (sg_issuer b) of
        Equal \<Rightarrow> (case cmp_of (sg_signature a) (sg_signature b) of
          Equal \<Rightarrow> payload_cmp (sg_payload a) (sg_payload b)
        | unequal \<Rightarrow> unequal)
      | unequal \<Rightarrow> unequal)"

section \<open>Signers\<close>

text \<open>A signer as the free function \<open>try_sign_async\<close> sees it: its public key and its signing function.\<close>

record signer =
  signer_verifying_key :: bytes
  try_sign_bytes :: "bytes \<Rightarrow> (signing_error, bytes) outcome"

definition try_sign_async :: "('p \<Rightarrow> bytes option) \<Rightarrow> signer \<Rightarrow> 'p \<Rightarrow> (signing_error, 'p signed) outcome" where
  "try_sign_async ser sg payload =
     and_then (ok_or SerializationFailed (ser payload)) (\<lambda>payload_bytes.
     map_ok (\<lambda>signature. signed_new payload (signer_verifying_key sg) signature)
       (try_sign_bytes sg payload_bytes))"

definition try_sign_basic ::
    "('p \<Rightarrow> bytes option) \<Rightarrow> (bytes \<Rightarrow> (signing_error, bytes) outcome) \<Rightarrow> bytes \<Rightarrow> 'p \<Rightarrow>
     (signing_error, 'p signed) outcome" where
  "try_sign_basic ser sign issuer payload =
     and_then (ok_or SerializationFailed (ser payload)) (\<lambda>bs.
     map_ok (\<lambda>signature. signed_new payload issuer signature) (sign bs))"

text \<open>\<open>AsyncSigner\<close> and \<open>SyncSignerBasic\<close> for the raw signing key.\<close>

definition signing_key_sign :: "('r, 'm) ed25519_scheme \<Rightarrow> bytes \<Rightarrow> bytes \<Rightarrow> (signing_error, bytes) outcome" where
  "signing_key_sign E key payload_bytes = ok_or SigningFailed (ed_sign E key payload_bytes)"

text \<open>\<open>MemorySigner\<close> wraps a signing key.\<close>

datatype memory_signer = MemorySigner bytes

primrec memory_key :: "memory_signer \<Rightarrow> bytes" where
  "memory_key (MemorySigner key) = key"

definition memory_generate :: "('r, 'm) ed25519_scheme \<Rightarrow> 'r \<Rightarrow> memory_signer \<times> 'r" where
  "memory_generate E r = (case ed_generate E r of (key, r') \<Rightarrow> (MemorySigner key, r'))"

definition memory_verifying_key :: "('r, 'm) ed25519_scheme \<Rightarrow> memory_signer \<Rightarrow> bytes" where
  "memory_verifying_key E s = ed_public E (memory_key s)"

definition try_sign_bytes_sync ::
    "('r, 'm) ed25519_scheme \<Rightarrow> memory_signer \<Rightarrow> bytes \<Rightarrow> (signing_error, bytes) outcome" where
  "try_sign_bytes_sync E s payload_bytes = ok_or SigningFailed (ed_sign E (memory_key s) payload_bytes)"

definition try_sign_sync ::
    "('r, 'm) ed25519_scheme \<Rightarrow> ('p \<Rightarrow> bytes option) \<Rightarrow> memory_signer \<Rightarrow> 'p \<Rightarrow>
     (signing_error, 'p signed) outcome" where
  "try_sign_sync E ser s payload =
     and_then (ok_or SerializationFailed (ser payload)) (\<lambda>payload_bytes.
     map_ok (\<lambda>signature. signed_new payload (memory_verifying_key E s) signature)
       (try_sign_bytes_sync E s payload_bytes))"

definition memory_async_signer :: "('r, 'm) ed25519_scheme \<Rightarrow> memory_signer \<Rightarrow> signer" where
  "memory_async_signer E s =
     \<lparr> signer_verifying_key = memory_verifying_key E s, try_sign_bytes = try_sign_bytes_sync E s \<rparr>"

definition memory_eq :: "('r, 'm) ed25519_scheme \<Rightarrow> memory_signer \<Rightarrow> memory_signer \<Rightarrow> bool" where
  "memory_eq E a b \<longleftrightarrow> memory_verifying_key E a = memory_verifying_key E b"

text \<open>\<open>EphemeralSigner::with_signer\<close>: the key lives only inside the closure.\<close>

definition with_signer ::
    "('r, 'm) ed25519_scheme \<Rightarrow> (bytes \<Rightarrow> (bytes \<Rightarrow> (signing_error, bytes) outcome) \<Rightarrow> 'a) \<Rightarrow> 'r \<Rightarrow>
     ('a \<times> bytes) \<times> 'r" where
  "with_signer E f r = (case ed_generate E r of (sk, r') \<Rightarrow>
     (let vk = ed_public E sk in ((f vk (signing_key_sign E sk), vk), r')))"

section \<open>Hexadecimal\<close>

definition hex_digit :: "nat \<Rightarrow> char" where
  "hex_digit n = ''0123456789abcdef'' ! n"

definition byte_hex :: "byte \<Rightarrow> string" where
  "byte_hex b = [hex_digit (unat b div 16), hex_digit (unat b mod 16)]"

definition bytes_as_hex :: "bool \<Rightarrow> bytes \<Rightarrow> string" where
  "bytes_as_hex alternate bs = (if alternate then ''0x'' else []) @ concat (map byte_hex bs)"

definition bytes_to_hex_string :: "bytes \<Rightarrow> string" where
  "bytes_to_hex_string bs = ''0x'' @ concat (map byte_hex bs)"

section \<open>Lemmas\<close>

lemma try_sign_async_Ok:
  "try_sign_async ser sg p = Ok s \<longleftrightarrow> (\<exists>bs sig. ser p = Some bs \<and> try_sign_bytes sg bs = Ok sig \<and>
    s = signed_new p (signer_verifying_key sg) sig)"
  by (auto simp: try_sign_async_def outcome_simps)

lemma try_sign_sync_async: "try_sign_sync E ser s p = try_sign_async ser (memory_async_signer E s) p"
  by (simp add: try_sign_sync_def try_sign_async_def memory_async_signer_def)

lemma try_sign_basic_async:
  "try_sign_basic ser sign vk p = try_sign_async ser \<lparr> signer_verifying_key = vk, try_sign_bytes = sign \<rparr> p"
  by (simp add: try_sign_basic_def try_sign_async_def)

lemma hex_digit_inj:
  assumes "a < 16" "b < 16"
  shows "hex_digit a = hex_digit b \<longleftrightarrow> a = b"
proof -
  have "distinct ''0123456789abcdef''" "length ''0123456789abcdef'' = 16" by simp_all
  then show ?thesis unfolding hex_digit_def using assms by (intro nth_eq_iff_index_eq) auto
qed

lemma byte_hex_inj: "byte_hex a = byte_hex b \<longleftrightarrow> a = b"
proof
  assume eq: "byte_hex a = byte_hex b"
  have lt: "unat x < 256" for x :: byte using unsigned_less [of x, where ?'a = nat] by simp
  then have "unat x div 16 < 16" for x :: byte by (simp add: less_mult_imp_div_less)
  then have "unat a div 16 = unat b div 16" "unat a mod 16 = unat b mod 16"
    using eq by (simp_all add: byte_hex_def hex_digit_inj)
  then have "unat a = unat b" by (metis div_mult_mod_eq)
  then show "a = b" by (rule unsigned_word_eqI)
qed simp

lemma length_hex [simp]: "length (concat (map byte_hex bs)) = 2 * length bs"
  by (induction bs) (simp_all add: byte_hex_def)

lemma concat_hex_inj: "concat (map byte_hex as) = concat (map byte_hex bs) \<longleftrightarrow> as = bs"
proof (induction as arbitrary: bs)
  case Nil
  then show ?case by (cases bs) (simp_all add: byte_hex_def)
next
  case (Cons a as)
  show ?case
  proof (cases bs)
    case (Cons b bs')
    have "byte_hex a @ xs = byte_hex b @ ys \<longleftrightarrow> byte_hex a = byte_hex b \<and> xs = ys" for xs ys
      by (simp add: byte_hex_def)
    then show ?thesis using Cons Cons.IH byte_hex_inj by simp
  qed (simp add: byte_hex_def)
qed

section \<open>Properties\<close>


definition demo_ed25519 :: "nat ed25519" where
  "demo_ed25519 = \<lparr> ed_generate = (\<lambda>r. ([of_nat r], Suc r)), ed_public = (\<lambda>key. key @ [0]),
     ed_sign = (\<lambda>key msg. Some (key @ [0] @ msg)), ed_verify = (\<lambda>vk msg s. s = vk @ msg) \<rparr>"

lemma demo_ed25519_laws: "ed25519_laws demo_ed25519"
  by (simp add: ed25519_laws_def demo_ed25519_def)




end
