(* ===== verification/Ca_Map.thy ===== *)
theory Ca_Map
  imports Signed Transact
begin

text \<open>
  The content-addressed map \<open>CaMap\<close> (\<open>beekem/src/content_addressed_map.rs\<close>): values indexed by
  their digest. \<open>Digest::hash\<close> of the value type is the argument \<open>h\<close>. The iteration order of the
  underlying \<open>HashMap\<close> is not fixed; \<open>ca_cmp\<close> takes the key sequences of the two iterations.
\<close>

section \<open>Model\<close>

type_synonym 'v ca_map = "digest \<rightharpoonup> 'v"

definition ca_new :: "'v ca_map" where
  "ca_new = Map.empty"

definition ca_insert :: "('v \<Rightarrow> digest) \<Rightarrow> 'v \<Rightarrow> 'v ca_map \<Rightarrow> digest \<times> 'v ca_map" where
  "ca_insert h v m = (let key = h v in (key, m(key \<mapsto> v)))"

definition ca_insert_checked :: "('v \<Rightarrow> digest) \<Rightarrow> 'v \<Rightarrow> 'v ca_map \<Rightarrow> (digest \<times> bool) \<times> 'v ca_map" where
  "ca_insert_checked h v m = (let key = h v in ((key, m key = None), m(key \<mapsto> v)))"

definition ca_remove_by_hash :: "digest \<Rightarrow> 'v ca_map \<Rightarrow> 'v option \<times> 'v ca_map" where
  "ca_remove_by_hash key m = (m key, m(key := None))"

definition ca_remove_by_value :: "('v \<Rightarrow> digest) \<Rightarrow> 'v \<Rightarrow> 'v ca_map \<Rightarrow> 'v option \<times> 'v ca_map" where
  "ca_remove_by_value h v m = ca_remove_by_hash (h v) m"

definition ca_get :: "'v ca_map \<Rightarrow> digest \<Rightarrow> 'v option" where
  "ca_get m key = m key"

definition ca_len :: "'v ca_map \<Rightarrow> nat" where
  "ca_len m = card (dom m)"

definition ca_is_empty :: "'v ca_map \<Rightarrow> bool" where
  "ca_is_empty m \<longleftrightarrow> dom m = {}"

definition ca_contains_key :: "'v ca_map \<Rightarrow> digest \<Rightarrow> bool" where
  "ca_contains_key m key \<longleftrightarrow> m key \<noteq> None"

definition ca_contains_value :: "('v \<Rightarrow> digest) \<Rightarrow> 'v ca_map \<Rightarrow> 'v \<Rightarrow> bool" where
  "ca_contains_value h m v \<longleftrightarrow> ca_contains_key m (h v)"

definition ca_from_iter_direct :: "('v \<Rightarrow> digest) \<Rightarrow> 'v list \<Rightarrow> 'v ca_map" where
  "ca_from_iter_direct h elements = fold (\<lambda>v m. m(h v \<mapsto> v)) elements ca_new"

definition ca_fork :: "'v ca_map \<Rightarrow> 'v ca_map" where
  "ca_fork m = m"

text \<open>\<open>entry(k).or_insert(v)\<close> keeps the entry that is there.\<close>

definition ca_merge :: "'v ca_map \<Rightarrow> 'v ca_map \<Rightarrow> 'v ca_map" where
  "ca_merge m other = other ++ m"

definition ca_from_iter :: "('v \<Rightarrow> digest) \<Rightarrow> 'v list \<Rightarrow> 'v ca_map" where
  "ca_from_iter h vs = map_of (rev (map (\<lambda>v. (h v, v)) vs))"

fun list_cmp :: "('a \<Rightarrow> 'a \<Rightarrow> ordering) \<Rightarrow> 'a list \<Rightarrow> 'a list \<Rightarrow> ordering" where
  "list_cmp f [] [] = Equal"
| "list_cmp f [] (_ # _) = Less"
| "list_cmp f (_ # _) [] = Greater"
| "list_cmp f (x # xs) (y # ys) = (case f x y of Equal \<Rightarrow> list_cmp f xs ys | c \<Rightarrow> c)"

definition ca_cmp :: "digest list \<Rightarrow> digest list \<Rightarrow> ordering" where
  "ca_cmp keys other_keys = list_cmp cmp_of keys other_keys"

definition ca_extend :: "'v ca_map \<Rightarrow> (digest \<times> 'v) list \<Rightarrow> 'v ca_map" where
  "ca_extend m kvs = m ++ map_of (rev kvs)"

definition ca_hash_keys :: "digest list \<Rightarrow> digest list" where
  "ca_hash_keys keys = sort keys"

section \<open>The contract\<close>

text \<open>
  What a store of values by digest promises its clients: a value is found under its digest
  after it is put in, putting in leaves the rest alone, and every entry is filed under its own
  digest. The operation graph and the CGKA use the map only through these laws.
\<close>

locale digest_store =
  fixes h :: "'v \<Rightarrow> digest"
    and put :: "'v \<Rightarrow> 's \<Rightarrow> 's"
    and look :: "'s \<Rightarrow> digest \<Rightarrow> 'v option"
    and filed :: "'s \<Rightarrow> bool"
  assumes look_put: "look (put v s) key = (if key = h v then Some v else look s key)"
    and filed_put: "filed s \<Longrightarrow> filed (put v s)"
    and filed_look: "filed s \<Longrightarrow> look s key = Some v \<Longrightarrow> h v = key"
begin

lemma look_put_all:
  "look (fold put vs s) key = (case find (\<lambda>v. h v = key) (rev vs) of Some v \<Rightarrow> Some v | None \<Rightarrow> look s key)"
proof (induction vs rule: rev_induct)
  case (snoc v vs)
  then show ?case by (simp add: look_put)
qed simp

lemma filed_put_all: "filed s \<Longrightarrow> filed (fold put vs s)"
  by (induction vs arbitrary: s) (simp_all add: filed_put)

lemma put_same:
  assumes "inj h" "filed s" "look s (h v) \<noteq> None"
  shows "look (put v s) = look s"
proof
  fix key
  obtain w where "look s (h v) = Some w" using assms(3) by blast
  moreover from this have "w = v" using filed_look [OF assms(2)] assms(1) by (metis injD)
  ultimately show "look (put v s) key = look s key" by (simp add: look_put)
qed

end

definition ca_filed :: "('v \<Rightarrow> digest) \<Rightarrow> 'v ca_map \<Rightarrow> bool" where
  "ca_filed h m \<longleftrightarrow> (\<forall>key v. m key = Some v \<longrightarrow> h v = key)"

interpretation ca: digest_store h "\<lambda>v m. snd (ca_insert h v m)" ca_get "ca_filed h" for h
  by unfold_locales (auto simp: ca_insert_def ca_get_def ca_filed_def Let_def split: if_splits)

interpretation ca_tx: growing_merge ca_fork ca_merge "(\<subseteq>\<^sub>m)"
  by unfold_locales (auto simp: ca_fork_def ca_merge_def map_le_def map_add_def fun_eq_iff split: option.splits)

section \<open>Lemmas\<close>

lemma ca_filed_ops:
  "ca_filed h ca_new" "ca_filed h m \<Longrightarrow> ca_filed h (snd (ca_remove_by_hash key m))"
  "ca_filed h m \<Longrightarrow> ca_filed h (snd (ca_insert_checked h v m))"
  "ca_filed h m \<Longrightarrow> ca_filed h m' \<Longrightarrow> ca_filed h (ca_merge m m')"
  by (auto simp: ca_filed_def ca_new_def ca_remove_by_hash_def ca_insert_checked_def ca_merge_def map_add_def Let_def
      split: if_splits option.splits)

lemma from_iter_fold: "ca_from_iter h vs = fold (\<lambda>v m. m(h v \<mapsto> v)) vs Map.empty"
  by (induction vs rule: rev_induct) (simp_all add: ca_from_iter_def)

lemma fold_insert: "fold (\<lambda>v m. m(h v \<mapsto> v)) vs = fold (\<lambda>v m. snd (ca_insert h v m)) vs"
  by (simp add: ca_insert_def Let_def)

lemma ca_merge_commute:
  assumes "inj h" "ca_filed h a" "ca_filed h b"
  shows "ca_merge a b = ca_merge b a"
proof
  fix key
  have "v = w" if "a key = Some v" "b key = Some w" for v w
    using that assms unfolding ca_filed_def by (metis injD)
  then show "ca_merge a b key = ca_merge b a key"
    by (auto simp: ca_merge_def map_add_def split: option.split)
qed

section \<open>Properties\<close>





end
