(* ===== verification/Topsort.thy ===== *)
theory Topsort
  imports Prelude
begin

text \<open>
  The two topological sorts, \<open>TopologicalSort\<close> of \<open>beekem/src/topsort.rs\<close> and \<open>Topsort\<close> of
  \<open>keyhive_core/src/util/topsort.rs\<close>. Both keep for every node the set of its predecessors and a
  reverse index, and pop all nodes without a predecessor at once. \<open>pop_all\<close> returns them in the
  iteration order of a \<open>HashMap\<close>, which is the argument \<open>iter\<close>; \<open>pop_frontier\<close> sorts them.

  What a client may rely on is the locale \<open>frontier_sort\<close>; in it the draining loop is shown to
  end exactly for acyclic graphs, with every node once and after its predecessors.
\<close>

section \<open>Model\<close>

record 'a topological_sort =
  ts_deps :: "'a \<rightharpoonup> 'a set"
  ts_rdeps :: "'a \<rightharpoonup> 'a set"

definition or_default :: "'k \<Rightarrow> ('k \<rightharpoonup> 'v set) \<Rightarrow> ('k \<rightharpoonup> 'v set)" where
  "or_default k m = (case m k of None \<Rightarrow> m(k \<mapsto> {}) | Some _ \<Rightarrow> m)"

definition entry_insert :: "'k \<Rightarrow> 'v \<Rightarrow> ('k \<rightharpoonup> 'v set) \<Rightarrow> ('k \<rightharpoonup> 'v set)" where
  "entry_insert k v m = m(k \<mapsto> insert v (case m k of None \<Rightarrow> {} | Some s \<Rightarrow> s))"

definition ts_new :: "'a topological_sort" where
  "ts_new = \<lparr> ts_deps = Map.empty, ts_rdeps = Map.empty \<rparr>"

definition add_dependency :: "'a \<Rightarrow> 'a \<Rightarrow> 'a topological_sort \<Rightarrow> 'a topological_sort" where
  "add_dependency dependency dependent t =
     t\<lparr> ts_deps := entry_insert dependent dependency (or_default dependency (ts_deps t)),
        ts_rdeps := entry_insert dependency dependent (or_default dependent (ts_rdeps t)) \<rparr>"

definition add_node :: "'a \<Rightarrow> 'a topological_sort \<Rightarrow> 'a topological_sort" where
  "add_node node t = t\<lparr> ts_deps := or_default node (ts_deps t), ts_rdeps := or_default node (ts_rdeps t) \<rparr>"

definition ts_is_empty :: "'a topological_sort \<Rightarrow> bool" where
  "ts_is_empty t \<longleftrightarrow> dom (ts_deps t) = {}"

definition ts_ready :: "'a topological_sort \<Rightarrow> 'a set" where
  "ts_ready t = {n \<in> dom (ts_deps t). ts_deps t n = Some {}}"

text \<open>The body of the loop over the popped nodes.\<close>

definition pop_node :: "'a \<Rightarrow> 'a topological_sort \<Rightarrow> 'a topological_sort" where
  "pop_node node t =
     (let deps = (ts_deps t)(node := None) in
      case ts_rdeps t node of
        None \<Rightarrow> t\<lparr> ts_deps := deps \<rparr>
      | Some dependents \<Rightarrow> t\<lparr>
          ts_deps := (\<lambda>dep. if dep \<in> dependents then map_option (\<lambda>s. s - {node}) (deps dep) else deps dep),
          ts_rdeps := (ts_rdeps t)(node := None) \<rparr>)"

definition pop_all :: "('a set \<Rightarrow> 'a list) \<Rightarrow> 'a topological_sort \<Rightarrow> 'a list \<times> 'a topological_sort" where
  "pop_all iter t = (let ready = iter (ts_ready t) in (ready, fold pop_node ready t))"

definition pop_frontier :: "('a :: linorder set \<Rightarrow> 'a list) \<Rightarrow> 'a topological_sort \<Rightarrow> 'a list \<times> 'a topological_sort" where
  "pop_frontier iter t = (let ready = sort (iter (ts_ready t)) in (ready, fold pop_node ready t))"

text \<open>An iteration of a finite set: each element once, in some order.\<close>

definition iterates :: "('a set \<Rightarrow> 'a list) \<Rightarrow> bool" where
  "iterates iter \<longleftrightarrow> (\<forall>A. finite A \<longrightarrow> set (iter A) = A \<and> distinct (iter A))"

lemma iterates_sorted: "iterates sorted_list_of_set"
  by (simp add: iterates_def)

lemma sort_iter: "iterates iter \<Longrightarrow> finite A \<Longrightarrow> sort (iter A) = sorted_list_of_set A"
  by (metis iterates_def sorted_list_of_set_sort_remdups distinct_remdups_id)

section \<open>Draining\<close>

text \<open>The loop of the clients: pop until nothing is left.\<close>

fun drain :: "nat \<Rightarrow> ('s \<Rightarrow> bool) \<Rightarrow> ('s \<Rightarrow> 'a list \<times> 's) \<Rightarrow> 's \<Rightarrow> ('e, 'a list list) outcome" where
  "drain fuel is_empty pop s =
     (if is_empty s then Ok []
      else case fuel of
        0 \<Rightarrow> Hang
      | Suc n \<Rightarrow> (case pop s of (ready, s') \<Rightarrow> map_ok (Cons ready) (drain n is_empty pop s')))"

declare drain.simps [simp del]

definition topological :: "('a \<times> 'a) set \<Rightarrow> 'a list \<Rightarrow> bool" where
  "topological E xs \<longleftrightarrow> (\<forall>us a vs b. xs = us @ a # vs \<and> (b, a) \<in> E \<longrightarrow> b \<in> set us)"

lemma topological_Nil [simp]: "topological E []"
  by (simp add: topological_def)

lemma topological_append:
  assumes "topological E xs" "topological {(b, a) \<in> E. b \<notin> set xs} ys"
  shows "topological E (xs @ ys)"
  unfolding topological_def
proof (intro allI impI, elim conjE)
  fix us a vs b assume eq: "xs @ ys = us @ a # vs" and E: "(b, a) \<in> E"
  then consider zs where "xs = us @ a # zs" | zs where "us = xs @ zs" "ys = zs @ a # vs"
    unfolding append_eq_append_conv2 by (metis append_Nil2 append_self_conv Cons_eq_append_conv self_append_conv2)
  then show "b \<in> set us"
  proof cases
    case 1
    then show ?thesis using assms(1) E by (auto simp: topological_def)
  next
    case 2
    then show ?thesis using assms(2) E by (cases "b \<in> set xs") (auto simp: topological_def)
  qed
qed

locale frontier_sort =
  fixes ok :: "'s \<Rightarrow> bool"
    and nodes :: "'s \<Rightarrow> 'a set"
    and edges :: "'s \<Rightarrow> ('a \<times> 'a) set"
    and is_empty :: "'s \<Rightarrow> bool"
    and pop :: "'s \<Rightarrow> 'a list \<times> 's"
  assumes finite_nodes: "ok s \<Longrightarrow> finite (nodes s)"
    and edges_nodes: "ok s \<Longrightarrow> edges s \<subseteq> nodes s \<times> nodes s"
    and is_empty_iff: "ok s \<Longrightarrow> is_empty s \<longleftrightarrow> nodes s = {}"
    and pop_ok: "ok s \<Longrightarrow> ok (snd (pop s))"
    and pop_set: "ok s \<Longrightarrow> set (fst (pop s)) = {n \<in> nodes s. \<forall>b. (b, n) \<notin> edges s}"
    and pop_distinct: "ok s \<Longrightarrow> distinct (fst (pop s))"
    and pop_nodes: "ok s \<Longrightarrow> nodes (snd (pop s)) = nodes s - set (fst (pop s))"
    and pop_edges: "ok s \<Longrightarrow> edges (snd (pop s)) = {(b, a) \<in> edges s. b \<notin> set (fst (pop s))}"
begin

lemma pop_progress:
  assumes "ok s" "acyclic (edges s)" "nodes s \<noteq> {}"
  shows "fst (pop s) \<noteq> []"
proof -
  have "finite (edges s)" using finite_subset [OF edges_nodes] finite_nodes assms(1) by blast
  then have "wf (edges s)" using assms(2) by (rule finite_acyclic_wf)
  then obtain n where "n \<in> nodes s" "\<And>b. (b, n) \<in> edges s \<Longrightarrow> b \<notin> nodes s"
    using assms(3) wfE_min' by metis
  then have "n \<in> set (fst (pop s))" using pop_set [OF assms(1)] edges_nodes [OF assms(1)] by blast
  then show ?thesis by auto
qed

lemma pop_acyclic: "ok s \<Longrightarrow> acyclic (edges s) \<Longrightarrow> acyclic (edges (snd (pop s)))"
  by (rule acyclic_subset) (auto simp: pop_edges)

lemma pop_topological: "ok s \<Longrightarrow> topological (edges s) (fst (pop s))"
  using pop_set by (fastforce simp: topological_def)

lemma drain_acyclic:
  assumes "ok s" "acyclic (edges s)" "card (nodes s) \<le> fuel"
  shows "\<exists>layers. drain fuel is_empty pop s = (Ok layers :: ('e, _) outcome) \<and>
    set (concat layers) = nodes s \<and> distinct (concat layers) \<and> topological (edges s) (concat layers) \<and> [] \<notin> set layers"
  using assms
proof (induction fuel arbitrary: s)
  case 0
  then have "nodes s = {}" using finite_nodes by simp
  then show ?case using is_empty_iff [OF 0(1)] by (subst drain.simps) simp
next
  case (Suc n)
  show ?case
  proof (cases "nodes s = {}")
    case True
    then show ?thesis using is_empty_iff [OF Suc.prems(1)] by (subst drain.simps) simp
  next
    case False
    obtain ready s' where pop: "pop s = (ready, s')" by fastforce
    have ne: "ready \<noteq> []" using pop_progress [OF Suc.prems(1,2) False] pop by simp
    have set: "set ready \<subseteq> nodes s" "nodes s' = nodes s - set ready"
      using pop_set [OF Suc.prems(1)] pop_nodes [OF Suc.prems(1)] pop by auto
    then have "card (nodes s') < card (nodes s)"
      using ne finite_nodes [OF Suc.prems(1)] by (intro psubset_card_mono) (auto simp: neq_Nil_conv)
    then obtain layers where l: "drain n is_empty pop s' = (Ok layers :: ('e, _) outcome)"
      "set (concat layers) = nodes s'" "distinct (concat layers)" "topological (edges s') (concat layers)" "[] \<notin> set layers"
      using Suc.IH [of s'] pop_ok [OF Suc.prems(1)] pop_acyclic [OF Suc.prems(1,2)] Suc.prems(3) pop by auto
    have "topological (edges s) (ready @ concat layers)"
      using pop_topological [OF Suc.prems(1)] pop_edges [OF Suc.prems(1)] l(4) pop by (intro topological_append) simp_all
    moreover have "drain (Suc n) is_empty pop s = (Ok (ready # layers) :: ('e, _) outcome)"
      using is_empty_iff [OF Suc.prems(1)] False pop l(1) by (subst drain.simps) simp
    moreover have "set (concat (ready # layers)) = nodes s" using set l(2) by auto
    moreover have "distinct (concat (ready # layers))"
      using pop_distinct [OF Suc.prems(1)] pop l(2,3) set(2) by auto
    ultimately show ?thesis using l(5) ne by (intro exI [of _ "ready # layers"]) simp
  qed
qed

lemma drain_cyclic:
  assumes "ok s" "(x, x) \<in> (edges s)\<^sup>+"
  shows "drain fuel is_empty pop s = (Hang :: ('e, _) outcome)"
  using assms
proof (induction fuel arbitrary: s)
  case 0
  have "x \<in> nodes s" using trancl_subset_Sigma [OF edges_nodes [OF 0(1)]] 0(2) by blast
  then show ?case using is_empty_iff [OF 0(1)] by (subst drain.simps) auto
next
  case (Suc n)
  obtain ready s' where pop: "pop s = (ready, s')" by fastforce
  have ready: "a \<notin> set ready" if "(b, a) \<in> edges s" for a b
    using that pop_set [OF Suc.prems(1)] pop by auto
  have on: "(a, b) \<in> (edges s')\<^sup>+" if "(a, b) \<in> (edges s)\<^sup>+" "a \<notin> set ready" for a b
    using that
  proof (induction rule: trancl_induct)
    case (base y)
    then show ?case using pop_edges [OF Suc.prems(1)] pop by auto
  next
    case (step y z)
    have "y \<notin> set ready" using tranclD2 [OF step(1)] ready by blast
    then have "(y, z) \<in> edges s'" using step(2) pop_edges [OF Suc.prems(1)] pop by auto
    then show ?case using step by (meson trancl_into_trancl)
  qed
  have "x \<notin> set ready" using tranclD2 [OF Suc.prems(2)] ready by blast
  then have "(x, x) \<in> (edges s')\<^sup>+" using on Suc.prems(2) by blast
  then have "drain n is_empty pop s' = (Hang :: ('e, _) outcome)"
    using Suc.IH [of s'] pop_ok [OF Suc.prems(1)] pop by simp
  moreover have "x \<in> nodes s" using trancl_subset_Sigma [OF edges_nodes [OF Suc.prems(1)]] Suc.prems(2) by blast
  ultimately show ?case using is_empty_iff [OF Suc.prems(1)] pop by (subst drain.simps) auto
qed

end

section \<open>The implementations\<close>

definition ts_edges :: "'a topological_sort \<Rightarrow> ('a \<times> 'a) set" where
  "ts_edges t = {(b, a). \<exists>s. ts_deps t a = Some s \<and> b \<in> s}"

definition ts_ok :: "'a topological_sort \<Rightarrow> bool" where
  "ts_ok t \<longleftrightarrow> finite (dom (ts_deps t)) \<and>
     (\<forall>a s. ts_deps t a = Some s \<longrightarrow>
        (\<forall>b \<in> s. b \<in> dom (ts_deps t) \<and> (\<exists>r. ts_rdeps t b = Some r \<and> a \<in> r)))"

lemma ts_okD:
  assumes "ts_ok t"
  shows "finite (dom (ts_deps t))"
    and "ts_deps t a = Some s \<Longrightarrow> b \<in> s \<Longrightarrow> b \<in> dom (ts_deps t)"
    and "ts_deps t a = Some s \<Longrightarrow> b \<in> s \<Longrightarrow> \<exists>r. ts_rdeps t b = Some r \<and> a \<in> r"
  using assms unfolding ts_ok_def by blast+

lemma ts_new_ok [simp]: "ts_ok ts_new" "ts_edges ts_new = {}" "dom (ts_deps ts_new) = {}"
  by (simp_all add: ts_new_def ts_ok_def ts_edges_def)

lemma or_default_lookup: "or_default k m x = (if x = k \<and> m k = None then Some {} else m x)"
  by (auto simp: or_default_def split: option.splits)

lemma entry_insert_lookup:
  "entry_insert k v m x = (if x = k then Some (insert v (case m k of None \<Rightarrow> {} | Some s \<Rightarrow> s)) else m x)"
  by (simp add: entry_insert_def)

lemmas entry_simps = or_default_lookup entry_insert_lookup

lemma add_dependency_graph [simp]:
  "dom (ts_deps (add_dependency b a t)) = insert b (insert a (dom (ts_deps t)))"
  "ts_edges (add_dependency b a t) = insert (b, a) (ts_edges t)"
  by (auto simp: add_dependency_def ts_edges_def entry_simps dom_def split: if_splits option.splits)

lemma add_node_graph [simp]:
  "dom (ts_deps (add_node a t)) = insert a (dom (ts_deps t))"
  "ts_edges (add_node a t) = ts_edges t"
  by (auto simp: add_node_def ts_edges_def entry_simps dom_def split: if_splits)

lemma add_dependency_ok [simp]: "ts_ok t \<Longrightarrow> ts_ok (add_dependency b a t)"
  unfolding ts_ok_def add_dependency_graph
  by (fastforce simp: add_dependency_def entry_simps split: if_splits option.splits)

lemma add_node_ok [simp]: "ts_ok t \<Longrightarrow> ts_ok (add_node a t)"
  unfolding ts_ok_def add_node_graph by (fastforce simp: add_node_def entry_simps split: if_splits)

text \<open>Popping a set of nodes removes them and takes them out of the predecessor sets.\<close>

definition popped :: "'a set \<Rightarrow> ('a \<rightharpoonup> 'a set) \<Rightarrow> ('a \<rightharpoonup> 'a set)" where
  "popped R deps = (\<lambda>n. if n \<in> R then None else map_option (\<lambda>s. s - R) (deps n))"

text \<open>The reverse index still covers all nodes that are not yet popped.\<close>

definition indexed :: "'a topological_sort \<Rightarrow> bool" where
  "indexed t \<longleftrightarrow> (\<forall>a s. ts_deps t a = Some s \<longrightarrow> (\<forall>b \<in> s. \<exists>r. ts_rdeps t b = Some r \<and> a \<in> r))"

lemma indexedD: "indexed t \<Longrightarrow> ts_deps t a = Some s \<Longrightarrow> b \<in> s \<Longrightarrow> \<exists>r. ts_rdeps t b = Some r \<and> a \<in> r"
  unfolding indexed_def by blast

lemma pop_node_deps: "indexed t \<Longrightarrow> ts_deps (pop_node n t) = popped {n} (ts_deps t)"
proof (rule ext)
  fix x assume "indexed t"
  then show "ts_deps (pop_node n t) x = popped {n} (ts_deps t) x"
    by (cases "ts_rdeps t n"; cases "ts_deps t x") (auto simp: pop_node_def popped_def Let_def dest: indexedD)
qed

lemma pop_node_indexed: "indexed t \<Longrightarrow> indexed (pop_node n t)"
  unfolding indexed_def [of "pop_node n t"] pop_node_deps
  by (auto simp: popped_def pop_node_def Let_def split: if_splits option.splits dest: indexedD)

lemma popped_Un: "popped A (popped B deps) = popped (A \<union> B) deps"
  by (rule ext) (auto simp: popped_def option.map_comp comp_def Diff_Diff_Int intro!: option.map_cong)

lemma popped_empty [simp]: "popped {} deps = deps"
  by (rule ext) (simp add: popped_def option.map_ident)

lemma fold_pop_node:
  "indexed t \<Longrightarrow> ts_deps (fold pop_node ns t) = popped (set ns) (ts_deps t) \<and> indexed (fold pop_node ns t)"
  by (induction ns arbitrary: t) (simp_all add: pop_node_deps pop_node_indexed popped_Un Un_commute)

lemma ts_ok_indexed: "ts_ok t \<Longrightarrow> indexed t"
  unfolding indexed_def by (blast dest: ts_okD)

lemma ts_ok_iff: "ts_ok t \<longleftrightarrow> finite (dom (ts_deps t)) \<and> indexed t \<and> ts_edges t \<subseteq> dom (ts_deps t) \<times> dom (ts_deps t)"
  unfolding ts_ok_def indexed_def ts_edges_def by blast

lemma pop_list_graph:
  assumes "ts_ok t"
  shows "dom (ts_deps (fold pop_node ns t)) = dom (ts_deps t) - set ns"
    and "ts_edges (fold pop_node ns t) = {(b, a) \<in> ts_edges t. b \<notin> set ns \<and> a \<notin> set ns}"
    and "ts_ok (fold pop_node ns t)"
proof -
  note deps = fold_pop_node [OF ts_ok_indexed [OF assms], of ns]
  show dom: "dom (ts_deps (fold pop_node ns t)) = dom (ts_deps t) - set ns"
    using deps by (auto simp: popped_def split: if_splits)
  show E: "ts_edges (fold pop_node ns t) = {(b, a) \<in> ts_edges t. b \<notin> set ns \<and> a \<notin> set ns}"
    using deps by (auto simp: ts_edges_def popped_def split: if_splits)
  show "ts_ok (fold pop_node ns t)"
    using deps assms unfolding ts_ok_iff dom E by auto
qed

lemma ts_ready_graph: "ts_ready t = {n \<in> dom (ts_deps t). \<forall>b. (b, n) \<notin> ts_edges t}"
  by (auto simp: ts_ready_def ts_edges_def)

lemma finite_ready: "ts_ok t \<Longrightarrow> finite (ts_ready t)"
  using ts_okD(1) by (auto simp: ts_ready_def intro: finite_subset)

lemma pop_ready_edges:
  "ts_ok t \<Longrightarrow> set ns = ts_ready t \<Longrightarrow> ts_edges (fold pop_node ns t) = {(b, a) \<in> ts_edges t. b \<notin> set ns}"
  by (auto simp: pop_list_graph ts_ready_graph)

lemma iter_ready: "iterates iter \<Longrightarrow> ts_ok t \<Longrightarrow> set (iter (ts_ready t)) = ts_ready t \<and> distinct (iter (ts_ready t))"
  by (simp add: iterates_def finite_ready)

lemma ts_graph_nodes: "ts_ok t \<Longrightarrow> ts_edges t \<subseteq> dom (ts_deps t) \<times> dom (ts_deps t)"
  by (simp add: ts_ok_iff)

lemma pops_ready_frontier_sort:
  assumes "\<And>t. ts_ok t \<Longrightarrow> pop t = (ready t, fold pop_node (ready t) t)"
    and "\<And>t. ts_ok t \<Longrightarrow> set (ready t) = ts_ready t \<and> distinct (ready t)"
  shows "frontier_sort ts_ok (\<lambda>t. dom (ts_deps t)) ts_edges ts_is_empty pop"
  using assms by unfold_locales
    (simp_all add: ts_okD(1) ts_graph_nodes ts_is_empty_def pop_list_graph(1,3) pop_ready_edges ts_ready_graph [symmetric])

lemma pop_all_frontier_sort:
  "iterates iter \<Longrightarrow> frontier_sort ts_ok (\<lambda>t. dom (ts_deps t)) ts_edges ts_is_empty (pop_all iter)"
  by (rule pops_ready_frontier_sort [where ready = "\<lambda>t. iter (ts_ready t)"]) (simp_all add: pop_all_def Let_def iter_ready)

lemma pop_frontier_frontier_sort:
  "iterates iter \<Longrightarrow> frontier_sort ts_ok (\<lambda>t. dom (ts_deps t)) ts_edges ts_is_empty (pop_frontier iter)"
  by (rule pops_ready_frontier_sort [where ready = "\<lambda>t. sort (iter (ts_ready t))"])
    (simp_all add: pop_frontier_def Let_def iter_ready)

text \<open>The instances for ordered collections, the \<open>BTreeMap\<close> of the builds without \<open>std\<close>.\<close>

interpretation beekem_sort: frontier_sort ts_ok "\<lambda>t. dom (ts_deps t)" ts_edges ts_is_empty "pop_all sorted_list_of_set"
  by (rule pop_all_frontier_sort [OF iterates_sorted])

interpretation core_sort: frontier_sort ts_ok "\<lambda>t. dom (ts_deps t)" ts_edges ts_is_empty "pop_frontier sorted_list_of_set"
  by (rule pop_frontier_frontier_sort [OF iterates_sorted])

text \<open>\<open>pop_frontier\<close> does not depend on the iteration order.\<close>

lemma pop_frontier_deterministic:
  "iterates iter \<Longrightarrow> ts_ok t \<Longrightarrow> pop_frontier iter t = pop_frontier sorted_list_of_set t"
  by (simp add: pop_frontier_def sort_iter finite_ready sorted_sort_id)

section \<open>Properties\<close>

definition add_dependencies :: "('a \<times> 'a) list \<Rightarrow> 'a topological_sort \<Rightarrow> 'a topological_sort" where
  "add_dependencies ds t = fold (\<lambda>(b, a). add_dependency b a) ds t"

lemma add_dependencies_graph:
  "ts_ok t \<Longrightarrow> ts_ok (add_dependencies ds t) \<and> ts_edges (add_dependencies ds t) = set ds \<union> ts_edges t \<and>
     dom (ts_deps (add_dependencies ds t)) = Field (set ds) \<union> dom (ts_deps t)"
proof (induction ds arbitrary: t)
  case (Cons d ds)
  obtain b a where "d = (b, a)" by fastforce
  then show ?case using Cons.IH [of "add_dependency b a t"] Cons.prems
    by (simp add: add_dependencies_def Field_def) blast
qed (simp add: add_dependencies_def)

lemmas add_dependencies_new =
  add_dependencies_graph [OF ts_new_ok(1), unfolded ts_new_ok Un_empty_right]

text \<open>
  C14: Take any list of dependencies, put into a new sorter. If they are acyclic, popping until
  the sorter is empty ends within one round per node, for every iteration order of the hash
  maps, and the popped layers hold each node exactly once and each after all it depends on.
  If they have a cycle, the loop never ends.
\<close>

theorem topsort_drains_iff_acyclic:
  assumes "iterates iter"
  shows "(acyclic (set ds) \<longrightarrow>
      (\<forall>n \<ge> card (Field (set ds)). \<exists>layers.
         drain n ts_is_empty (pop_all iter) (add_dependencies ds ts_new) = (Ok layers :: ('e, _) outcome) \<and>
         set (concat layers) = Field (set ds) \<and> distinct (concat layers) \<and> topological (set ds) (concat layers))) \<and>
    (\<not> acyclic (set ds) \<longrightarrow>
      (\<forall>n. drain n ts_is_empty (pop_all iter) (add_dependencies ds ts_new) = (Hang :: ('e, 'a list list) outcome)))"
proof -
  note g = add_dependencies_new [of ds]
  show ?thesis
    using frontier_sort.drain_acyclic [OF pop_all_frontier_sort [OF assms], of "add_dependencies ds ts_new"]
      frontier_sort.drain_cyclic [OF pop_all_frontier_sort [OF assms], of "add_dependencies ds ts_new"] g
    unfolding acyclic_def by (metis (no_types, lifting))
qed

theorem topsort_drains_iff_acyclic_witness:
  "\<exists>layers. drain 3 ts_is_empty (pop_all sorted_list_of_set) (add_dependencies [(1, 2), (1, 3)] ts_new) =
     (Ok layers :: (unit, nat list list) outcome) \<and> set (concat layers) = {1, 2, 3}"
proof -
  have "acyclic (set [(1, 2), (1, 3 :: nat)])"
    by (rule acyclicI_order [of _ "\<lambda>n. - int n"]) auto
  then obtain layers where "drain 3 ts_is_empty (pop_all sorted_list_of_set) (add_dependencies [(1, 2), (1, 3)] ts_new) =
      (Ok layers :: (unit, nat list list) outcome)" "set (concat layers) = Field (set [(1, 2), (1, 3)])"
    using topsort_drains_iff_acyclic [OF iterates_sorted, of "[(1, 2), (1, 3 :: nat)]", where 'e = unit,
        THEN conjunct1, rule_format, of 3] by (auto simp: Field_def)
  then show ?thesis by (auto simp: Field_def)
qed

end
