(* ===== verification/Op_Graph.thy ===== *)
theory Op_Graph
  imports Bee_Kem Ca_Map Topsort
begin

text \<open>
  CGKA operations and their causal graph (\<open>beekem/src/operation.rs\<close>). \<open>Digest::hash\<close> of a signed
  operation is the argument \<open>h\<close>, the iteration order of the hash sets is the argument \<open>iter\<close>.

  A graph that grew by causally ordered deliveries is determined by the set of its operations
  (\<open>graph_of\<close>); its ordering into epochs is the subject of the next theory.
\<close>

section \<open>Operations\<close>

datatype cgka_operation =
    Add (added_id: member_id) (add_pk: share_key) (add_leaf_index: u32)
      (op_preds: "digest list") (op_add_preds: "digest list") (op_doc_id: tree_id)
  | Remove (removed_id: member_id) (removed_leaf_idx: u32) (removed_keys: "share_key list")
      (op_preds: "digest list") (op_doc_id: tree_id)
  | Update (updated_id: member_id) (new_path: path_change) (op_preds: "digest list") (op_doc_id: tree_id)

type_synonym signed_op = "cgka_operation signed"

definition init_add :: "tree_id \<Rightarrow> member_id \<Rightarrow> share_key \<Rightarrow> cgka_operation" where
  "init_add doc added pk = Add added pk 0 [] [] doc"

fun predecessors :: "cgka_operation \<Rightarrow> digest set" where
  "predecessors (Add _ _ _ preds _ _) = set preds"
| "predecessors (Remove _ _ _ preds _) = set preds"
| "predecessors (Update _ _ preds _) = set preds"

fun doc_id :: "cgka_operation \<Rightarrow> tree_id" where
  "doc_id (Add _ _ _ _ _ doc) = doc"
| "doc_id (Remove _ _ _ _ doc) = doc"
| "doc_id (Update _ _ _ doc) = doc"

text \<open>\<open>CgkaEpoch\<close>, a \<open>NonEmpty\<close> list of operations.\<close>

type_synonym cgka_epoch = "signed_op list"

section \<open>The graph\<close>

record op_graph =
  cgka_ops :: "signed_op ca_map"
  cgka_ops_predecessors :: "digest \<rightharpoonup> digest set"
  cgka_op_heads :: "digest set"
  add_heads :: "digest set"

definition graph_fork :: "op_graph \<Rightarrow> op_graph" where
  "graph_fork g = g"

definition graph_merge :: "op_graph \<Rightarrow> op_graph \<Rightarrow> op_graph" where
  "graph_merge g fork = g\<lparr>
     cgka_ops := ca_merge (cgka_ops g) (cgka_ops fork),
     cgka_ops_predecessors := cgka_ops_predecessors g ++ cgka_ops_predecessors fork,
     cgka_op_heads := cgka_op_heads g \<union> cgka_op_heads fork,
     add_heads := add_heads g \<union> add_heads fork \<rparr>"

definition graph_new :: op_graph where
  "graph_new = \<lparr> cgka_ops = ca_new, cgka_ops_predecessors = Map.empty, cgka_op_heads = {}, add_heads = {} \<rparr>"

definition contains_op_hash :: "op_graph \<Rightarrow> digest \<Rightarrow> bool" where
  "contains_op_hash g op_hash \<longleftrightarrow> ca_contains_key (cgka_ops g) op_hash"

definition contains_predecessors :: "op_graph \<Rightarrow> digest set \<Rightarrow> bool" where
  "contains_predecessors g preds \<longleftrightarrow> (\<forall>hash \<in> preds. ca_contains_key (cgka_ops g) hash)"

definition has_single_head :: "op_graph \<Rightarrow> bool" where
  "has_single_head g \<longleftrightarrow> card (cgka_op_heads g) = 1"

definition is_add_op :: "op_graph \<Rightarrow> digest \<Rightarrow> bool cgka_result" where
  "is_add_op g hash = map_ok (\<lambda>op. is_Add (sg_payload op)) (expect (ca_get (cgka_ops g) hash))"

definition add_op_and_update_heads ::
    "(signed_op \<Rightarrow> digest) \<Rightarrow> signed_op \<Rightarrow> digest set option \<Rightarrow> op_graph \<Rightarrow> op_graph cgka_result" where
  "add_op_and_update_heads h op external_heads g =
     (let op_hash = h op;
          g1 = g\<lparr> cgka_ops := snd (ca_insert h op (cgka_ops g)) \<rparr> in
      and_then (is_add_op g1 op_hash) (\<lambda>is_add.
      let (op_predecessors, g2) = (case external_heads of
            Some heads \<Rightarrow>
              (heads, g1\<lparr> cgka_op_heads := cgka_op_heads g1 - heads,
                add_heads := (case sg_payload op of
                    Add _ _ _ _ add_predecessors _ \<Rightarrow> add_heads g1 - set add_predecessors
                  | _ \<Rightarrow> add_heads g1) \<rparr>)
          | None \<Rightarrow>
              (cgka_op_heads g1, g1\<lparr> cgka_op_heads := {},
                add_heads := (if is_add then {} else add_heads g1) \<rparr>));
          g3 = g2\<lparr> cgka_op_heads := insert op_hash (cgka_op_heads g2) \<rparr> in
      map_ok (\<lambda>is_add.
          let g4 = (if is_add then g3\<lparr> add_heads := insert op_hash (add_heads g3) \<rparr> else g3) in
          g4\<lparr> cgka_ops_predecessors := (cgka_ops_predecessors g4)(op_hash \<mapsto> op_predecessors) \<rparr>)
        (is_add_op g3 op_hash)))"

definition add_local_op :: "(signed_op \<Rightarrow> digest) \<Rightarrow> signed_op \<Rightarrow> op_graph \<Rightarrow> op_graph cgka_result" where
  "add_local_op h op g = add_op_and_update_heads h op None g"

definition add_op :: "(signed_op \<Rightarrow> digest) \<Rightarrow> signed_op \<Rightarrow> digest set \<Rightarrow> op_graph \<Rightarrow> op_graph cgka_result" where
  "add_op h op heads g = add_op_and_update_heads h op (Some heads) g"

definition heads_contained_in :: "op_graph \<Rightarrow> digest set \<Rightarrow> bool" where
  "heads_contained_in g heads \<longleftrightarrow> cgka_op_heads g \<subseteq> heads"

definition predecessors_for :: "op_graph \<Rightarrow> digest \<Rightarrow> digest set option" where
  "predecessors_for g op_hash = cgka_ops_predecessors g op_hash"

section \<open>Ordering into epochs\<close>

record walk =
  wk_dependencies :: "digest topological_sort"
  wk_successors :: "digest \<rightharpoonup> digest set"
  wk_frontier :: "digest list"
  wk_seen :: "digest set"

text \<open>The three initial loops over the heads, and the loop over the predecessors of one operation.\<close>

definition walk_start :: "digest list \<Rightarrow> walk" where
  "walk_start heads = \<lparr> wk_dependencies = ts_new, wk_successors = fold (\<lambda>hd m. m(hd \<mapsto> {})) heads Map.empty,
     wk_frontier = heads, wk_seen = set heads \<rparr>"

definition walk_pred :: "digest \<Rightarrow> digest \<Rightarrow> walk \<Rightarrow> walk" where
  "walk_pred op_hash update_pred w =
     (let w1 = w\<lparr> wk_dependencies := add_dependency update_pred op_hash (wk_dependencies w),
                  wk_successors := entry_insert update_pred op_hash (wk_successors w) \<rparr> in
      if update_pred \<in> wk_seen w1 then w1
      else w1\<lparr> wk_seen := insert update_pred (wk_seen w1), wk_frontier := wk_frontier w1 @ [update_pred] \<rparr>)"

fun walk_loop :: "(digest set \<Rightarrow> digest list) \<Rightarrow> op_graph \<Rightarrow> nat \<Rightarrow> walk \<Rightarrow> walk cgka_result" where
  "walk_loop iter g fuel w = (case wk_frontier w of
     [] \<Rightarrow> Ok w
   | op_hash # rest \<Rightarrow> (case fuel of
       0 \<Rightarrow> Hang
     | Suc n \<Rightarrow>
         and_then (ok_or OperationNotFound (predecessors_for g op_hash)) (\<lambda>preds.
         walk_loop iter g n (fold (walk_pred op_hash) (iter preds) (w\<lparr> wk_frontier := rest \<rparr>)))))"

declare walk_loop.simps [simp del]

record epochs =
  ep_dependencies :: "digest topological_sort"
  ep_successors :: "digest \<rightharpoonup> digest set"
  ep_heads :: "digest set"
  ep_next :: cgka_epoch
  ep_done :: "cgka_epoch list"

text \<open>The loop that makes each popped hash an epoch head; a hash without successor becomes its own.\<close>

definition enter_head :: "digest set \<times> (digest \<rightharpoonup> digest set) \<Rightarrow> digest \<Rightarrow> (digest set \<times> (digest \<rightharpoonup> digest set)) cgka_result" where
  "enter_head = (\<lambda>(heads, succs) hash.
     map_ok (\<lambda>s. (insert hash heads, if s = {} then succs(hash \<mapsto> {hash}) else succs)) (expect (succs hash)))"

text \<open>The loop that takes a popped hash out of the successors of every other epoch head.\<close>

definition drop_successor ::
    "(digest set \<Rightarrow> digest list) \<Rightarrow> digest set \<Rightarrow> (digest \<rightharpoonup> digest set) \<Rightarrow> digest \<Rightarrow> (digest \<rightharpoonup> digest set) cgka_result" where
  "drop_successor iter heads succs hash =
     fold_ok (\<lambda>succs hd. if hash = hd then Ok succs
       else map_ok (\<lambda>s. succs(hd \<mapsto> s - {hash})) (expect (succs hd))) succs (iter heads)"

definition open_heads ::
    "(digest set \<Rightarrow> digest list) \<Rightarrow> digest set \<Rightarrow> (digest \<rightharpoonup> digest set) \<Rightarrow> digest set cgka_result" where
  "open_heads iter heads succs =
     fold_ok (\<lambda>acc hd. map_ok (\<lambda>s. if s = {} then acc else insert hd acc) (expect (succs hd))) {} (iter heads)"

definition push_epoch :: "bool \<Rightarrow> epochs \<Rightarrow> epochs" where
  "push_epoch end_epoch e =
     (if end_epoch \<and> ep_next e \<noteq> [] then e\<lparr> ep_next := [], ep_done := ep_done e @ [ep_next e] \<rparr> else e)"

definition epoch_step ::
    "(digest set \<Rightarrow> digest list) \<Rightarrow> op_graph \<Rightarrow> epochs \<Rightarrow> epochs cgka_result" where
  "epoch_step iter g e =
     (let (popped, deps) = pop_all iter (ep_dependencies e);
          next_set = sort popped in
      and_then (fold_ok enter_head (ep_heads e, ep_successors e) next_set) (\<lambda>(heads, succs).
      and_then (fold_ok (drop_successor iter heads) succs next_set) (\<lambda>succs.
      and_then (open_heads iter heads succs) (\<lambda>heads.
      let should_end_epoch = (card heads \<le> 1);
          e1 = push_epoch should_end_epoch
            (e\<lparr> ep_dependencies := deps, ep_successors := succs, ep_heads := heads \<rparr>) in
      map_ok (push_epoch should_end_epoch)
        (fold_ok (\<lambda>e hash. map_ok (\<lambda>op. e\<lparr> ep_next := ep_next e @ [op] \<rparr>)
            (ok_or OperationNotFound (ca_get (cgka_ops g) hash))) e1 next_set)))))"

fun epoch_loop :: "(digest set \<Rightarrow> digest list) \<Rightarrow> op_graph \<Rightarrow> nat \<Rightarrow> epochs \<Rightarrow> epochs cgka_result" where
  "epoch_loop iter g fuel e =
     (if ts_is_empty (ep_dependencies e) then Ok e
      else case fuel of
        0 \<Rightarrow> Hang
      | Suc n \<Rightarrow> and_then (epoch_step iter g e) (epoch_loop iter g n))"

declare epoch_loop.simps [simp del]

text \<open>\<open>NonEmpty::from_vec(v).expect(..)\<close>.\<close>

definition nonempty :: "'a list \<Rightarrow> 'a list cgka_result" where
  "nonempty v = (if v = [] then Panic else Ok v)"

text \<open>
  Every hash enters the frontier once and a hash without an entry ends the walk, so the number
  of entries and one more bounds the walk; a round of the second loop pops at least one hash
  or the loop never ends.
\<close>

definition topsort_for_heads ::
    "(digest set \<Rightarrow> digest list) \<Rightarrow> op_graph \<Rightarrow> digest set \<Rightarrow> cgka_epoch list cgka_result" where
  "topsort_for_heads iter g heads =
     and_then (walk_loop iter g (Suc (card (dom (cgka_ops_predecessors g)))) (walk_start (iter heads))) (\<lambda>w.
     if ts_is_empty (wk_dependencies w) then
       and_then (fold_ok (\<lambda>acc hash. map_ok (\<lambda>op. acc @ [op]) (expect (ca_get (cgka_ops g) hash))) [] (iter heads))
         (\<lambda>single_epoch. map_ok (\<lambda>ep. [ep]) (nonempty single_epoch))
     else
       and_then (epoch_loop iter g (card (dom (ts_deps (wk_dependencies w))))
           \<lparr> ep_dependencies = wk_dependencies w, ep_successors = wk_successors w, ep_heads = {},
             ep_next = [], ep_done = [] \<rparr>) (\<lambda>e.
       nonempty (ep_done (push_epoch True e))))"

definition topsort_graph :: "(digest set \<Rightarrow> digest list) \<Rightarrow> op_graph \<Rightarrow> cgka_epoch list cgka_result" where
  "topsort_graph iter g = topsort_for_heads iter g (cgka_op_heads g)"

section \<open>What the graph stands for\<close>

definition add_predecessors :: "cgka_operation \<Rightarrow> digest set" where
  "add_predecessors op = (case op of Add _ _ _ _ add_preds _ \<Rightarrow> set add_preds | _ \<Rightarrow> {})"

abbreviation preds :: "signed_op \<Rightarrow> digest set" where
  "preds op \<equiv> predecessors (sg_payload op)"

abbreviation add_preds :: "signed_op \<Rightarrow> digest set" where
  "add_preds op \<equiv> add_predecessors (sg_payload op)"

text \<open>Sets of operations that grew by delivering each operation after the ones it names.\<close>

inductive causal_set :: "(signed_op \<Rightarrow> digest) \<Rightarrow> signed_op set \<Rightarrow> bool" for h where
  causal_empty: "causal_set h {}"
| causal_insert: "causal_set h S \<Longrightarrow> h op \<notin> h ` S \<Longrightarrow> preds op \<subseteq> h ` S \<Longrightarrow> add_preds op \<subseteq> h ` S \<Longrightarrow>
    causal_set h (insert op S)"

definition causes :: "(signed_op \<Rightarrow> digest) \<Rightarrow> signed_op set \<Rightarrow> (digest \<times> digest) set" where
  "causes h S = {(p, k). \<exists>op \<in> S. k = h op \<and> p \<in> preds op}"

text \<open>The specification: the graph of a set of operations.\<close>

definition represents :: "(signed_op \<Rightarrow> digest) \<Rightarrow> signed_op set \<Rightarrow> op_graph \<Rightarrow> bool" where
  "represents h S g \<longleftrightarrow>
     (\<forall>k op. cgka_ops g k = Some op \<longleftrightarrow> op \<in> S \<and> h op = k) \<and>
     (\<forall>k ps. cgka_ops_predecessors g k = Some ps \<longleftrightarrow> (\<exists>op \<in> S. h op = k \<and> preds op = ps)) \<and>
     cgka_op_heads g = h ` S - \<Union> (preds ` S) \<and>
     add_heads g = h ` {op \<in> S. is_Add (sg_payload op)} - \<Union> (add_preds ` S)"

lemma finite_preds [simp]: "finite (predecessors op)"
  by (cases op) simp_all

lemma causal_setD:
  assumes "causal_set h S"
  shows "finite S" "inj_on h S" "op \<in> S \<Longrightarrow> preds op \<subseteq> h ` S" "op \<in> S \<Longrightarrow> add_preds op \<subseteq> h ` S"
  using assms by (induction arbitrary: op) auto

lemma causes_Range: "causal_set h S \<Longrightarrow> causes h S \<subseteq> h ` S \<times> h ` S"
  using causal_setD(3) by (fastforce simp: causes_def)

lemma causes_insert: "causes h (insert op S) = {(p, h op) | p. p \<in> preds op} \<union> causes h S"
  by (auto simp: causes_def)

lemma causal_acyclic: "causal_set h S \<Longrightarrow> acyclic (causes h S)"
proof (induction rule: causal_set.induct)
  case causal_empty
  then show ?case by (simp add: causes_def wf_acyclic)
next
  case (causal_insert S op)
  let ?E = "causes h (insert op S)"
  have no: "(h op, k) \<notin> ?E" for k
    using causal_insert.hyps causes_Range [OF causal_insert.hyps(1)] by (auto simp: causes_insert)
  have "(x, y) \<in> (causes h S)\<^sup>+" if "(x, y) \<in> ?E\<^sup>+" "y \<noteq> h op" for x y
    using that
  proof (induction rule: trancl_induct)
    case (base y)
    then show ?case by (auto simp: causes_insert)
  next
    case (step y z)
    then have "y \<noteq> h op" "(y, z) \<in> causes h S" using no by (auto simp: causes_insert)
    then show ?case using step by (meson trancl_into_trancl)
  qed
  moreover have "(h op, y) \<notin> ?E\<^sup>+" for y using no by (meson tranclD)
  ultimately show ?case using causal_insert.IH unfolding acyclic_def by metis
qed

lemma representsD:
  assumes "represents h S g"
  shows "cgka_ops g k = Some op \<longleftrightarrow> op \<in> S \<and> h op = k"
    and "cgka_ops_predecessors g k = Some ps \<longleftrightarrow> (\<exists>op \<in> S. h op = k \<and> preds op = ps)"
    and "cgka_op_heads g = h ` S - \<Union> (preds ` S)"
    and "add_heads g = h ` {op \<in> S. is_Add (sg_payload op)} - \<Union> (add_preds ` S)"
  using assms by (simp_all only: represents_def)

lemma represents_dom:
  assumes "represents h S g"
  shows "dom (cgka_ops g) = h ` S" "dom (cgka_ops_predecessors g) = h ` S"
  by (auto simp: dom_def representsD(1,2) [OF assms])

lemma represents_unique:
  assumes "represents h S g" "represents h S g'"
  shows "g = g'"
proof -
  have eq: "m = m'" if "\<And>k v. m k = Some v \<longleftrightarrow> m' k = Some v" for m m' :: "digest \<rightharpoonup> 'v"
    using that by (metis not_Some_eq ext)
  have "cgka_ops g = cgka_ops g'"
    by (rule eq) (simp add: representsD(1) [OF assms(1)] representsD(1) [OF assms(2)])
  moreover have "cgka_ops_predecessors g = cgka_ops_predecessors g'"
    by (rule eq) (simp add: representsD(2) [OF assms(1)] representsD(2) [OF assms(2)])
  moreover have "cgka_op_heads g = cgka_op_heads g'" "add_heads g = add_heads g'"
    by (simp_all only: representsD(3,4) [OF assms(1)] representsD(3,4) [OF assms(2)])
  ultimately show ?thesis by (intro op_graph.equality) simp_all
qed

lemma represents_contains:
  assumes "represents h S g"
  shows "contains_op_hash g k \<longleftrightarrow> k \<in> h ` S" "contains_predecessors g ps \<longleftrightarrow> ps \<subseteq> h ` S"
proof -
  have "ca_contains_key (cgka_ops g) k \<longleftrightarrow> k \<in> h ` S" for k
    using represents_dom(1) [OF assms] by (auto simp: ca_contains_key_def)
  then show "contains_op_hash g k \<longleftrightarrow> k \<in> h ` S" "contains_predecessors g ps \<longleftrightarrow> ps \<subseteq> h ` S"
    by (auto simp: contains_op_hash_def contains_predecessors_def)
qed

section \<open>Adding operations\<close>

definition graph_added :: "(signed_op \<Rightarrow> digest) \<Rightarrow> signed_op \<Rightarrow> digest set \<Rightarrow> digest set \<Rightarrow> op_graph \<Rightarrow> op_graph" where
  "graph_added h op ps aps g = g\<lparr>
     cgka_ops := (cgka_ops g)(h op \<mapsto> op),
     cgka_ops_predecessors := (cgka_ops_predecessors g)(h op \<mapsto> ps),
     cgka_op_heads := insert (h op) (cgka_op_heads g - ps),
     add_heads := (if is_Add (sg_payload op) then insert (h op) (add_heads g - aps) else add_heads g) \<rparr>"

lemma add_op_eq: "add_op h op ps g = Ok (graph_added h op ps (add_preds op) g)"
  by (cases "sg_payload op")
    (simp_all add: add_op_def add_op_and_update_heads_def is_add_op_def ca_insert_def ca_get_def
      graph_added_def add_predecessors_def Let_def)

lemma add_local_op_eq: "add_local_op h op g = Ok (graph_added h op (cgka_op_heads g) (add_heads g) g)"
  by (simp add: add_local_op_def add_op_and_update_heads_def is_add_op_def ca_insert_def ca_get_def
      graph_added_def Let_def)

text \<open>A local operation that names the heads as its predecessors is added as the other replicas add it.\<close>

lemma add_local_op_as_remote:
  assumes "preds op = cgka_op_heads g" "is_Add (sg_payload op) \<Longrightarrow> add_preds op = add_heads g"
  shows "add_local_op h op g = add_op h op (preds op) g"
  using assms by (simp add: add_op_eq add_local_op_eq graph_added_def)

lemma represents_added:
  assumes S: "causal_set h S" and g: "represents h S g" and op: "h op \<notin> h ` S" "preds op \<subseteq> h ` S" "add_preds op \<subseteq> h ` S"
  shows "represents h (insert op S) (graph_added h op (preds op) (add_preds op) g)"
proof -
  have old: "h op \<notin> \<Union> (preds ` S)" "h op \<notin> \<Union> (add_preds ` S)" "h op \<notin> preds op" "h op \<notin> add_preds op"
    using causal_setD(3,4) [OF S] op by auto
  have "cgka_ops (graph_added h op (preds op) (add_preds op) g) k = Some op' \<longleftrightarrow> op' \<in> insert op S \<and> h op' = k" for k op'
    using op(1) by (auto simp: graph_added_def representsD(1) [OF g]) (metis imageI)
  moreover have "cgka_ops_predecessors (graph_added h op (preds op) (add_preds op) g) k = Some ps \<longleftrightarrow>
      (\<exists>op' \<in> insert op S. h op' = k \<and> preds op' = ps)" for k ps
    using op(1) by (auto simp: graph_added_def representsD(2) [OF g]) (metis imageI)+
  moreover have "is_Add (sg_payload op) \<or> add_preds op = {}"
    by (auto simp: add_predecessors_def split: cgka_operation.splits)
  ultimately show ?thesis
    using representsD(3,4) [OF g] old unfolding represents_def by (auto simp: graph_added_def)
qed

lemma represents_new: "represents h {} graph_new"
  by (simp add: represents_def graph_new_def ca_new_def)

text \<open>Delivering operations one by one.\<close>

definition deliver :: "(signed_op \<Rightarrow> digest) \<Rightarrow> op_graph \<Rightarrow> signed_op list \<Rightarrow> op_graph cgka_result" where
  "deliver h g ops = fold_ok (\<lambda>g op. add_op h op (preds op) g) g ops"

fun causal_order :: "(signed_op \<Rightarrow> digest) \<Rightarrow> signed_op set \<Rightarrow> signed_op list \<Rightarrow> bool" where
  "causal_order h S [] \<longleftrightarrow> True"
| "causal_order h S (op # ops) \<longleftrightarrow> h op \<notin> h ` S \<and> preds op \<subseteq> h ` S \<and> add_preds op \<subseteq> h ` S \<and>
     causal_order h (insert op S) ops"

lemma deliver_represents:
  assumes "causal_set h S" "represents h S g" "causal_order h S ops"
  shows "\<exists>g'. deliver h g ops = Ok g' \<and> represents h (S \<union> set ops) g' \<and> causal_set h (S \<union> set ops)"
  using assms
proof (induction ops arbitrary: S g)
  case (Cons op ops)
  let ?g = "graph_added h op (preds op) (add_preds op) g"
  have "causal_set h (insert op S)" using Cons.prems by (auto intro: causal_insert)
  moreover have "represents h (insert op S) ?g" using Cons.prems by (auto intro: represents_added)
  ultimately obtain g' where "deliver h ?g ops = Ok g'" "represents h (insert op S \<union> set ops) g'"
    "causal_set h (insert op S \<union> set ops)"
    using Cons.IH [of "insert op S" ?g] Cons.prems(3) by auto
  then show ?case by (auto simp: deliver_def add_op_eq)
qed (simp add: deliver_def)

section \<open>Properties\<close>

text \<open>
  C9 Refinement: the graph implements a growing set of operations. Delivering operations in any
  order that respects their predecessors always succeeds and ends in the graph that the set of
  delivered operations determines, so two replicas that received the same operations in
  different orders hold the same graph; its heads are the operations nothing follows, and an
  operation made locally with the heads as predecessors is added the way other replicas add it.
\<close>

theorem graph_refines_operation_set:
  assumes "causal_order h {} ops"
  shows "\<exists>g. deliver h graph_new ops = Ok g \<and> represents h (set ops) g \<and> acyclic (causes h (set ops)) \<and>
    (\<forall>ops'. causal_order h {} ops' \<and> set ops' = set ops \<longrightarrow> deliver h graph_new ops' = Ok g) \<and>
    (\<forall>op. preds op = cgka_op_heads g \<and> (is_Add (sg_payload op) \<longrightarrow> add_preds op = add_heads g) \<longrightarrow>
       add_local_op h op g = add_op h op (preds op) g)"
proof -
  have del: "\<exists>g. deliver h graph_new ops = Ok g \<and> represents h (set ops) g \<and> causal_set h (set ops)"
    if "causal_order h {} ops" for ops
    using deliver_represents [OF causal_empty represents_new that] by simp
  from del [OF assms] obtain g where g: "deliver h graph_new ops = Ok g" "represents h (set ops) g" "causal_set h (set ops)"
    by blast
  moreover have "deliver h graph_new ops' = Ok g" if "causal_order h {} ops'" "set ops' = set ops" for ops'
    using del [OF that(1)] that(2) represents_unique [OF g(2)] by auto
  ultimately show ?thesis using causal_acyclic [OF g(3)] add_local_op_as_remote by blast
qed

definition demo_hash :: "signed_op \<Rightarrow> digest" where
  "demo_hash op = Digest (sg_signature op)"

definition demo_update :: "byte \<Rightarrow> byte list \<Rightarrow> signed_op" where
  "demo_update n ps = signed_new (Update (MemberId [n]) \<lparr> pc_leaf_id = MemberId [n], pc_leaf_idx = 0,
     pc_leaf_pk = ShareKey (PublicKey [n]), pc_path = [], pc_removed_keys = [] \<rparr> (map (\<lambda>p. Digest [p]) ps) (TreeId [])) [0] [n]"

lemma demo_update_simps [simp]:
  "demo_hash (demo_update n ps) = Digest [n]" "preds (demo_update n ps) = (\<lambda>p. Digest [p]) ` set ps"
  "add_preds (demo_update n ps) = {}" "\<not> is_Add (sg_payload (demo_update n ps))"
  by (simp_all add: demo_hash_def demo_update_def signed_new_def add_predecessors_def)

theorem graph_refines_operation_set_witness:
  "deliver demo_hash graph_new [demo_update 1 [], demo_update 2 [1], demo_update 3 [1]] =
   deliver demo_hash graph_new [demo_update 1 [], demo_update 3 [1], demo_update 2 [1]]"
proof -
  have "causal_order demo_hash {} [demo_update 1 [], demo_update 2 [1], demo_update 3 [1]]"
    "causal_order demo_hash {} [demo_update 1 [], demo_update 3 [1], demo_update 2 [1]]" by simp_all
  moreover have "set [demo_update 1 [], demo_update 3 [1], demo_update 2 [1]] =
      set [demo_update 1 [], demo_update 2 [1], demo_update 3 [1]]" by auto
  ultimately show ?thesis
    using graph_refines_operation_set [of demo_hash "[demo_update 1 [], demo_update 2 [1], demo_update 3 [1]]"] by metis
qed

text \<open>
  C32 Merging a fork keeps superseded heads: after a fork has added one operation on top of the
  graph, the fork has that operation as its only head, but the graph merged with the fork,
  which holds the same operations, still has all the old heads next to it.
\<close>

theorem graph_merge_keeps_old_heads:
  assumes S: "causal_set h S" and g: "represents h S g" and op: "h op \<notin> h ` S" and heads: "cgka_op_heads g \<noteq> {}"
    and f: "add_local_op h op (graph_fork g) = Ok f"
  shows "cgka_ops (graph_merge g f) = cgka_ops f \<and> cgka_ops_predecessors (graph_merge g f) = cgka_ops_predecessors f \<and>
    cgka_op_heads f = {h op} \<and> cgka_op_heads (graph_merge g f) = insert (h op) (cgka_op_heads g) \<and>
    has_single_head f \<and> \<not> has_single_head (graph_merge g f)"
proof -
  have f': "f = graph_added h op (cgka_op_heads g) (add_heads g) g"
    using f by (simp add: add_local_op_eq graph_fork_def)
  have "cgka_ops g (h op) = None" "cgka_ops_predecessors g (h op) = None"
    using represents_dom [OF g] op by (auto simp: dom_def)
  then have eqs: "cgka_ops (graph_merge g f) = cgka_ops f" "cgka_ops_predecessors (graph_merge g f) = cgka_ops_predecessors f"
    "cgka_op_heads f = {h op}" "cgka_op_heads (graph_merge g f) = insert (h op) (cgka_op_heads g)"
    by (auto simp: f' graph_added_def graph_merge_def ca_merge_def map_add_def fun_eq_iff split: option.split)
  have "h op \<notin> cgka_op_heads g" "finite (cgka_op_heads g)"
    using op causal_setD(1) [OF S] by (simp_all add: representsD(3) [OF g])
  then have "card (insert (h op) (cgka_op_heads g)) \<noteq> 1" using heads by (simp add: card_gt_0_iff)
  then show ?thesis using eqs by (simp add: has_single_head_def)
qed

theorem graph_merge_keeps_old_heads_witness:
  "\<exists>g f. deliver demo_hash graph_new [demo_update 1 []] = Ok g \<and>
     add_local_op demo_hash (demo_update 2 [1]) (graph_fork g) = Ok f \<and> \<not> has_single_head (graph_merge g f)"
proof -
  have co: "causal_order demo_hash {} [demo_update 1 []]" by simp
  obtain g where g: "deliver demo_hash graph_new [demo_update 1 []] = Ok g" "represents demo_hash {demo_update 1 []} g"
    "causal_set demo_hash {demo_update 1 []}"
    using deliver_represents [OF causal_empty represents_new co] by auto
  moreover have "cgka_op_heads g \<noteq> {}" by (simp add: representsD(3) [OF g(2)])
  ultimately show ?thesis
    using graph_merge_keeps_old_heads [OF g(3,2), of "demo_update 2 [1]"]
    by (auto simp: add_local_op_eq)
qed

end
