(* ===== verification/Op_Epochs.thy ===== *)
theory Op_Epochs
  imports Op_Graph
begin

text \<open>
  The ordering of the operation graph into epochs (\<open>topsort_for_heads\<close> in
  \<open>beekem/src/operation.rs\<close>). The specification \<open>epochs_from\<close> works on the bare graph of
  hashes: it collects layers of minimal hashes into an epoch and closes the epoch when at most
  one collected hash still has an uncollected successor or has none at all.

  Shown: an epoch is closed only at a hash that is comparable to every other one, so each
  operation of an epoch causally precedes all operations of later epochs; the two loops of
  the code compute the specification for every iteration order of the hash sets; and an
  operation on top of all heads adds one epoch at the end and changes none.
\<close>

section \<open>Specification\<close>

definition ready_at :: "'a set \<Rightarrow> ('a \<times> 'a) set \<Rightarrow> 'a set \<Rightarrow> 'a set" where
  "ready_at N E P = {n \<in> N - P. \<forall>b. (b, n) \<in> E \<longrightarrow> b \<in> P}"

definition open_at :: "('a \<times> 'a) set \<Rightarrow> 'a set \<Rightarrow> 'a set" where
  "open_at E P = {p \<in> P. E `` {p} = {} \<or> \<not> E `` {p} \<subseteq> P}"

lemma ready_less: "finite N \<Longrightarrow> ready_at N E P \<noteq> {} \<Longrightarrow> card (N - (P \<union> ready_at N E P)) < card (N - P)"
  by (intro psubset_card_mono) (auto simp: ready_at_def)

definition close_epoch :: "'a list \<Rightarrow> 'a list list" where
  "close_epoch cur = (if cur = [] then [] else [cur])"

function epochs_from :: "('a :: linorder) set \<Rightarrow> ('a \<times> 'a) set \<Rightarrow> 'a set \<Rightarrow> 'a list \<Rightarrow> 'a list list" where
  "epochs_from N E P cur =
     (let R = ready_at N E P; ns = sorted_list_of_set R in
      if \<not> finite N \<or> R = {} then close_epoch cur
      else if card (open_at E (P \<union> R)) \<le> 1 then close_epoch cur @ ns # epochs_from N E (P \<union> R) []
      else epochs_from N E (P \<union> R) (cur @ ns))"
  by pat_completeness auto

termination
  by (relation "measure (\<lambda>(N, E, P, cur). card (N - P))") (auto intro!: ready_less)

declare epochs_from.simps [simp del]

section \<open>Closing an epoch\<close>

definition down_closed :: "('a \<times> 'a) set \<Rightarrow> 'a set \<Rightarrow> bool" where
  "down_closed E P \<longleftrightarrow> (\<forall>b a. (b, a) \<in> E \<and> a \<in> P \<longrightarrow> b \<in> P)"

lemma down_closed_ready: "down_closed E P \<Longrightarrow> down_closed E (P \<union> ready_at N E P)"
  by (auto simp: down_closed_def ready_at_def)

lemma ready_succ_disjoint:
  assumes "down_closed E P" "r \<in> ready_at N E P" "acyclic E"
  shows "E `` {r} \<inter> (P \<union> ready_at N E P) = {}"
  using assms by (auto simp: down_closed_def ready_at_def)

lemma ready_open:
  "down_closed E P \<Longrightarrow> acyclic E \<Longrightarrow> ready_at N E P \<subseteq> open_at E (P \<union> ready_at N E P)"
  using ready_succ_disjoint by (fastforce simp: open_at_def)

definition is_dag :: "'a set \<Rightarrow> ('a \<times> 'a) set \<Rightarrow> bool" where
  "is_dag N E \<longleftrightarrow> finite N \<and> E \<subseteq> N \<times> N \<and> acyclic E"

lemma is_dagD:
  assumes "is_dag N E"
  shows "finite N" "E \<subseteq> N \<times> N" "acyclic E" "wf E" "wf (E\<inverse>)"
proof -
  show *: "finite N" "E \<subseteq> N \<times> N" "acyclic E" using assms by (simp_all add: is_dag_def)
  then have "finite E" by (intro finite_subset [OF *(2)]) simp
  then show "wf E" "wf (E\<inverse>)" using *(3) by (rule finite_acyclic_wf, rule finite_acyclic_wf_converse)
qed

lemma ready_nonempty:
  assumes dag: "is_dag N E" and P: "down_closed E P" "\<not> N \<subseteq> P"
  shows "ready_at N E P \<noteq> {}"
proof -
  obtain x where "x \<in> N - P" using P(2) by blast
  from wfE_min [OF is_dagD(4) [OF dag] this] obtain n where "n \<in> N - P" "\<And>b. (b, n) \<in> E \<Longrightarrow> b \<notin> N - P" by blast
  then have "n \<in> ready_at N E P" using is_dagD(2) [OF dag] by (auto simp: ready_at_def)
  then show ?thesis by blast
qed

lemma single_open:
  assumes dag: "is_dag N E" and P: "down_closed E P" "P \<subseteq> N" and R: "ready_at N E P \<noteq> {}"
    and card: "card (open_at E (P \<union> ready_at N E P)) \<le> 1"
  obtains x where "ready_at N E P = {x}" "open_at E (insert x P) = {x}" "x \<in> N" "x \<notin> P"
proof -
  obtain x where x: "x \<in> ready_at N E P" using R by blast
  have "finite (open_at E (P \<union> ready_at N E P))"
    by (rule finite_subset [OF _ is_dagD(1) [OF dag]]) (use P(2) in \<open>auto simp: open_at_def ready_at_def\<close>)
  then have "open_at E (P \<union> ready_at N E P) = {x}"
    using card x ready_open [OF P(1) is_dagD(3) [OF dag], of N] by (auto simp: card_le_Suc0_iff_eq)
  moreover from this have "ready_at N E P = {x}" using x ready_open [OF P(1) is_dagD(3) [OF dag], of N] by blast
  moreover from x have "x \<in> N" "x \<notin> P" by (auto simp: ready_at_def)
  ultimately show ?thesis using that by simp
qed

lemma closing_before:
  assumes dag: "is_dag N E" and x: "x \<notin> P" "open_at E (insert x P) = {x}" and p: "p \<in> P"
  shows "(p, x) \<in> E\<^sup>+"
  using p
proof (induction p rule: wf_induct_rule [OF is_dagD(5) [OF dag]])
  case (1 p)
  then have "p \<notin> open_at E (insert x P)" using x by auto
  then have "E `` {p} \<noteq> {}" "E `` {p} \<subseteq> insert x P" using 1(2) by (auto simp: open_at_def)
  then obtain s where s: "(p, s) \<in> E" "s \<in> P \<or> s = x" by blast
  then show ?case using 1(1) [of s] by (auto intro: trancl_into_trancl2)
qed

lemma closing_after:
  assumes dag: "is_dag N E" and x: "ready_at N E P = {x}" and n: "n \<in> N - insert x P"
  shows "(x, n) \<in> E\<^sup>+"
  using n
proof (induction n rule: wf_induct_rule [OF is_dagD(4) [OF dag]])
  case (1 n)
  then have "n \<notin> ready_at N E P" using x by auto
  then obtain b where b: "(b, n) \<in> E" "b \<notin> P" using 1(2) by (auto simp: ready_at_def)
  then have "b \<in> N" using is_dagD(2) [OF dag] by blast
  then show ?case using 1(1) [of b] b by (cases "b = x") (auto intro: trancl_into_trancl)
qed

section \<open>What the specification computes\<close>

definition precedes_all :: "('a \<times> 'a) set \<Rightarrow> 'a list \<Rightarrow> 'a list \<Rightarrow> bool" where
  "precedes_all E xs ys \<longleftrightarrow> (\<forall>a \<in> set xs. \<forall>b \<in> set ys. (a, b) \<in> E\<^sup>+)"

lemma close_epoch_simps [simp]:
  "concat (close_epoch cur) = cur" "[] \<notin> set (close_epoch cur)" "sorted_wrt R (close_epoch cur)"
  "xs \<in> set (close_epoch cur) \<longleftrightarrow> xs = cur \<and> cur \<noteq> []"
  by (auto simp: close_epoch_def)

text \<open>The two ways a round of the specification goes on.\<close>

lemma epochs_from_cases [consumes 3, case_names stop close go]:
  fixes N :: "'a :: linorder set" and cur :: "'a list"
  assumes dag: "is_dag N E" and P: "down_closed E P" "P \<subseteq> N"
  obtains (stop) "N \<subseteq> P" "epochs_from N E P cur = close_epoch cur"
  | (close) x where "ready_at N E P = {x}" "x \<in> N" "x \<notin> P" "open_at E (insert x P) = {x}"
      "epochs_from N E P cur = close_epoch cur @ [x] # epochs_from N E (insert x P) []"
  | (go) "ready_at N E P \<noteq> {}" "\<not> card (open_at E (P \<union> ready_at N E P)) \<le> 1"
      "epochs_from N E P cur = epochs_from N E (P \<union> ready_at N E P) (cur @ sorted_list_of_set (ready_at N E P))"
proof (cases "N \<subseteq> P")
  case True
  then have "ready_at N E P = {}" by (auto simp: ready_at_def)
  then show ?thesis using stop [OF True] by (simp add: epochs_from.simps Let_def)
next
  case False
  then have R: "ready_at N E P \<noteq> {}" by (rule ready_nonempty [OF dag P(1)])
  show ?thesis
  proof (cases "card (open_at E (P \<union> ready_at N E P)) \<le> 1")
    case True
    obtain x where x: "ready_at N E P = {x}" "open_at E (insert x P) = {x}" "x \<in> N" "x \<notin> P"
      by (rule single_open [OF dag P R True])
    then show ?thesis using close [OF x(1,3,4,2)] is_dagD(1) [OF dag]
      by (simp add: epochs_from.simps [of N E P cur] Let_def)
  next
    case False
    then show ?thesis using go [OF R False] R is_dagD(1) [OF dag] by (simp add: epochs_from.simps [of N E P cur] Let_def)
  qed
qed

lemma epochs_from_induct [consumes 3, case_names stop close go]:
  fixes N :: "'a :: linorder set" and cur :: "'a list"
  assumes dag: "is_dag N E" and P: "down_closed E P" "P \<subseteq> N"
    and stop: "\<And>cur. epochs_from N E N cur = close_epoch cur \<Longrightarrow> down_closed E N \<Longrightarrow> Q N cur"
    and close: "\<And>P cur x. down_closed E P \<Longrightarrow> P \<subseteq> N \<Longrightarrow> ready_at N E P = {x} \<Longrightarrow> x \<in> N \<Longrightarrow> x \<notin> P \<Longrightarrow>
      open_at E (insert x P) = {x} \<Longrightarrow> epochs_from N E P cur = close_epoch cur @ [x] # epochs_from N E (insert x P) [] \<Longrightarrow>
      Q (insert x P) [] \<Longrightarrow> Q P cur"
    and go: "\<And>P cur. down_closed E P \<Longrightarrow> P \<subseteq> N \<Longrightarrow> ready_at N E P \<noteq> {} \<Longrightarrow>
      \<not> card (open_at E (P \<union> ready_at N E P)) \<le> 1 \<Longrightarrow>
      epochs_from N E P cur = epochs_from N E (P \<union> ready_at N E P) (cur @ sorted_list_of_set (ready_at N E P)) \<Longrightarrow>
      Q (P \<union> ready_at N E P) (cur @ sorted_list_of_set (ready_at N E P)) \<Longrightarrow> Q P cur"
  shows "Q P cur"
  using P
proof (induction "card (N - P)" arbitrary: P cur rule: less_induct)
  case (less P cur)
  have fin: "finite N" by (rule is_dagD(1) [OF dag])
  have down: "down_closed E (P \<union> ready_at N E P)" "P \<union> ready_at N E P \<subseteq> N"
    using down_closed_ready [OF less.prems(1)] less.prems(2) by (auto simp: ready_at_def)
  from dag less.prems show ?case
  proof (cases rule: epochs_from_cases [where cur = cur])
    case stop
    then have "P = N" using less.prems(2) by blast
    then show ?thesis using stop less.prems(1) assms(4) by simp
  next
    case (close x)
    have "Q (insert x P) []"
      using less.hyps [of "insert x P" "[]"] ready_less [OF fin, of E P] down close(1) by simp
    then show ?thesis using assms(5) [OF less.prems] close by blast
  next
    case go
    then have "Q (P \<union> ready_at N E P) (cur @ sorted_list_of_set (ready_at N E P))"
      using less.hyps ready_less [OF fin, of E P] down by blast
    then show ?thesis using assms(6) [OF less.prems] go by blast
  qed
qed

lemma epochs_from_ordered:
  assumes "is_dag N E" "down_closed E P" "P \<subseteq> N" "set cur \<subseteq> P"
  shows "sorted_wrt (precedes_all E) (epochs_from N E P cur) \<and>
    set (concat (epochs_from N E P cur)) = set cur \<union> (N - P) \<and> [] \<notin> set (epochs_from N E P cur)"
  using assms
proof (induction P cur rule: epochs_from_induct)
  case (stop cur)
  then show ?case by simp
next
  case (close P cur x)
  let ?es = "epochs_from N E (insert x P) []"
  have es: "sorted_wrt (precedes_all E) ?es" "set (concat ?es) = N - insert x P" "[] \<notin> set ?es" using close.IH by auto
  have before: "(p, x) \<in> E\<^sup>+" if "p \<in> set cur" for p
    using closing_before [OF assms(1) close(5,6)] that close.prems by blast
  have after: "(x, n) \<in> E\<^sup>+" if "e \<in> set ?es" "n \<in> set e" for n e
    using closing_after [OF assms(1) close(3), of n] that es(2) by auto
  have "precedes_all E cur [x]" using before by (simp add: precedes_all_def)
  moreover have "precedes_all E ep e" if "e \<in> set ?es" "ep = cur \<or> ep = [x]" for e ep
    using before after [OF that(1)] that(2) unfolding precedes_all_def by (auto intro: trancl_trans)
  ultimately have "sorted_wrt (precedes_all E) (close_epoch cur @ [x] # ?es)"
    using es(1) by (auto simp: sorted_wrt_append)
  moreover have "set (concat (close_epoch cur @ [x] # ?es)) = set cur \<union> (N - P)"
    using es(2) close(4,5) by auto
  ultimately show ?case unfolding close(7) using es(3) by simp
next
  case (go P cur)
  have "finite (ready_at N E P)" by (rule finite_subset [OF _ is_dagD(1) [OF assms(1)]]) (auto simp: ready_at_def)
  moreover have "ready_at N E P \<subseteq> N - P" by (auto simp: ready_at_def)
  ultimately show ?case using go.IH go.prems unfolding go(5) by auto
qed

lemma topological_ready:
  assumes "finite N"
  shows "topological {(b, a) \<in> E. b \<notin> P} (sorted_list_of_set (ready_at N E P))"
proof -
  have "set (sorted_list_of_set (ready_at N E P)) = ready_at N E P"
    by (rule set_sorted_list_of_set, rule finite_subset [OF _ assms]) (auto simp: ready_at_def)
  then show ?thesis unfolding topological_def
    by (metis (mono_tags, lifting) case_prodD in_set_conv_decomp mem_Collect_eq ready_at_def)
qed

lemma topological_weaken: "topological E xs \<Longrightarrow> E' \<subseteq> E \<Longrightarrow> topological E' xs"
  by (fastforce simp: topological_def)

lemma epochs_from_topological:
  assumes "is_dag N E" "down_closed E P" "P \<subseteq> N" "set cur \<subseteq> P" "distinct cur"
    and "topological {(b, a) \<in> E. b \<notin> P - set cur} cur"
  shows "distinct (concat (epochs_from N E P cur)) \<and>
    topological {(b, a) \<in> E. b \<notin> P - set cur} (concat (epochs_from N E P cur))"
  using assms
proof (induction P cur rule: epochs_from_induct)
  case (stop cur)
  show ?case unfolding stop(1) close_epoch_simps using stop(4,5) by blast
next
  case (close P cur x)
  let ?es = "epochs_from N E (insert x P) []" and ?E = "{(b, a) \<in> E. b \<notin> P - set cur}"
  have es: "distinct (concat ?es)" "topological {(b, a) \<in> E. b \<notin> insert x P} (concat ?es)" using close.IH by auto
  have set: "set (concat ?es) = N - insert x P"
    using epochs_from_ordered [OF assms(1), of "insert x P" "[]"] down_closed_ready [OF close(1), of N] close(2-4) by simp
  have "topological {(b, a) \<in> ?E. b \<notin> set cur} [x]"
    using topological_ready [OF is_dagD(1) [OF assms(1)], of E P] close(3) close.prems(1)
    by (auto elim!: topological_weaken)
  moreover have "topological {(b, a) \<in> {(b, a) \<in> ?E. b \<notin> set cur}. b \<notin> set [x]} (concat ?es)"
    using es(2) by (rule topological_weaken) (use close.prems(1) in auto)
  ultimately have "topological {(b, a) \<in> ?E. b \<notin> set cur} ([x] @ concat ?es)" by (rule topological_append)
  with close.prems(3) have "topological ?E (cur @ ([x] @ concat ?es))" by (rule topological_append)
  moreover have "distinct (cur @ [x] @ concat ?es)" using es(1) set close by auto
  ultimately show ?case unfolding close(7) by simp
next
  case (go P cur)
  let ?R = "ready_at N E P"
  have R: "finite ?R" "?R \<inter> P = {}"
    by (rule finite_subset [OF _ is_dagD(1) [OF assms(1)]]) (auto simp: ready_at_def)
  then have Q: "P \<union> ?R - set (cur @ sorted_list_of_set ?R) = P - set cur" by auto
  have "topological {(b, a) \<in> {(b, a) \<in> E. b \<notin> P - set cur}. b \<notin> set cur} (sorted_list_of_set ?R)"
    using topological_ready [OF is_dagD(1) [OF assms(1)]] by (rule topological_weaken) (use go.prems(1) in auto)
  with go.prems(3) have "topological {(b, a) \<in> E. b \<notin> P - set cur} (cur @ sorted_list_of_set ?R)"
    by (rule topological_append)
  then show ?case using go.IH R go.prems(1,2) unfolding go(5) Q by auto
qed

section \<open>One more operation on top\<close>

definition on_top :: "'a set \<Rightarrow> ('a \<times> 'a) set \<Rightarrow> 'a \<Rightarrow> ('a \<times> 'a) set" where
  "on_top N E x = E \<union> {(p, x) | p. p \<in> N \<and> E `` {p} = {}}"

lemma on_top_Image:
  assumes "E \<subseteq> N \<times> N" "x \<notin> N" "p \<in> N"
  shows "on_top N E x `` {p} = (if E `` {p} = {} then {x} else E `` {p})"
  using assms by (auto simp: on_top_def)

lemma open_at_on_top:
  assumes "E \<subseteq> N \<times> N" "x \<notin> N" "P \<subseteq> N"
  shows "open_at (on_top N E x) P = open_at E P"
proof -
  have "on_top N E x `` {p} = {} \<or> \<not> on_top N E x `` {p} \<subseteq> P \<longleftrightarrow> E `` {p} = {} \<or> \<not> E `` {p} \<subseteq> P" if "p \<in> P" for p
  proof -
    have "p \<in> N" "x \<notin> P" using assms(2,3) that by blast+
    then show ?thesis unfolding on_top_Image [OF assms(1,2) \<open>p \<in> N\<close>] by auto
  qed
  then show ?thesis unfolding open_at_def by blast
qed

lemma sink_outside:
  assumes dag: "is_dag N E" and P: "down_closed E P" "P \<subset> N"
  obtains p where "p \<in> N - P" "E `` {p} = {}"
proof -
  obtain n where "n \<in> N - P" using P(2) by blast
  from wfE_min [OF is_dagD(5) [OF dag] this]
  obtain p where p: "p \<in> N - P" "\<And>s. (s, p) \<in> E\<inverse> \<Longrightarrow> s \<notin> N - P" by blast
  have "E `` {p} = {}"
  proof (rule ccontr)
    assume "E `` {p} \<noteq> {}"
    then obtain s where "(p, s) \<in> E" by blast
    then show False using p P(1) is_dagD(2) [OF dag] unfolding down_closed_def by blast
  qed
  then show ?thesis using that p(1) by blast
qed

lemma ready_at_on_top:
  assumes dag: "is_dag N E" and x: "x \<notin> N" and P: "down_closed E P" "P \<subset> N"
  shows "ready_at (insert x N) (on_top N E x) P = ready_at N E P"
proof -
  obtain p where "p \<in> N - P" "E `` {p} = {}" by (rule sink_outside [OF dag P])
  then have "x \<notin> ready_at (insert x N) (on_top N E x) P" by (auto simp: ready_at_def on_top_def)
  moreover have "(b, n) \<in> on_top N E x \<longleftrightarrow> (b, n) \<in> E" if "n \<noteq> x" for b n using that by (auto simp: on_top_def)
  then have "n \<in> ready_at (insert x N) (on_top N E x) P \<longleftrightarrow> n \<in> ready_at N E P" if "n \<noteq> x" for n
    using that by (auto simp: ready_at_def)
  moreover have "x \<notin> ready_at N E P" using x by (simp add: ready_at_def)
  ultimately show ?thesis by (intro set_eqI) metis
qed

lemma epochs_from_on_top:
  fixes N :: "'a :: linorder set"
  assumes dag: "is_dag N E" and P: "down_closed E P" "P \<subseteq> N" and x: "x \<notin> N"
  shows "epochs_from (insert x N) (on_top N E x) P cur = epochs_from N E P cur @ [[x]]"
  using dag P
proof (induction P cur rule: epochs_from_induct)
  case (stop cur)
  note EN = is_dagD(2) [OF dag] and fin = is_dagD(1) [OF dag]
  have ready: "ready_at (insert x N) (on_top N E x) N = {x}" using EN x by (auto simp: ready_at_def on_top_def)
  have "open_at (on_top N E x) (insert x N) = {x}"
    using EN x by (auto simp: open_at_def on_top_Image [OF EN x] split: if_splits) (auto simp: on_top_def)
  moreover have "ready_at (insert x N) (on_top N E x) (insert x N) = {}" by (simp add: ready_at_def)
  ultimately show ?case unfolding stop(1) using fin ready
    by (simp add: epochs_from.simps [of _ _ N] epochs_from.simps [of _ _ "insert x N"] Let_def close_epoch_def)
next
  case (close P cur y)
  have "P \<subset> N" using close(2,4,5) by blast
  then have "ready_at (insert x N) (on_top N E x) P = {y}"
    using ready_at_on_top [OF dag x close(1)] close(3) by simp
  moreover have "open_at (on_top N E x) (insert y P) = {y}"
    using open_at_on_top [OF is_dagD(2) [OF dag] x, of "insert y P"] close(2,4,6) by simp
  ultimately show ?case unfolding close(7) using close.IH is_dagD(1) [OF dag]
    by (simp add: epochs_from.simps [of _ _ P] Let_def)
next
  case (go P cur)
  have "P \<subset> N" "P \<union> ready_at N E P \<subseteq> N" using go(2,3) by (auto simp: ready_at_def)
  then have "ready_at (insert x N) (on_top N E x) P = ready_at N E P"
    "open_at (on_top N E x) (P \<union> ready_at N E P) = open_at E (P \<union> ready_at N E P)"
    using ready_at_on_top [OF dag x go(1)] open_at_on_top [OF is_dagD(2) [OF dag] x] by simp_all
  then show ?case unfolding go(5) using go.IH go(3,4) is_dagD(1) [OF dag]
    by (simp add: epochs_from.simps [of "insert x N" _ P] Let_def)
qed

section \<open>Concurrent operations on one head\<close>

lemma open_at_fork:
  assumes "E \<subseteq> N \<times> N" "X \<inter> N = {}" "X \<noteq> {}" "P \<subseteq> N" "E `` {z} = {}"
  shows "open_at (E \<union> {z} \<times> X) P = open_at E P"
proof -
  have "(E \<union> {z} \<times> X) `` {p} = (if p = z then X else E `` {p})" for p using assms(5) by auto
  then show ?thesis using assms unfolding open_at_def by auto
qed

lemma ready_at_fork:
  assumes dag: "is_dag N E" and X: "X \<inter> N = {}" and z: "{p \<in> N. E `` {p} = {}} = {z}" and P: "down_closed E P" "P \<subset> N"
  shows "ready_at (N \<union> X) (E \<union> {z} \<times> X) P = ready_at N E P"
proof -
  obtain p where "p \<in> N - P" "E `` {p} = {}" by (rule sink_outside [OF dag P])
  then have "z \<notin> P" "z \<in> N" using z by auto
  then show ?thesis using X is_dagD(2) [OF dag] by (auto simp: ready_at_def)
qed

lemma epochs_from_fork:
  fixes N :: "'a :: linorder set"
  assumes dag: "is_dag N E" and P: "down_closed E P" "P \<subseteq> N" and z: "{p \<in> N. E `` {p} = {}} = {z}"
    and X: "X \<inter> N = {}" "finite X" "2 \<le> card X" and cur: "card (open_at E P) \<le> 1 \<Longrightarrow> cur = []"
  shows "epochs_from (N \<union> X) (E \<union> {z} \<times> X) P cur = epochs_from N E P cur @ [sorted_list_of_set X]"
  using dag P cur
proof (induction P cur rule: epochs_from_induct)
  case (stop cur)
  note EN = is_dagD(2) [OF dag] and fin = is_dagD(1) [OF dag]
  have ne: "X \<noteq> {}" "E `` {z} = {}" "z \<in> N" using X(3) z by auto
  have "open_at E N = {z}" using z EN unfolding open_at_def by blast
  then have cur: "cur = []" using stop by simp
  have ready: "ready_at (N \<union> X) (E \<union> {z} \<times> X) N = X" using EN X(1) ne(3) by (auto simp: ready_at_def)
  have "E `` {x} = {}" if "x \<in> X" for x using EN X(1) that by blast
  then have "open_at (E \<union> {z} \<times> X) (N \<union> X) = X" using EN X(1) ne z unfolding open_at_def by auto
  moreover have "ready_at (N \<union> X) (E \<union> {z} \<times> X) (N \<union> X) = {}" by (simp add: ready_at_def)
  ultimately show ?case using fin ready X ne(1) cur stop
    by (simp add: epochs_from.simps [of _ _ N] epochs_from.simps [of _ _ "N \<union> X"] Let_def close_epoch_def)
next
  case (close P cur y)
  have ne: "X \<noteq> {}" "E `` {z} = {}" using X(3) z by auto
  have "P \<subset> N" using close(2,4,5) by blast
  then have "ready_at (N \<union> X) (E \<union> {z} \<times> X) P = {y}" using ready_at_fork [OF dag X(1) z close(1)] close(3) by simp
  moreover have "open_at (E \<union> {z} \<times> X) (insert y P) = {y}"
    using open_at_fork [OF is_dagD(2) [OF dag] X(1) ne(1) _ ne(2), of "insert y P"] close(2,4,6) by simp
  ultimately show ?case unfolding close(7) using close.IH is_dagD(1) [OF dag] X(2)
    by (simp add: epochs_from.simps [of _ _ P] Let_def)
next
  case (go P cur)
  have ne: "X \<noteq> {}" "E `` {z} = {}" using X(3) z by auto
  have "P \<subset> N" "P \<union> ready_at N E P \<subseteq> N" using go(2,3) by (auto simp: ready_at_def)
  then have "ready_at (N \<union> X) (E \<union> {z} \<times> X) P = ready_at N E P"
    "open_at (E \<union> {z} \<times> X) (P \<union> ready_at N E P) = open_at E (P \<union> ready_at N E P)"
    using ready_at_fork [OF dag X(1) z go(1)] open_at_fork [OF is_dagD(2) [OF dag] X(1) ne(1) _ ne(2)] by simp_all
  then show ?case unfolding go(5) using go.IH go(3,4) is_dagD(1) [OF dag] X(2)
    by (simp add: epochs_from.simps [of "N \<union> X" _ P] Let_def)
qed

section \<open>The walk over the ancestors\<close>

definition pred_edges :: "('a \<rightharpoonup> 'a set) \<Rightarrow> 'a set \<Rightarrow> ('a \<times> 'a) set" where
  "pred_edges pm D = {(p, k). k \<in> D \<and> (\<exists>ps. pm k = Some ps \<and> p \<in> ps)}"

definition closed_preds :: "('a \<rightharpoonup> 'a set) \<Rightarrow> bool" where
  "closed_preds pm \<longleftrightarrow> finite (dom pm) \<and> (\<forall>k ps. pm k = Some ps \<longrightarrow> finite ps \<and> ps \<subseteq> dom pm)"

lemma fold_walk_pred:
  assumes "distinct ps"
  shows "wk_seen (fold (walk_pred k) ps w) = wk_seen w \<union> set ps \<and>
    wk_frontier (fold (walk_pred k) ps w) = wk_frontier w @ filter (\<lambda>p. p \<notin> wk_seen w) ps \<and>
    wk_dependencies (fold (walk_pred k) ps w) = add_dependencies (map (\<lambda>p. (p, k)) ps) (wk_dependencies w) \<and>
    wk_successors (fold (walk_pred k) ps w) = fold (\<lambda>p. entry_insert p k) ps (wk_successors w)"
  using assms
proof (induction ps arbitrary: w)
  case (Cons p ps)
  have "filter (\<lambda>q. q \<notin> insert p (wk_seen w)) ps = filter (\<lambda>q. q \<notin> wk_seen w) ps"
    using Cons.prems by (intro filter_cong) auto
  then show ?case using Cons.IH [of "walk_pred k p w"] Cons.prems
    by (auto simp: walk_pred_def Let_def add_dependencies_def)
qed (simp add: add_dependencies_def)

lemma fold_entry_insert:
  "fold (\<lambda>p. entry_insert p k) ps m q =
     (if q \<in> set ps then Some (insert k (case m q of None \<Rightarrow> {} | Some s \<Rightarrow> s)) else m q)"
  by (induction ps arbitrary: m) (auto simp: entry_insert_lookup)

text \<open>The state of the walk when the operations \<open>D\<close> have been taken from the frontier.\<close>

definition walk_inv :: "(digest \<rightharpoonup> digest set) \<Rightarrow> digest set \<Rightarrow> digest set \<Rightarrow> walk \<Rightarrow> bool" where
  "walk_inv pm heads D w \<longleftrightarrow>
     distinct (wk_frontier w) \<and> set (wk_frontier w) \<inter> D = {} \<and> wk_seen w = D \<union> set (wk_frontier w) \<and>
     wk_seen w = heads \<union> Domain (pred_edges pm D) \<and> wk_seen w \<subseteq> dom pm \<and>
     (\<forall>k \<in> D. \<exists>hd \<in> heads. (k, hd) \<in> (pred_edges pm (dom pm))\<^sup>*) \<and>
     ts_ok (wk_dependencies w) \<and> ts_edges (wk_dependencies w) = pred_edges pm D \<and>
     dom (ts_deps (wk_dependencies w)) = Field (pred_edges pm D) \<and>
     (\<forall>p. wk_successors w p = (if p \<in> wk_seen w then Some (pred_edges pm D `` {p}) else None))"

lemma walk_start_inv:
  assumes "set hs = heads" "distinct hs" "heads \<subseteq> dom pm"
  shows "walk_inv pm heads {} (walk_start hs)"
proof -
  have "fold (\<lambda>hd m. m(hd \<mapsto> {})) hs m p = (if p \<in> set hs then Some {} else m p)" for m :: "digest \<rightharpoonup> digest set" and p
    by (induction hs arbitrary: m) auto
  then show ?thesis using assms by (simp add: walk_inv_def walk_start_def pred_edges_def)
qed

lemma pred_edges_insert:
  "pm k = Some ps \<Longrightarrow> pred_edges pm (insert k D) = (\<lambda>p. (p, k)) ` ps \<union> pred_edges pm D"
  by (auto simp: pred_edges_def)

lemma walk_step_inv:
  assumes inv: "walk_inv pm heads D w" and pm: "closed_preds pm" and it: "iterates iter"
    and k: "wk_frontier w = k # rest" "pm k = Some ps"
  shows "walk_inv pm heads (insert k D) (fold (walk_pred k) (iter ps) (w\<lparr> wk_frontier := rest \<rparr>))"
proof -
  have ps: "finite ps" "ps \<subseteq> dom pm" using pm k(2) by (auto simp: closed_preds_def)
  have iter: "set (iter ps) = ps" "distinct (iter ps)" using it ps(1) by (auto simp: iterates_def)
  let ?w = "fold (walk_pred k) (iter ps) (w\<lparr> wk_frontier := rest \<rparr>)"
  note w = fold_walk_pred [OF iter(2), of k "w\<lparr> wk_frontier := rest \<rparr>", simplified, unfolded iter(1)]
  have I: "distinct (wk_frontier w)" "set (wk_frontier w) \<inter> D = {}" "wk_seen w = D \<union> set (wk_frontier w)"
    "wk_seen w = heads \<union> Domain (pred_edges pm D)" "wk_seen w \<subseteq> dom pm"
    "\<And>k. k \<in> D \<Longrightarrow> \<exists>hd \<in> heads. (k, hd) \<in> (pred_edges pm (dom pm))\<^sup>*"
    "ts_ok (wk_dependencies w)" "ts_edges (wk_dependencies w) = pred_edges pm D"
    "dom (ts_deps (wk_dependencies w)) = Field (pred_edges pm D)"
    "\<And>p. wk_successors w p = (if p \<in> wk_seen w then Some (pred_edges pm D `` {p}) else None)"
    using inv unfolding walk_inv_def by blast+
  have pe: "pred_edges pm (insert k D) = (\<lambda>p. (p, k)) ` ps \<union> pred_edges pm D" using k(2) by (rule pred_edges_insert)
  have seen: "p \<in> wk_seen w" if "(p, x) \<in> pred_edges pm D" for p x using that I(4) by blast
  have frontier: "wk_frontier ?w = rest @ filter (\<lambda>p. p \<notin> wk_seen w) (iter ps)" "wk_seen ?w = wk_seen w \<union> ps"
    using w by simp_all
  have "k \<in> wk_seen w" using I(3) k(1) by simp
  then have reach: "\<exists>hd \<in> heads. (k, hd) \<in> (pred_edges pm (dom pm))\<^sup>*"
  proof (cases "k \<in> heads")
    case False
    then obtain j where j: "(k, j) \<in> pred_edges pm D" using \<open>k \<in> wk_seen w\<close> I(4) by auto
    then have "(k, j) \<in> pred_edges pm (dom pm)" "j \<in> D" by (auto simp: pred_edges_def)
    then show ?thesis using I(6) [of j] by (meson converse_rtrancl_into_rtrancl)
  qed auto
  have deps: "ts_ok (wk_dependencies ?w)" "ts_edges (wk_dependencies ?w) = pred_edges pm (insert k D)"
    "dom (ts_deps (wk_dependencies ?w)) = Field (pred_edges pm (insert k D))"
    using add_dependencies_graph [OF I(7), of "map (\<lambda>p. (p, k)) (iter ps)"] w I(8,9) iter(1)
    unfolding pe by (auto simp: Field_def)
  have "wk_successors ?w p = (if p \<in> wk_seen ?w then Some (pred_edges pm (insert k D) `` {p}) else None)" for p
    using w I(10) seen unfolding pe frontier(2) by (auto simp: fold_entry_insert iter(1))
  moreover have "wk_seen ?w = insert k D \<union> set (wk_frontier ?w)" using I(3) k(1) iter(1) unfolding frontier by auto
  moreover have "distinct (wk_frontier ?w)" "set (wk_frontier ?w) \<inter> insert k D = {}"
    using I(1-3) k(1) iter unfolding frontier by auto
  moreover have "wk_seen ?w = heads \<union> Domain (pred_edges pm (insert k D))" using I(4) unfolding frontier(2) pe by auto
  moreover have "wk_seen ?w \<subseteq> dom pm" using I(5) ps(2) unfolding frontier(2) by blast
  ultimately show ?thesis unfolding walk_inv_def using deps reach I(6) by blast
qed

lemma walk_loop_ok:
  assumes pm: "closed_preds (cgka_ops_predecessors g)" and it: "iterates iter"
    and "walk_inv (cgka_ops_predecessors g) heads D w" "D \<subseteq> dom (cgka_ops_predecessors g)"
    and "card (dom (cgka_ops_predecessors g)) \<le> fuel + card D"
  shows "\<exists>w' D'. walk_loop iter g fuel w = Ok w' \<and> walk_inv (cgka_ops_predecessors g) heads D' w' \<and> wk_frontier w' = []"
  using assms(3-)
proof (induction fuel arbitrary: D w)
  case 0
  have "finite (dom (cgka_ops_predecessors g))" using pm by (simp add: closed_preds_def)
  then have "D = dom (cgka_ops_predecessors g)" using 0(2,3) by (intro card_seteq) auto
  moreover have "set (wk_frontier w) \<inter> D = {}" "set (wk_frontier w) \<subseteq> dom (cgka_ops_predecessors g)"
    using 0(1) unfolding walk_inv_def by blast+
  ultimately have "wk_frontier w = []" by (cases "wk_frontier w") auto
  then show ?case using 0(1) by (subst walk_loop.simps) auto
next
  case (Suc n)
  show ?case
  proof (cases "wk_frontier w")
    case Nil
    then show ?thesis using Suc.prems(1) by (subst walk_loop.simps) auto
  next
    case (Cons k rest)
    have k: "k \<in> dom (cgka_ops_predecessors g)" "k \<notin> D" using Suc.prems(1) Cons unfolding walk_inv_def by auto
    then obtain ps where ps: "cgka_ops_predecessors g k = Some ps" by blast
    let ?w = "fold (walk_pred k) (iter ps) (w\<lparr> wk_frontier := rest \<rparr>)"
    have "walk_inv (cgka_ops_predecessors g) heads (insert k D) ?w"
      by (rule walk_step_inv [OF Suc.prems(1) pm it Cons ps])
    moreover have "finite D" using Suc.prems(2) pm by (auto simp: closed_preds_def intro: finite_subset)
    ultimately obtain w' D' where "walk_loop iter g n ?w = Ok w'" "walk_inv (cgka_ops_predecessors g) heads D' w'" "wk_frontier w' = []"
      using Suc.IH [of "insert k D" ?w] Suc.prems(2,3) k by auto
    then show ?thesis using Cons ps by (subst walk_loop.simps) (auto simp: predecessors_for_def)
  qed
qed

text \<open>The operations the walk reaches: the heads and what they depend on.\<close>

definition ancestors_of :: "(digest \<rightharpoonup> digest set) \<Rightarrow> digest set \<Rightarrow> digest set" where
  "ancestors_of pm heads = {k. \<exists>hd \<in> heads. (k, hd) \<in> (pred_edges pm (dom pm))\<^sup>*}"

lemma walk_done:
  assumes inv: "walk_inv pm heads D w" and fr: "wk_frontier w = []"
  shows "D = ancestors_of pm heads"
proof
  have D: "D = heads \<union> Domain (pred_edges pm D)" "D \<subseteq> dom pm" using inv fr unfolding walk_inv_def by auto
  show "D \<subseteq> ancestors_of pm heads" using inv unfolding walk_inv_def ancestors_of_def by blast
  have "k \<in> D" if "(k, hd) \<in> (pred_edges pm (dom pm))\<^sup>*" "hd \<in> D" for k hd
    using that
  proof (induction rule: converse_rtrancl_induct)
    case (step j k)
    then have "(j, k) \<in> pred_edges pm D" by (auto simp: pred_edges_def)
    then show ?case using D(1) by blast
  qed
  then show "ancestors_of pm heads \<subseteq> D" using D(1) by (auto simp: ancestors_of_def)
qed

section \<open>The loop that closes epochs\<close>

lemma enter_heads_eq:
  assumes "\<And>n. n \<in> set ns \<Longrightarrow> succs n \<noteq> None"
  shows "fold_ok enter_head (heads, succs) ns =
    Ok (heads \<union> set ns, \<lambda>n. if n \<in> set ns \<and> succs n = Some {} then Some {n} else succs n)"
  using assms
proof (induction ns arbitrary: heads succs)
  case (Cons n ns)
  obtain s where s: "succs n = Some s" using Cons.prems by fastforce
  let ?succs = "if s = {} then succs(n \<mapsto> {n}) else succs"
  have "(\<lambda>m. if m \<in> set ns \<and> ?succs m = Some {} then Some {m} else ?succs m) =
      (\<lambda>m. if m \<in> set (n # ns) \<and> succs m = Some {} then Some {m} else succs m)"
    using s by (auto simp: fun_eq_iff)
  then show ?case using Cons.IH [of ?succs "insert n heads"] Cons.prems s
    by (simp add: enter_head_def)
qed simp

lemma drop_successor_eq:
  assumes it: "iterates iter" and heads: "finite heads" and succs: "\<And>n. n \<in> heads \<Longrightarrow> succs n \<noteq> None"
  shows "drop_successor iter heads succs k =
    Ok (\<lambda>n. if n \<in> heads then map_option (\<lambda>s. s - ({k} - {n})) (succs n) else succs n)"
proof -
  let ?f = "\<lambda>succs hd. if k = hd then Ok succs
    else map_ok (\<lambda>s. succs(hd \<mapsto> s - {k})) (expect (succs hd) :: digest set cgka_result)"
  have loop: "fold_ok ?f succs hs = Ok (\<lambda>n. if n \<in> set hs then map_option (\<lambda>s. s - ({k} - {n})) (succs n) else succs n)"
    if "\<And>n. n \<in> set hs \<Longrightarrow> succs n \<noteq> None" for hs succs
    using that
  proof (induction hs arbitrary: succs)
    case (Cons n hs)
    obtain s where s: "succs n = Some s" using Cons.prems by fastforce
    define succs' where "succs' = succs(n := map_option (\<lambda>s. s - ({k} - {n})) (succs n))"
    have "?f succs n = Ok succs'" using s by (auto simp: succs'_def)
    moreover have "fold_ok ?f succs' hs = Ok (\<lambda>n. if n \<in> set hs then map_option (\<lambda>s. s - ({k} - {n})) (succs' n) else succs' n)"
      by (rule Cons.IH) (use Cons.prems in \<open>auto simp: succs'_def\<close>)
    ultimately show ?case by (auto simp: succs'_def fun_eq_iff option.map_comp comp_def)
  qed simp
  have "set (iter heads) = heads" using it heads by (simp add: iterates_def)
  then show ?thesis using loop [of "iter heads" succs] succs by (simp add: drop_successor_def)
qed

lemma drop_successors_eq:
  assumes it: "iterates iter" and heads: "finite heads" and "\<And>n. n \<in> heads \<Longrightarrow> succs n \<noteq> None"
  shows "fold_ok (drop_successor iter heads) succs ns =
    Ok (\<lambda>n. if n \<in> heads then map_option (\<lambda>s. s - (set ns - {n})) (succs n) else succs n)"
  using assms(3)
proof (induction ns arbitrary: succs)
  case Nil
  then show ?case by (auto simp: fun_eq_iff option.map_ident)
next
  case (Cons k ns)
  let ?succs = "\<lambda>n. if n \<in> heads then map_option (\<lambda>s. s - ({k} - {n})) (succs n) else succs n"
  have "(\<lambda>n. if n \<in> heads then map_option (\<lambda>s. s - (set ns - {n})) (?succs n) else ?succs n) =
      (\<lambda>n. if n \<in> heads then map_option (\<lambda>s. s - (set (k # ns) - {n})) (succs n) else succs n)"
    by (auto simp: fun_eq_iff option.map_comp comp_def intro!: option.map_cong)
  then show ?case using Cons.IH [of ?succs] Cons.prems drop_successor_eq [OF it heads, of succs k] by simp
qed

lemma open_heads_eq:
  assumes it: "iterates iter" and heads: "finite heads" and succs: "\<And>n. n \<in> heads \<Longrightarrow> succs n \<noteq> None"
  shows "open_heads iter heads succs = Ok {n \<in> heads. succs n \<noteq> Some {}}"
proof -
  have "fold_ok (\<lambda>acc hd. map_ok (\<lambda>s. if s = {} then acc else insert hd acc) (expect (succs hd))) acc hs =
      (Ok (acc \<union> {n \<in> set hs. succs n \<noteq> Some {}}) :: (cgka_error, _) outcome)"
    if "set hs \<subseteq> heads" for hs acc
    using that
  proof (induction hs arbitrary: acc)
    case (Cons n hs)
    then obtain s where "succs n = Some s" using succs by fastforce
    then show ?case using Cons by (cases "s = {}") auto
  qed simp
  moreover have "set (iter heads) = heads" using it heads by (simp add: iterates_def)
  ultimately show ?thesis by (simp add: open_heads_def)
qed

definition op_at :: "op_graph \<Rightarrow> digest \<Rightarrow> signed_op" where
  "op_at g k = the (cgka_ops g k)"

lemma push_ops_eq:
  assumes "\<And>k. k \<in> set ns \<Longrightarrow> cgka_ops g k \<noteq> None"
  shows "fold_ok (\<lambda>e hash. map_ok (\<lambda>op. e\<lparr> ep_next := ep_next e @ [op] \<rparr>)
      (ok_or OperationNotFound (ca_get (cgka_ops g) hash))) e ns = Ok (e\<lparr> ep_next := ep_next e @ map (op_at g) ns \<rparr>)"
  using assms
proof (induction ns arbitrary: e)
  case (Cons k ns)
  then obtain op where "cgka_ops g k = Some op" by fastforce
  then show ?case using Cons by (simp add: ca_get_def op_at_def)
qed simp

text \<open>The state of the loop when the hashes \<open>P\<close> have been popped.\<close>

definition epoch_inv ::
    "op_graph \<Rightarrow> digest set \<Rightarrow> (digest \<times> digest) set \<Rightarrow> digest set \<Rightarrow> digest list \<Rightarrow> digest list list \<Rightarrow> epochs \<Rightarrow> bool" where
  "epoch_inv g N E P cur D e \<longleftrightarrow>
     ts_ok (ep_dependencies e) \<and> dom (ts_deps (ep_dependencies e)) = N - P \<and>
     ts_edges (ep_dependencies e) = {(b, a) \<in> E. b \<notin> P} \<and> ep_heads e = open_at E P \<and>
     (\<forall>n \<in> N. ep_successors e n \<noteq> None) \<and> (\<forall>n \<in> N - P. ep_successors e n = Some (E `` {n})) \<and>
     (\<forall>p \<in> open_at E P. ep_successors e p = Some (if E `` {p} = {} then {p} else E `` {p} - P)) \<and>
     ep_next e = map (op_at g) cur \<and> ep_done e = map (map (op_at g)) D"

text \<open>The successor sets after the two loops of a round that popped \<open>R\<close>.\<close>

definition succs_after :: "digest set \<Rightarrow> digest set \<Rightarrow> (digest \<rightharpoonup> digest set) \<Rightarrow> digest \<rightharpoonup> digest set" where
  "succs_after R H succs n =
     (let s = (if n \<in> R \<and> succs n = Some {} then Some {n} else succs n) in
      if n \<in> H \<union> R then map_option (\<lambda>s. s - (R - {n})) s else s)"

lemma head_loops_eq:
  assumes it: "iterates iter" and fin: "finite (H \<union> R)" and ns: "set ns = R"
    and succs: "\<And>n. n \<in> H \<union> R \<Longrightarrow> succs n \<noteq> None"
  obtains succs' where "fold_ok enter_head (H, succs) ns = Ok (H \<union> R, succs')"
    "fold_ok (drop_successor iter (H \<union> R)) succs' ns = Ok (succs_after R H succs)"
    "open_heads iter (H \<union> R) (succs_after R H succs) = Ok {n \<in> H \<union> R. succs_after R H succs n \<noteq> Some {}}"
proof -
  define s1 where "s1 = (\<lambda>n. if n \<in> R \<and> succs n = Some {} then Some {n} else succs n)"
  have enter: "fold_ok enter_head (H, succs) ns = Ok (H \<union> R, s1)"
    unfolding s1_def by (subst enter_heads_eq) (use succs ns in auto)
  have s1: "s1 n \<noteq> None" if "n \<in> H \<union> R" for n using succs that by (simp add: s1_def)
  have "(\<lambda>n. if n \<in> H \<union> R then map_option (\<lambda>s. s - (set ns - {n})) (s1 n) else s1 n) = succs_after R H succs"
    unfolding ns by (simp add: succs_after_def s1_def fun_eq_iff)
  then have drop: "fold_ok (drop_successor iter (H \<union> R)) s1 ns = Ok (succs_after R H succs)"
    using drop_successors_eq [OF it fin, of s1 ns] s1 by simp
  have "succs_after R H succs n \<noteq> None" if "n \<in> H \<union> R" for n using succs that by (simp add: succs_after_def Let_def)
  then have "open_heads iter (H \<union> R) (succs_after R H succs) = Ok {n \<in> H \<union> R. succs_after R H succs n \<noteq> Some {}}"
    by (rule open_heads_eq [OF it fin])
  then show ?thesis by (rule that [OF enter drop])
qed

lemma succs_after_eq:
  assumes dag: "is_dag N E" and P: "down_closed E P" "P \<subseteq> N" and R: "R = ready_at N E P"
    and unpopped: "\<And>n. n \<in> N - P \<Longrightarrow> succs n = Some (E `` {n})"
    and opened: "\<And>p. p \<in> open_at E P \<Longrightarrow> succs p = Some (if E `` {p} = {} then {p} else E `` {p} - P)"
  defines "s \<equiv> succs_after R (open_at E P) succs"
  shows "{n \<in> open_at E P \<union> R. s n \<noteq> Some {}} = open_at E (P \<union> R)"
    and "n \<in> N - (P \<union> R) \<Longrightarrow> s n = Some (E `` {n})"
    and "p \<in> open_at E (P \<union> R) \<Longrightarrow> s p = Some (if E `` {p} = {} then {p} else E `` {p} - (P \<union> R))"
proof -
  have disj: "E `` {r} \<inter> (P \<union> R) = {}" if "r \<in> R" for r
    using ready_succ_disjoint [OF P(1) _ is_dagD(3) [OF dag]] that by (simp add: R)
  have val: "s n = Some (if E `` {n} = {} then {n} else E `` {n} - (P \<union> R))" if "n \<in> open_at E P \<union> R" for n
  proof (cases "n \<in> R")
    case True
    then have "succs n = Some (E `` {n})" using unpopped by (auto simp: R ready_at_def)
    then show ?thesis using True disj [OF True] unfolding s_def succs_after_def by auto
  next
    case False
    then show ?thesis using that opened [of n] unfolding s_def succs_after_def by auto
  qed
  have sub: "open_at E (P \<union> R) \<subseteq> open_at E P \<union> R" by (auto simp: open_at_def)
  have "s n \<noteq> Some {} \<longleftrightarrow> n \<in> open_at E (P \<union> R)" if "n \<in> open_at E P \<union> R" for n
    using val [OF that] that by (auto simp: open_at_def)
  then show "{n \<in> open_at E P \<union> R. s n \<noteq> Some {}} = open_at E (P \<union> R)" using sub by blast
  show "n \<in> N - (P \<union> R) \<Longrightarrow> s n = Some (E `` {n})"
    using unpopped [of n] by (auto simp: s_def succs_after_def open_at_def)
  show "p \<in> open_at E (P \<union> R) \<Longrightarrow> s p = Some (if E `` {p} = {} then {p} else E `` {p} - (P \<union> R))"
    using val sub by blast
qed

lemma epoch_step_eq:
  assumes dag: "is_dag N E" and P: "down_closed E P" "P \<subseteq> N" and inv: "epoch_inv g N E P cur D e"
    and it: "iterates iter" and ops: "\<And>n. n \<in> N \<Longrightarrow> cgka_ops g n \<noteq> None"
  defines "R \<equiv> ready_at N E P"
  defines "ns \<equiv> sorted_list_of_set R" and "fin \<equiv> card (open_at E (P \<union> R)) \<le> 1"
  shows "\<exists>e'. epoch_step iter g e = Ok e' \<and>
    epoch_inv g N E (P \<union> R) (if fin then [] else cur @ ns)
      (if fin then D @ close_epoch cur @ close_epoch ns else D) e'"
proof -
  have I: "ts_ok (ep_dependencies e)" "dom (ts_deps (ep_dependencies e)) = N - P"
    "ts_edges (ep_dependencies e) = {(b, a) \<in> E. b \<notin> P}" "ep_heads e = open_at E P"
    "\<And>n. n \<in> N \<Longrightarrow> ep_successors e n \<noteq> None" "\<And>n. n \<in> N - P \<Longrightarrow> ep_successors e n = Some (E `` {n})"
    "\<And>p. p \<in> open_at E P \<Longrightarrow> ep_successors e p = Some (if E `` {p} = {} then {p} else E `` {p} - P)"
    "ep_next e = map (op_at g) cur" "ep_done e = map (map (op_at g)) D"
    using inv unfolding epoch_inv_def by blast+
  have "ts_ready (ep_dependencies e) = R" unfolding ts_ready_graph I(2,3) R_def ready_at_def by blast
  moreover have R: "finite R" "R \<subseteq> N - P" using is_dagD(1) [OF dag] by (auto simp: R_def ready_at_def)
  ultimately have pop: "pop_all iter (ep_dependencies e) = (iter R, fold pop_node (iter R) (ep_dependencies e))"
    "sort (iter R) = ns" "set (iter R) = R"
    using sort_iter [OF it R(1)] it by (simp_all add: pop_all_def Let_def ns_def iterates_def)
  have ns: "set ns = R" using R(1) by (simp add: ns_def)
  have H: "finite (open_at E P \<union> R)" "open_at E P \<union> R \<subseteq> N"
    using R P(2) is_dagD(1) [OF dag] by (auto simp: open_at_def intro: finite_subset)
  let ?s = "succs_after R (open_at E P) (ep_successors e)"
  have s: "{n \<in> open_at E P \<union> R. ?s n \<noteq> Some {}} = open_at E (P \<union> R)"
    "\<And>n. n \<in> N - (P \<union> R) \<Longrightarrow> ?s n = Some (E `` {n})"
    "\<And>p. p \<in> open_at E (P \<union> R) \<Longrightarrow> ?s p = Some (if E `` {p} = {} then {p} else E `` {p} - (P \<union> R))"
    using succs_after_eq [OF dag P R_def [THEN meta_eq_to_obj_eq], of "ep_successors e"] I(6,7) by blast+
  have "ep_successors e n \<noteq> None" if "n \<in> open_at E P \<union> R" for n using I(5) H(2) that by blast
  then obtain succs' where loops: "fold_ok enter_head (open_at E P, ep_successors e) ns = Ok (open_at E P \<union> R, succs')"
    "fold_ok (drop_successor iter (open_at E P \<union> R)) succs' ns = Ok ?s"
    "open_heads iter (open_at E P \<union> R) ?s = Ok {n \<in> open_at E P \<union> R. ?s n \<noteq> Some {}}"
    by (rule head_loops_eq [OF it H(1) ns])
  have push: "fold_ok (\<lambda>e hash. map_ok (\<lambda>op. e\<lparr> ep_next := ep_next e @ [op] \<rparr>)
      (ok_or OperationNotFound (ca_get (cgka_ops g) hash))) e' ns = Ok (e'\<lparr> ep_next := ep_next e' @ map (op_at g) ns \<rparr>)" for e'
    by (rule push_ops_eq) (use ops R(2) ns in blast)
  let ?e = "e\<lparr> ep_dependencies := fold pop_node (iter R) (ep_dependencies e), ep_successors := ?s, ep_heads := open_at E (P \<union> R) \<rparr>"
  have step: "epoch_step iter g e = Ok (push_epoch fin ((push_epoch fin ?e)\<lparr> ep_next := ep_next (push_epoch fin ?e) @ map (op_at g) ns \<rparr>))"
    unfolding epoch_step_def pop Let_def prod.case I(4) loops(1,2) and_then.simps loops(3) s(1) push map_ok.simps fin_def ..
  have "ts_edges (fold pop_node (iter R) (ep_dependencies e)) = {(b, a) \<in> E. b \<notin> P \<union> R}"
    unfolding pop_list_graph(2) [OF I(1)] pop(3) I(3) by (auto simp: R_def ready_at_def)
  moreover have "?s n \<noteq> None" if "n \<in> N" for n using I(5) [OF that] by (simp add: succs_after_def Let_def)
  ultimately have inv': "epoch_inv g N E (P \<union> R) cur D ?e"
    unfolding epoch_inv_def using pop_list_graph(1,3) [OF I(1), of "iter R"] pop(3) I(2,8,9) s(2,3)
    by (auto simp del: if_split)
  have "epoch_inv g N E (P \<union> R) (if fin then [] else cur @ ns) (if fin then D @ close_epoch cur @ close_epoch ns else D)
      (push_epoch fin ((push_epoch fin ?e)\<lparr> ep_next := ep_next (push_epoch fin ?e) @ map (op_at g) ns \<rparr>))"
    using inv' I(8,9) unfolding epoch_inv_def by (simp add: push_epoch_def close_epoch_def)
  then show ?thesis using step by blast
qed

lemma epoch_loop_eq:
  assumes dag: "is_dag N E" and P: "down_closed E P" "P \<subseteq> N" and it: "iterates iter"
    and ops: "\<And>n. n \<in> N \<Longrightarrow> cgka_ops g n \<noteq> None"
    and "epoch_inv g N E P cur D e" "card (N - P) \<le> fuel"
  shows "\<exists>e'. epoch_loop iter g fuel e = Ok e' \<and>
    ep_done (push_epoch True e') = map (map (op_at g)) (D @ epochs_from N E P cur)"
  using dag P assms(6-)
proof (induction P cur arbitrary: D e fuel rule: epochs_from_induct)
  case (stop cur)
  have "ts_is_empty (ep_dependencies e)" using stop.prems(1) by (simp add: epoch_inv_def ts_is_empty_def)
  then have "epoch_loop iter g fuel e = Ok e" by (subst epoch_loop.simps) simp
  moreover have "ep_done (push_epoch True e) = map (map (op_at g)) (D @ close_epoch cur)"
    using stop.prems(1) by (simp add: epoch_inv_def push_epoch_def close_epoch_def)
  ultimately show ?case unfolding stop(1) by blast
next
  case (close P cur x)
  have "finite (N - P)" "N - P \<noteq> {}" using is_dagD(1) [OF dag] close(4,5) by auto
  then obtain n where n: "fuel = Suc n" using close.prems(2) by (cases fuel) auto
  have ne: "\<not> ts_is_empty (ep_dependencies e)"
    using close.prems(1) \<open>N - P \<noteq> {}\<close> by (simp add: epoch_inv_def ts_is_empty_def)
  have "card (N - insert x P) \<le> n"
    using ready_less [OF is_dagD(1) [OF dag], of E P] close(3) close.prems(2) n by simp
  moreover obtain e1 where "epoch_step iter g e = Ok e1"
    "epoch_inv g N E (insert x P) [] (D @ close_epoch cur @ [[x]]) e1"
    using epoch_step_eq [OF dag close(1,2) close.prems(1) it ops] close(3,6) by (auto simp: close_epoch_def [of "[x]"])
  ultimately show ?case using close.IH [of "D @ close_epoch cur @ [[x]]" e1 n] ne n unfolding close(7)
    by (subst epoch_loop.simps) simp
next
  case (go P cur)
  have "finite (N - P)" "N - P \<noteq> {}" using is_dagD(1) [OF dag] go(3) by (auto simp: ready_at_def)
  then obtain n where n: "fuel = Suc n" using go.prems(2) by (cases fuel) auto
  have ne: "\<not> ts_is_empty (ep_dependencies e)"
    using go.prems(1) \<open>N - P \<noteq> {}\<close> by (simp add: epoch_inv_def ts_is_empty_def)
  have "card (N - (P \<union> ready_at N E P)) \<le> n"
    using ready_less [OF is_dagD(1) [OF dag] go(3)] go.prems(2) n by simp
  moreover obtain e1 where "epoch_step iter g e = Ok e1"
    "epoch_inv g N E (P \<union> ready_at N E P) (cur @ sorted_list_of_set (ready_at N E P)) D e1"
    using epoch_step_eq [OF dag go(1,2) go.prems(1) it ops] go(4) by auto
  ultimately show ?case using go.IH [of D e1 n] ne n unfolding go(5) by (subst epoch_loop.simps) simp
qed

section \<open>The whole ordering\<close>

text \<open>
  The graphs the code orders: every hash it reaches either is the only one or has a dependency or
  a dependent. A single operation has no dependencies and is handled by a branch of its own.
\<close>

definition connected :: "(digest \<rightharpoonup> digest set) \<Rightarrow> digest set \<Rightarrow> bool" where
  "connected pm A \<longleftrightarrow> is_singleton A \<or> A \<subseteq> Field (pred_edges pm A)"

lemma pred_edges_mono: "A \<subseteq> B \<Longrightarrow> pred_edges pm A \<subseteq> pred_edges pm B"
  by (auto simp: pred_edges_def)

lemma ancestors_closed:
  assumes "closed_preds pm" "heads \<subseteq> dom pm"
  shows "ancestors_of pm heads \<subseteq> dom pm" "heads \<subseteq> ancestors_of pm heads"
    "pred_edges pm (ancestors_of pm heads) \<subseteq> ancestors_of pm heads \<times> ancestors_of pm heads"
proof -
  let ?E = "pred_edges pm (dom pm)"
  have E: "?E \<subseteq> dom pm \<times> dom pm" using assms(1) by (auto simp: pred_edges_def closed_preds_def)
  have "k \<in> dom pm" if "(k, hd) \<in> ?E\<^sup>*" "hd \<in> heads" for k hd
    using that assms(2) E by (induction rule: converse_rtrancl_induct) auto
  then show sub: "ancestors_of pm heads \<subseteq> dom pm" by (auto simp: ancestors_of_def)
  show "heads \<subseteq> ancestors_of pm heads" by (auto simp: ancestors_of_def)
  show "pred_edges pm (ancestors_of pm heads) \<subseteq> ancestors_of pm heads \<times> ancestors_of pm heads"
  proof
    fix e assume e: "e \<in> pred_edges pm (ancestors_of pm heads)"
    then obtain p k where pk: "e = (p, k)" "k \<in> ancestors_of pm heads" by (auto simp: pred_edges_def)
    then have "(p, k) \<in> ?E" using e pred_edges_mono [OF sub] by blast
    moreover obtain hd where "hd \<in> heads" "(k, hd) \<in> ?E\<^sup>*" using pk(2) by (auto simp: ancestors_of_def)
    ultimately have "p \<in> ancestors_of pm heads" unfolding ancestors_of_def by (auto intro: converse_rtrancl_into_rtrancl)
    then show "e \<in> ancestors_of pm heads \<times> ancestors_of pm heads" using pk by simp
  qed
qed

lemma ancestors_dag:
  assumes "closed_preds pm" "heads \<subseteq> dom pm" "acyclic (pred_edges pm (dom pm))"
  shows "is_dag (ancestors_of pm heads) (pred_edges pm (ancestors_of pm heads))"
  unfolding is_dag_def
proof (intro conjI)
  show "finite (ancestors_of pm heads)"
    using ancestors_closed(1) [OF assms(1,2)] assms(1) by (auto simp: closed_preds_def intro: finite_subset)
  show "acyclic (pred_edges pm (ancestors_of pm heads))"
    by (rule acyclic_subset [OF assms(3)]) (rule pred_edges_mono [OF ancestors_closed(1) [OF assms(1,2)]])
qed (rule ancestors_closed(3) [OF assms(1,2)])

lemma epochs_from_single: "epochs_from {a} {} {} [] = [[a]]"
proof -
  have "ready_at {a} {} {} = {a}" "ready_at {a} {} {a} = {}" "open_at {} {a} = {a}"
    by (auto simp: ready_at_def open_at_def)
  then show ?thesis by (simp add: epochs_from.simps [of "{a}" "{}"] Let_def close_epoch_def)
qed

lemma walk_result:
  assumes it: "iterates iter" and pm: "pm = cgka_ops_predecessors g" "closed_preds pm" and heads: "heads \<subseteq> dom pm"
  obtains w where "walk_loop iter g (Suc (card (dom pm))) (walk_start (iter heads)) = Ok w"
    "ts_ok (wk_dependencies w)" "ts_edges (wk_dependencies w) = pred_edges pm (ancestors_of pm heads)"
    "dom (ts_deps (wk_dependencies w)) = Field (pred_edges pm (ancestors_of pm heads))"
    "\<forall>n \<in> ancestors_of pm heads. wk_successors w n = Some (pred_edges pm (ancestors_of pm heads) `` {n})"
    "set (iter heads) = heads" "distinct (iter heads)"
proof -
  have fin: "finite heads" using heads pm(2) by (auto simp: closed_preds_def intro: finite_subset)
  have it_heads: "set (iter heads) = heads" "distinct (iter heads)" using it fin by (simp_all add: iterates_def)
  obtain w D where w: "walk_loop iter g (Suc (card (dom pm))) (walk_start (iter heads)) = Ok w"
    and inv: "walk_inv pm heads D w" and fr: "wk_frontier w = []"
    using walk_loop_ok [OF pm(2) [unfolded pm(1)] it, of heads "{}" "walk_start (iter heads)" "Suc (card (dom pm))"]
      walk_start_inv [OF it_heads heads] unfolding pm(1) by auto
  note D = walk_done [OF inv fr]
  show ?thesis by (rule that [OF w]) (use inv fr it_heads in \<open>auto simp: D walk_inv_def\<close>)
qed

text \<open>The result when some operation reached has a predecessor.\<close>

lemma topsort_for_heads_edges:
  assumes it: "iterates iter" and pm: "pm = cgka_ops_predecessors g" "closed_preds pm" "acyclic (pred_edges pm (dom pm))"
    and heads: "heads \<subseteq> dom pm" and ops: "\<And>k. k \<in> dom pm \<Longrightarrow> cgka_ops g k \<noteq> None"
    and ne: "Field (pred_edges pm (ancestors_of pm heads)) \<noteq> {}"
  defines "E \<equiv> pred_edges pm (ancestors_of pm heads)"
  shows "topsort_for_heads iter g heads = Ok (map (map (op_at g)) (epochs_from (Field E) E {} []))" "is_dag (Field E) E"
proof -
  have sub: "Field E \<subseteq> ancestors_of pm heads" "Field E \<subseteq> dom pm"
    using ancestors_closed(1,3) [OF pm(2) heads] by (auto simp: E_def Field_def)
  show dag: "is_dag (Field E) E"
    using ancestors_dag [OF pm(2) heads pm(3)] sub(1) unfolding is_dag_def E_def by (auto simp: Field_def intro: finite_subset)
  obtain w where w: "walk_loop iter g (Suc (card (dom pm))) (walk_start (iter heads)) = Ok w"
    and I: "ts_ok (wk_dependencies w)" "ts_edges (wk_dependencies w) = E" "dom (ts_deps (wk_dependencies w)) = Field E"
      "\<forall>n \<in> ancestors_of pm heads. wk_successors w n = Some (E `` {n})"
      "set (iter heads) = heads" "distinct (iter heads)"
    unfolding E_def by (rule walk_result [OF it pm(1,2) heads])
  let ?e = "\<lparr> ep_dependencies = wk_dependencies w, ep_successors = wk_successors w, ep_heads = {}, ep_next = [], ep_done = [] \<rparr>"
  have ops': "\<And>n. n \<in> Field E \<Longrightarrow> cgka_ops g n \<noteq> None" using ops sub(2) by blast
  have "epoch_inv g (Field E) E {} [] [] ?e" using I sub(1) unfolding epoch_inv_def by (auto simp: open_at_def)
  then obtain e where e: "epoch_loop iter g (card (Field E)) ?e = Ok e"
    "ep_done (push_epoch True e) = map (map (op_at g)) (epochs_from (Field E) E {} [])"
    using epoch_loop_eq [OF dag _ _ it ops', of "{}" "[]" "[]" ?e "card (Field E)"] by (auto simp: down_closed_def)
  moreover have "epochs_from (Field E) E {} [] \<noteq> []"
    using epochs_from_ordered [OF dag, of "{}" "[]"] ne by (auto simp: down_closed_def E_def)
  moreover have "\<not> ts_is_empty (wk_dependencies w)" using I(3) ne by (simp add: ts_is_empty_def E_def)
  ultimately show "topsort_for_heads iter g heads = Ok (map (map (op_at g)) (epochs_from (Field E) E {} []))"
    using w I(3) unfolding pm(1) by (simp add: topsort_for_heads_def nonempty_def)
qed

lemma topsort_for_heads_eq:
  assumes it: "iterates iter" and pm: "pm = cgka_ops_predecessors g" "closed_preds pm" "acyclic (pred_edges pm (dom pm))"
    and heads: "heads \<subseteq> dom pm" "heads \<noteq> {}" and ops: "\<And>k. k \<in> dom pm \<Longrightarrow> cgka_ops g k \<noteq> None"
    and conn: "connected pm (ancestors_of pm heads)"
  shows "topsort_for_heads iter g heads =
    Ok (map (map (op_at g)) (epochs_from (ancestors_of pm heads) (pred_edges pm (ancestors_of pm heads)) {} []))"
proof (cases "is_singleton (ancestors_of pm heads)")
  case True
  let ?A = "ancestors_of pm heads" and ?E = "pred_edges pm (ancestors_of pm heads)"
  note dag = ancestors_dag [OF pm(2) heads(1) pm(3)] and anc = ancestors_closed [OF pm(2) heads(1)]
  obtain a where a: "?A = {a}" using True by (rule is_singletonE)
  have "?E \<subseteq> {(a, a)}" using anc(3) unfolding a by auto
  moreover have "(a, a) \<notin> ?E" using is_dagD(3) [OF dag] by (auto simp: acyclic_def)
  ultimately have E: "?E = {}" by blast
  have hs: "heads = {a}" using heads(2) anc(2) unfolding a by blast
  obtain w where w: "walk_loop iter g (Suc (card (dom pm))) (walk_start (iter heads)) = Ok w"
    "dom (ts_deps (wk_dependencies w)) = Field ?E" "set (iter heads) = heads" "distinct (iter heads)"
    by (rule walk_result [OF it pm(1,2) heads(1)]) (rule that)
  then have "iter heads = [a]" unfolding hs by (cases "iter {a}" rule: remdups_adj.cases) auto
  moreover have "cgka_ops g a = Some (op_at g a)" using ops heads(1) hs by (auto simp: op_at_def)
  ultimately show ?thesis using w(1,2) E a unfolding pm(1)
    by (simp add: topsort_for_heads_def ts_is_empty_def ca_get_def nonempty_def epochs_from_single)
next
  case False
  let ?A = "ancestors_of pm heads" and ?E = "pred_edges pm (ancestors_of pm heads)"
  note anc = ancestors_closed [OF pm(2) heads(1)]
  have "Field ?E = ?A" using False conn anc(3) by (auto simp: connected_def Field_def)
  moreover have "?A \<noteq> {}" using heads(2) anc(2) by blast
  ultimately show ?thesis using topsort_for_heads_edges(1) [OF it pm heads(1) ops] by simp
qed

section \<open>Properties\<close>

text \<open>Sets of operations with at most one operation that has no predecessor, the first \<open>Add\<close>.\<close>

definition one_root :: "signed_op set \<Rightarrow> bool" where
  "one_root S \<longleftrightarrow> (\<forall>a \<in> S. \<forall>b \<in> S. preds a = {} \<and> preds b = {} \<longrightarrow> a = b)"

lemma represents_preds:
  assumes S: "causal_set h S" and g: "represents h S g"
  shows "closed_preds (cgka_ops_predecessors g)"
    "pred_edges (cgka_ops_predecessors g) (dom (cgka_ops_predecessors g)) = causes h S"
    "acyclic (pred_edges (cgka_ops_predecessors g) (dom (cgka_ops_predecessors g)))"
    "k \<in> dom (cgka_ops_predecessors g) \<Longrightarrow> cgka_ops g k \<noteq> None" "op \<in> S \<Longrightarrow> op_at g (h op) = op"
proof -
  show "closed_preds (cgka_ops_predecessors g)"
    unfolding closed_preds_def represents_dom(2) [OF g] representsD(2) [OF g]
    using causal_setD(1,3) [OF S] by auto
  show eq: "pred_edges (cgka_ops_predecessors g) (dom (cgka_ops_predecessors g)) = causes h S"
    unfolding pred_edges_def represents_dom(2) [OF g] representsD(2) [OF g] causes_def by auto metis
  show "acyclic (pred_edges (cgka_ops_predecessors g) (dom (cgka_ops_predecessors g)))"
    unfolding eq by (rule causal_acyclic [OF S])
  show "k \<in> dom (cgka_ops_predecessors g) \<Longrightarrow> cgka_ops g k \<noteq> None"
    using represents_dom [OF g] by blast
  show "op \<in> S \<Longrightarrow> op_at g (h op) = op"
    using representsD(1) [OF g, of "h op" op] by (simp add: op_at_def)
qed

lemma pred_edges_ancestors:
  assumes S: "causal_set h S" and g: "represents h S g" and heads: "heads \<subseteq> h ` S"
  shows "pred_edges (cgka_ops_predecessors g) (ancestors_of (cgka_ops_predecessors g) heads) =
    {(p, k) \<in> causes h S. k \<in> ancestors_of (cgka_ops_predecessors g) heads}"
proof -
  note pm = represents_preds [OF S g] and d = represents_dom(2) [OF g]
  have "ancestors_of (cgka_ops_predecessors g) heads \<subseteq> dom (cgka_ops_predecessors g)"
    using ancestors_closed(1) [OF pm(1)] heads d by simp
  then show ?thesis unfolding pm(2) [symmetric] pred_edges_def by blast
qed

lemma one_root_connected:
  assumes S: "causal_set h S" and g: "represents h S g" and root: "one_root S" and heads: "heads \<subseteq> h ` S"
  shows "connected (cgka_ops_predecessors g) (ancestors_of (cgka_ops_predecessors g) heads)"
proof (cases "is_singleton (ancestors_of (cgka_ops_predecessors g) heads)")
  case False
  let ?A = "ancestors_of (cgka_ops_predecessors g) heads"
  let ?E = "pred_edges (cgka_ops_predecessors g) ?A"
  note d = represents_dom(2) [OF g] and pm = represents_preds [OF S g]
  have hs: "heads \<subseteq> dom (cgka_ops_predecessors g)" using heads d by simp
  note dag = ancestors_dag [OF pm(1) hs pm(3)] and anc = ancestors_closed [OF pm(1) hs]
  have pred: "\<exists>op \<in> S. h op = k \<and> ((\<exists>p. (p, k) \<in> ?E) \<or> preds op = {})" if "k \<in> ?A" for k
    using that anc(1) d unfolding pred_edges_ancestors [OF S g heads] by (fastforce simp: causes_def)
  have "k \<in> Field ?E" if k: "k \<in> ?A" for k
  proof (cases "\<exists>p. (p, k) \<in> ?E")
    case no_pred: False
    obtain a where a: "a \<in> ?A" "a \<noteq> k" using False k unfolding is_singleton_def by blast
    have "(k, a) \<in> ?E\<^sup>+" using a
    proof (induction a rule: wf_induct_rule [OF is_dagD(4) [OF dag]])
      case (1 a)
      obtain op1 op2 where ops: "op1 \<in> S" "h op1 = a" "(\<exists>p. (p, a) \<in> ?E) \<or> preds op1 = {}"
        "op2 \<in> S" "h op2 = k" "preds op2 = {}"
        using pred [OF 1(2)] pred [OF k] no_pred by auto
      then have "preds op1 \<noteq> {}" using root 1(3) unfolding one_root_def by metis
      then obtain p where p: "(p, a) \<in> ?E" using ops(3) by blast
      then have "p \<in> ?A" using anc(3) by blast
      then show ?case using 1(1) [OF p] p by (cases "p = k") (auto intro: trancl_into_trancl)
    qed
    then show ?thesis by (meson FieldI1 tranclD)
  qed (auto simp: Field_def)
  then show ?thesis by (auto simp: connected_def)
qed (simp add: connected_def)

lemma topsort_represents:
  assumes it: "iterates iter" and S: "causal_set h S" and g: "represents h S g" and root: "one_root S"
    and heads: "heads \<subseteq> h ` S" "heads \<noteq> {}"
  defines "A \<equiv> ancestors_of (cgka_ops_predecessors g) heads"
  shows "topsort_for_heads iter g heads =
      Ok (map (map (op_at g)) (epochs_from A {(p, k) \<in> causes h S. k \<in> A} {} []))"
    and "is_dag A {(p, k) \<in> causes h S. k \<in> A}" "A \<subseteq> h ` S"
proof -
  note pm = represents_preds [OF S g] and d = represents_dom(2) [OF g]
  have hs: "heads \<subseteq> dom (cgka_ops_predecessors g)" using heads d by simp
  show "topsort_for_heads iter g heads =
      Ok (map (map (op_at g)) (epochs_from A {(p, k) \<in> causes h S. k \<in> A} {} []))"
    unfolding A_def pred_edges_ancestors [OF S g heads(1), symmetric]
    by (rule topsort_for_heads_eq [OF it refl pm(1,3) hs heads(2) pm(4) one_root_connected [OF S g root heads(1)]])
  show "is_dag A {(p, k) \<in> causes h S. k \<in> A}"
    unfolding A_def pred_edges_ancestors [OF S g heads(1), symmetric] by (rule ancestors_dag [OF pm(1) hs pm(3)])
  show "A \<subseteq> h ` S" using ancestors_closed(1) [OF pm(1) hs] d by (simp add: A_def)
qed

lemma map_hash_epochs:
  assumes S: "causal_set h S" and g: "represents h S g" and D: "set (concat D) \<subseteq> h ` S"
  shows "map h (concat (map (map (op_at g)) D)) = concat D"
    "set (concat (map (map (op_at g)) D)) \<subseteq> S" "e \<in> set D \<Longrightarrow> map h (map (op_at g) e) = e"
proof -
  have at: "h (op_at g k) = k" "op_at g k \<in> S" if "k \<in> h ` S" for k
    using that represents_preds(5) [OF S g] by auto
  show e: "map h (map (op_at g) e) = e" if "e \<in> set D" for e
    using that D at(1) by (auto simp: comp_def intro!: map_idI)
  have "map h (concat (map (map (op_at g)) D)) = concat (map (\<lambda>e. map h (map (op_at g) e)) D)"
    by (simp add: map_concat comp_def)
  also have "\<dots> = concat (map (\<lambda>e. e) D)" using e by (intro arg_cong [where f = concat] map_cong) auto
  finally show "map h (concat (map (map (op_at g)) D)) = concat D" by simp
  show "set (concat (map (map (op_at g)) D)) \<subseteq> S" using D at(2) by auto
qed

text \<open>
  C10 Ordering operations into epochs. For a causally grown set of operations with one root and
  any heads in it, \<open>topsort_for_heads\<close> returns, for every iteration order of the hash sets the
  same non-empty epochs: they hold each ancestor of the heads exactly once and after all its
  predecessors, and every operation of an epoch causally precedes every operation of each
  later epoch, so only operations of one epoch can be concurrent.
\<close>

theorem topsort_epochs_causal:
  assumes it: "iterates iter" and S: "causal_set h S" and g: "represents h S g" and root: "one_root S"
    and heads: "heads \<subseteq> h ` S" "heads \<noteq> {}"
  shows "\<exists>epochs. topsort_for_heads iter g heads = Ok epochs \<and>
    topsort_for_heads sorted_list_of_set g heads = Ok epochs \<and>
    distinct (map h (concat epochs)) \<and> set (concat epochs) \<subseteq> S \<and>
    h ` set (concat epochs) = {k. \<exists>hd \<in> heads. (k, hd) \<in> (causes h S)\<^sup>*} \<and>
    topological (causes h S) (map h (concat epochs)) \<and> [] \<notin> set epochs \<and>
    sorted_wrt (\<lambda>e1 e2. \<forall>a \<in> set e1. \<forall>b \<in> set e2. (h a, h b) \<in> (causes h S)\<^sup>+) epochs"
proof -
  let ?A = "ancestors_of (cgka_ops_predecessors g) heads"
  let ?E = "{(p, k) \<in> causes h S. k \<in> ?A}"
  let ?D = "epochs_from ?A ?E {} []" and ?es = "map (map (op_at g)) (epochs_from ?A ?E {} [])"
  note dag = topsort_represents(2) [OF it S g root heads]
  have down: "down_closed ?E {}" by (simp add: down_closed_def)
  note ord = epochs_from_ordered [OF dag down, of "[]", simplified]
    and top = epochs_from_topological [OF dag down, of "[]", simplified]
  have D: "set (concat ?D) = ?A" using ord by simp
  have D_sub: "set (concat ?D) \<subseteq> h ` S" unfolding D by (rule topsort_represents(3) [OF it S g root heads])
  note hash = map_hash_epochs [OF S g D_sub]
  have A: "?A = {k. \<exists>hd \<in> heads. (k, hd) \<in> (causes h S)\<^sup>*}"
    by (simp add: ancestors_of_def represents_preds(2) [OF S g])
  have "topological (causes h S) (concat ?D)"
    unfolding topological_def
  proof (intro allI impI, elim conjE)
    fix us a vs b assume xs: "concat ?D = us @ a # vs" and "(b, a) \<in> causes h S"
    moreover have "a \<in> set (concat ?D)" unfolding xs by simp
    then have "a \<in> ?A" by (simp only: D)
    ultimately have "(b, a) \<in> ?E" by simp
    then show "b \<in> set us" using conjunct2 [OF top] xs unfolding topological_def by blast
  qed
  moreover have "sorted_wrt (\<lambda>e1 e2. \<forall>a \<in> set e1. \<forall>b \<in> set e2. (h a, h b) \<in> (causes h S)\<^sup>+) ?es"
    unfolding sorted_wrt_map
  proof (rule sorted_wrt_mono_rel [OF _ conjunct1 [OF ord]])
    fix e1 e2 assume e: "e1 \<in> set ?D" "e2 \<in> set ?D" "precedes_all ?E e1 e2"
    have "?E\<^sup>+ \<subseteq> (causes h S)\<^sup>+" by (rule trancl_mono_subset) auto
    moreover have "h ` set (map (op_at g) e1) = set e1" "h ` set (map (op_at g) e2) = set e2"
      using hash(3) [OF e(1)] hash(3) [OF e(2)] by (metis list.set_map)+
    ultimately show "\<forall>a \<in> set (map (op_at g) e1). \<forall>b \<in> set (map (op_at g) e2). (h a, h b) \<in> (causes h S)\<^sup>+"
      using e(3) unfolding precedes_all_def by blast
  qed
  moreover have "h ` set (concat ?es) = ?A" using hash(1) D by (metis list.set_map)
  moreover have "[] \<notin> set ?es" using ord by auto
  moreover have "distinct (map h (concat ?es))" unfolding hash(1) using top by blast
  ultimately show ?thesis
    using topsort_represents(1) [OF it S g root heads] topsort_represents(1) [OF iterates_sorted S g root heads] hash(1,2) A
    by (intro exI [of _ ?es]) simp
qed

lemma demo_causal:
  "causal_set demo_hash {demo_update 1 [], demo_update 2 [1], demo_update 3 [1]}"
  "one_root {demo_update 1 [], demo_update 2 [1], demo_update 3 [1]}"
  "causal_set demo_hash {demo_update 1 [], demo_update 2 [1], demo_update 3 []}"
proof -
  have c: "causal_order demo_hash {} [demo_update 1 [], demo_update 2 [1], demo_update 3 [1]]"
    "causal_order demo_hash {} [demo_update 1 [], demo_update 2 [1], demo_update 3 []]" by simp_all
  show "causal_set demo_hash {demo_update 1 [], demo_update 2 [1], demo_update 3 [1]}"
    "causal_set demo_hash {demo_update 1 [], demo_update 2 [1], demo_update 3 []}"
    using deliver_represents [OF causal_empty represents_new c(1)] deliver_represents [OF causal_empty represents_new c(2)] by auto
  show "one_root {demo_update 1 [], demo_update 2 [1], demo_update 3 [1]}" by (auto simp: one_root_def)
qed

theorem topsort_epochs_causal_witness:
  "\<exists>g epochs. deliver demo_hash graph_new [demo_update 1 [], demo_update 2 [1], demo_update 3 [1]] = Ok g \<and>
     topsort_for_heads sorted_list_of_set g {Digest [2], Digest [3]} = Ok epochs \<and> [] \<notin> set epochs"
proof -
  have c: "causal_order demo_hash {} [demo_update 1 [], demo_update 2 [1], demo_update 3 [1]]" by simp
  obtain g where g: "deliver demo_hash graph_new [demo_update 1 [], demo_update 2 [1], demo_update 3 [1]] = Ok g"
    "represents demo_hash {demo_update 1 [], demo_update 2 [1], demo_update 3 [1]} g"
    using deliver_represents [OF causal_empty represents_new c] by auto
  then show ?thesis
    using topsort_epochs_causal [OF iterates_sorted demo_causal(1) g(2) demo_causal(2), of "{Digest [2], Digest [3]}"] by auto
qed

text \<open>
  C31 An operation is lost: a head without predecessors that no operation names is missing from
  the result as soon as any operation reached from the heads has a predecessor, because only
  operations with a dependency enter the sorter. The code returns \<open>Ok\<close>.
\<close>

theorem topsort_drops_isolated_head:
  assumes it: "iterates iter" and S: "causal_set h S" and g: "represents h S g"
    and heads: "heads \<subseteq> h ` S" and op: "op \<in> S" "h op \<in> heads" "preds op = {}" "\<forall>b \<in> S. h op \<notin> preds b"
    and other: "\<exists>b \<in> S. h b \<in> heads \<and> preds b \<noteq> {}"
  shows "\<exists>epochs. topsort_for_heads iter g heads = Ok epochs \<and> op \<notin> set (concat epochs)"
proof -
  note pm = represents_preds [OF S g] and d = represents_dom(2) [OF g]
  let ?A = "ancestors_of (cgka_ops_predecessors g) heads"
  let ?E = "pred_edges (cgka_ops_predecessors g) ?A"
  have hs: "heads \<subseteq> dom (cgka_ops_predecessors g)" using heads d by simp
  note anc = ancestors_closed [OF pm(1) hs]
  note E = pred_edges_ancestors [OF S g heads]
  obtain b p where "b \<in> S" "h b \<in> heads" "p \<in> preds b" using other by blast
  then have "(p, h b) \<in> ?E" unfolding E using anc(2) by (auto simp: causes_def)
  then have "Field ?E \<noteq> {}" by (auto simp: Field_def)
  note top = topsort_for_heads_edges [OF it refl pm(1,3) hs pm(4) this]
  have "h op \<notin> Field ?E"
    using op causal_setD(2) [OF S] unfolding E by (auto simp: Field_def causes_def dest!: inj_onD)
  moreover have "set (concat (epochs_from (Field ?E) ?E {} [])) = Field ?E"
    using epochs_from_ordered [OF top(2), of "{}" "[]"] by (simp add: down_closed_def)
  moreover have "Field ?E \<subseteq> h ` S" using anc(1,3) d by (auto simp: Field_def)
  ultimately have "h op \<notin> h ` set (concat (map (map (op_at g)) (epochs_from (Field ?E) ?E {} [])))"
    using map_hash_epochs(1) [OF S g, of "epochs_from (Field ?E) ?E {} []"] by (metis list.set_map)
  then show ?thesis using top(1) by blast
qed

theorem topsort_drops_isolated_head_witness:
  "\<exists>g epochs. deliver demo_hash graph_new [demo_update 1 [], demo_update 2 [1], demo_update 3 []] = Ok g \<and>
     topsort_graph sorted_list_of_set g = Ok epochs \<and> demo_update 3 [] \<notin> set (concat epochs)"
proof -
  have c: "causal_order demo_hash {} [demo_update 1 [], demo_update 2 [1], demo_update 3 []]" by simp
  obtain g where g: "deliver demo_hash graph_new [demo_update 1 [], demo_update 2 [1], demo_update 3 []] = Ok g"
    "represents demo_hash {demo_update 1 [], demo_update 2 [1], demo_update 3 []} g"
    using deliver_represents [OF causal_empty represents_new c] by auto
  have "cgka_op_heads g = {Digest [2], Digest [3]}" unfolding representsD(3) [OF g(2)] by auto
  then show ?thesis
    using topsort_drops_isolated_head [OF iterates_sorted demo_causal(3) g(2), of "cgka_op_heads g" "demo_update 3 []"] g(1)
    by (auto simp: topsort_graph_def)
qed

end
