(* ===== verification/Bee_Kem_Inv.thy ===== *)
theory Bee_Kem_Inv
  imports Bee_Kem
begin

text \<open>
  The invariant of the BeeKEM tree and what its operations do to it.

  \<open>bk_wf d t\<close> says that \<open>t\<close> is a tree of depth \<open>d\<close>: vector lengths fit the tree size, every
  inner node that is not blank has a version, the id map and the leaves agree, leaves from
  \<open>next_leaf_idx\<close> on are blank, and a root key has an encrypter. Every operation that
  changes the tree keeps it and does not panic or run on.
\<close>

section \<open>The invariant\<close>

definition node_skip :: "beekem \<Rightarrow> nat \<Rightarrow> nat \<Rightarrow> bool" where
  "node_skip t k q =
     (if k = 0 then bk_leaves t ! q = None
      else case bk_inner_nodes t ! inner_at k q of None \<Rightarrow> True | Some s \<Rightarrow> has_conflict s)"

definition ids_match :: "beekem \<Rightarrow> bool" where
  "ids_match t \<longleftrightarrow>
     (\<forall>mid i. bk_id_to_leaf_idx t mid = Some i \<longleftrightarrow>
        i < bk_next_leaf_idx t \<and> (\<exists>l. bk_leaves t ! i = Some l \<and> ln_id l = mid)) \<and>
     (\<forall>i < length (bk_leaves t). bk_next_leaf_idx t \<le> i \<longrightarrow> bk_leaves t ! i = None)"

definition bk_shape :: "nat \<Rightarrow> beekem \<Rightarrow> bool" where
  "bk_shape d t \<longleftrightarrow> 0 < d \<and> d \<le> 30 \<and> bk_tree_size t = full_size d \<and>
     length (bk_leaves t) = 2 ^ d \<and> length (bk_inner_nodes t) = 2 ^ d - Suc 0 \<and>
     bk_next_leaf_idx t \<le> 2 ^ d \<and>
     (\<forall>s. Some s \<in> set (bk_inner_nodes t) \<longrightarrow> ss_versions s \<noteq> []) \<and>
     ids_match t"

definition bk_wf :: "nat \<Rightarrow> beekem \<Rightarrow> bool" where
  "bk_wf d t \<longleftrightarrow> bk_shape d t \<and>
     (\<not> node_skip t d 0 \<longrightarrow> bk_current_secret_encrypter_leaf_idx t \<noteq> None) \<and>
     (\<forall>i. bk_current_secret_encrypter_leaf_idx t = Some i \<longrightarrow> i < 2 ^ d \<and> bk_leaves t ! i \<noteq> None)"

lemma bk_wf_shape [simp]: "bk_wf d t \<Longrightarrow> bk_shape d t"
  by (simp add: bk_wf_def)

lemma bk_wf_current:
  "bk_wf d t \<Longrightarrow> bk_current_secret_encrypter_leaf_idx t = Some i \<Longrightarrow> i < 2 ^ d"
  by (simp add: bk_wf_def)

lemma bk_wf_root:
  "bk_wf d t \<Longrightarrow> \<not> node_skip t d 0 \<Longrightarrow> \<exists>i < 2 ^ d. bk_current_secret_encrypter_leaf_idx t = Some i"
  by (auto simp: bk_wf_def)

lemma bk_shape_depth: "bk_shape d t \<Longrightarrow> 0 < d" "bk_shape d t \<Longrightarrow> d \<le> 30"
  by (simp_all add: bk_shape_def)

lemma bk_shape_size: "bk_shape d t \<Longrightarrow> bk_tree_size t = full_size d"
  by (simp add: bk_shape_def)

lemma bk_shape_next: "bk_shape d t \<Longrightarrow> bk_next_leaf_idx t \<le> 2 ^ d"
  by (simp add: bk_shape_def)

lemma bk_shape_ids: "bk_shape d t \<Longrightarrow> ids_match t"
  by (simp add: bk_shape_def)

lemma bk_shape_stores: "bk_shape d t \<Longrightarrow> Some s \<in> set (bk_inner_nodes t) \<Longrightarrow> ss_versions s \<noteq> []"
  by (simp add: bk_shape_def)

lemma bk_shape_lengths [simp]:
  "bk_shape d t \<Longrightarrow> length (bk_leaves t) = 2 ^ d"
  "bk_shape d t \<Longrightarrow> length (bk_inner_nodes t) = 2 ^ d - Suc 0"
  by (simp_all add: bk_shape_def)

lemma bk_shape_versions:
  "bk_shape d t \<Longrightarrow> i < 2 ^ d - Suc 0 \<Longrightarrow> bk_inner_nodes t ! i = Some s \<Longrightarrow> ss_versions s \<noteq> []"
  unfolding bk_shape_def by (metis nth_mem)

lemma bk_shape_id:
  assumes "bk_shape d t" "bk_id_to_leaf_idx t mid = Some i"
  obtains l where "i < 2 ^ d" "i < bk_next_leaf_idx t" "bk_leaves t ! i = Some l" "ln_id l = mid"
  using assms that unfolding bk_shape_def ids_match_def by (metis order_less_le_trans)

lemmas bk_wf_lengths [simp] = bk_shape_lengths [OF bk_wf_shape]
lemmas bk_wf_depth = bk_shape_depth [OF bk_wf_shape]
lemmas bk_wf_size = bk_shape_size [OF bk_wf_shape]
lemmas bk_wf_next = bk_shape_next [OF bk_wf_shape]
lemmas bk_wf_ids = bk_shape_ids [OF bk_wf_shape]
lemmas bk_wf_stores = bk_shape_stores [OF bk_wf_shape]
lemmas bk_wf_id = bk_shape_id [OF bk_wf_shape]

lemma leaf_Ok: "bk_shape d t \<Longrightarrow> i < 2 ^ d \<Longrightarrow> leaf t i = Ok (bk_leaves t ! i)"
  by (simp add: leaf_def)

lemma inner_node_Ok:
  "bk_shape d t \<Longrightarrow> in_tree d k q \<Longrightarrow> 0 < k \<Longrightarrow> inner_node t (inner_at k q) = Ok (bk_inner_nodes t ! inner_at k q)"
  by (simp add: inner_node_def inner_at_less)

lemma is_root_idx: "bk_shape d t \<Longrightarrow> in_tree d k q \<Longrightarrow> is_root t (node_idx k q) \<longleftrightarrow> k = d"
  using bee.top_iff [of d k q] by (simp add: is_root_def bk_shape_size)

lemma should_skip_idx:
  "bk_shape d t \<Longrightarrow> in_tree d k q \<Longrightarrow> should_skip_for_resolution t (node_idx k q) = Ok (node_skip t k q)"
  by (cases k) (simp_all add: should_skip_for_resolution_def is_blank_def leaf_def node_skip_def
      inner_node_Ok in_tree_def order_less_le_trans)

lemma has_root_key_wf: "bk_shape d t \<Longrightarrow> has_root_key t = Ok (\<not> node_skip t d 0)"
proof -
  assume wf: "bk_shape d t"
  then have "0 < d" "d \<le> 30" by (rule bk_shape_depth)+
  then obtain m where d: "d = Suc m" "d \<le> 30" by (cases d) auto
  then have "in_tree d d 0" by (simp add: in_tree_def)
  then have "inner_node t (inner_at (Suc m) 0) = Ok (bk_inner_nodes t ! inner_at (Suc m) 0)"
    using inner_node_Ok [OF wf, of "Suc m" 0] d by simp
  with wf d show ?thesis
    by (auto simp: has_root_key_def bk_shape_size root_idx node_skip_def split: option.splits)
qed

lemma leaf_path_wf:
  "bk_shape d t \<Longrightarrow> i < 2 ^ d \<Longrightarrow>
    direct_path (Leaf i) (bk_tree_size t) = Ok (map (\<lambda>k. anc k i) [1..<Suc d])"
  using direct_path_leaf [of d i] bk_shape_depth by (simp add: bk_shape_size)

section \<open>Blanking a path\<close>

text \<open>What \<open>blank_path\<close> leaves: the ancestors of leaf \<open>i\<close> blank and no encrypter.\<close>

definition blank_ancs :: "nat \<Rightarrow> leaf_node_index \<Rightarrow> 'a option list \<Rightarrow> 'a option list" where
  "blank_ancs d i ns = fold (\<lambda>k ns. ns[anc k i := None]) [1..<Suc d] ns"

lemma length_fold_update [simp]: "length (fold (\<lambda>k ns. ns[f k := None]) ks ns) = length ns"
  by (induction ks arbitrary: ns) auto

lemma nth_fold_update:
  "n < length ns \<Longrightarrow> fold (\<lambda>k ns. ns[f k := None]) ks ns ! n = (if n \<in> f ` set ks then None else ns ! n)"
  by (induction ks arbitrary: ns) (auto simp: nth_list_update)

lemma length_blank_ancs [simp]: "length (blank_ancs d i ns) = length ns"
  by (simp add: blank_ancs_def)

lemma nth_blank_ancs:
  "n < length ns \<Longrightarrow> blank_ancs d i ns ! n = (if n \<in> (\<lambda>k. anc k i) ` {1..d} then None else ns ! n)"
  by (simp add: blank_ancs_def nth_fold_update atLeastLessThanSuc_atLeastAtMost del: upt_Suc)

lemma blank_loop_step:
  "bk_tree_size t = full_size d \<Longrightarrow> blank_path_loop n idx t =
    (if Inner idx \<noteq> root (full_size d)
     then (case n of 0 \<Rightarrow> Hang | Suc m \<Rightarrow> and_then (blank_inner_node idx t) (blank_path_loop m (parent (Inner idx))))
     else map_ok (\<lambda>t'. t'\<lparr> bk_current_secret_encrypter_leaf_idx := None \<rparr>) (blank_inner_node idx t))"
  by (subst blank_path_loop.simps) (simp add: is_root_def)

lemma blank_inner_fold:
  assumes "\<And>k. k \<in> set ks \<Longrightarrow> f k < length (bk_inner_nodes t)"
  shows "fold_ok (\<lambda>t k. blank_inner_node (f k) t) t ks =
    Ok (t\<lparr> bk_inner_nodes := fold (\<lambda>k ns. ns[f k := None]) ks (bk_inner_nodes t) \<rparr>)"
  using assms
proof (induction ks arbitrary: t)
  case (Cons k ks)
  let ?t = "t\<lparr> bk_inner_nodes := (bk_inner_nodes t)[f k := None] \<rparr>"
  have "fold_ok (\<lambda>t k. blank_inner_node (f k) t) ?t ks =
      Ok (?t\<lparr> bk_inner_nodes := fold (\<lambda>k ns. ns[f k := None]) ks (bk_inner_nodes ?t) \<rparr>)"
    using Cons.prems by (intro Cons.IH) simp
  then show ?case using Cons.prems by (simp add: blank_inner_node_def)
qed simp

lemma blank_path_eq:
  assumes d: "0 < d" "d \<le> 30" and i: "i < 2 ^ d" and size: "bk_tree_size t = full_size d"
    and len: "length (bk_inner_nodes t) = 2 ^ d - Suc 0"
  shows "blank_path (parent (Leaf i)) t =
    Ok (t\<lparr> bk_inner_nodes := blank_ancs d i (bk_inner_nodes t),
      bk_current_secret_encrypter_leaf_idx := None \<rparr>)"
proof -
  define step where "step x = (case x of Inner idx \<Rightarrow> blank_inner_node idx | Leaf _ \<Rightarrow> (\<lambda>_. Panic))" for x
  define fin where "fin x t = map_ok (\<lambda>t'. t'\<lparr> bk_current_secret_encrypter_leaf_idx := None \<rparr>) (step x t)" for x t
  define loop where "loop n x = (case x of Inner idx \<Rightarrow> blank_path_loop n idx
    | Leaf _ \<Rightarrow> (\<lambda>_. case n of 0 \<Rightarrow> Hang | Suc _ \<Rightarrow> Panic))" for n :: nat and x
  have top: "root (full_size d) = Inner (anc d i)" using d i by (rule root_anc)
  have "in_tree d 1 (i div 2)" using in_tree_anc [of d i 1] d i by simp
  moreover have "loop n x s = (if x \<noteq> root (full_size d)
      then (case n of 0 \<Rightarrow> Hang | Suc m \<Rightarrow> and_then (step x s) (loop m (Inner (parent x)))) else fin x s)"
    if "bk_tree_size s = full_size d" for n x s
    using blank_loop_step [OF that] top
    by (auto simp: loop_def step_def fin_def split: tree_node_index.splits nat.splits)
  moreover have "bk_tree_size s' = full_size d"
    if "bk_tree_size s = full_size d" "step x s = Ok s'" for x s s'
    using that by (auto simp: step_def blank_inner_node_def map_ok_eq_Ok split: tree_node_index.splits)
  ultimately have "loop 32 (node_idx 1 (i div 2)) t =
      and_then (fold_ok (\<lambda>s m. step (node_idx m (i div 2 div 2 ^ (m - 1))) s) t [1..<d])
        (fin (root (full_size d)))"
    using d size by (intro bee.climb_is_fold [where keep = "\<lambda>t. bk_tree_size t = full_size d"]) auto
  also have "fold_ok (\<lambda>s m. step (node_idx m (i div 2 div 2 ^ (m - 1))) s) t [1..<d] =
      fold_ok (\<lambda>s m. blank_inner_node (anc m i) s) t [1..<d]"
  proof (rule fold_ok_cong)
    fix s m assume "m \<in> set [1..<d]"
    then have "0 < m" by simp
    then obtain n where "m = Suc n" by (cases m) simp_all
    then show "step (node_idx m (i div 2 div 2 ^ (m - 1))) s = blank_inner_node (anc m i) s"
      by (simp add: step_def anc_def div_mult2_eq)
  qed
  also have "\<dots> = Ok (t\<lparr> bk_inner_nodes := fold (\<lambda>k ns. ns[anc k i := None]) [1..<d] (bk_inner_nodes t) \<rparr>)"
    using anc_less [of d i] d i len by (intro blank_inner_fold) auto
  finally have "loop 32 (node_idx 1 (i div 2)) t = Ok (t\<lparr> bk_inner_nodes := blank_ancs d i (bk_inner_nodes t),
      bk_current_secret_encrypter_leaf_idx := None \<rparr>)"
    using anc_less [of d i d] d i len by (simp add: top fin_def step_def blank_inner_node_def blank_ancs_def)
  then show ?thesis
    using parent_leaf [of d i] d i by (simp add: loop_def blank_path_def anc_def)
qed

section \<open>Which nodes an operation leaves alone\<close>

definition node_val :: "beekem \<Rightarrow> nat \<Rightarrow> nat \<Rightarrow> leaf_node option + secret_store option" where
  "node_val t k q = (if k = 0 then Inl (bk_leaves t ! q) else Inr (bk_inner_nodes t ! inner_at k q))"

definition same_under :: "beekem \<Rightarrow> beekem \<Rightarrow> nat \<Rightarrow> nat \<Rightarrow> bool" where
  "same_under t t' k q \<longleftrightarrow> (\<forall>m p. m \<le> k \<and> p div 2 ^ (k - m) = q \<longrightarrow> node_val t' m p = node_val t m p)"

text \<open>\<open>t'\<close> arises from \<open>t\<close> by changing leaves and blanking everything above a change.\<close>

definition pruned :: "nat \<Rightarrow> beekem \<Rightarrow> beekem \<Rightarrow> bool" where
  "pruned d t t' \<longleftrightarrow> (\<forall>k q. in_tree d (Suc k) q \<longrightarrow>
     bk_inner_nodes t' ! inner_at (Suc k) q = None \<or> same_under t t' (Suc k) q)"

lemma node_val_skip: "node_val t' k q = node_val t k q \<Longrightarrow> node_skip t' k q = node_skip t k q"
  by (auto simp: node_val_def node_skip_def split: if_splits)

lemma same_under_skip:
  assumes "same_under t t' k q" "m \<le> k" "p div 2 ^ (k - m) = q"
  shows "node_skip t' m p = node_skip t m p"
proof (rule node_val_skip)
  show "node_val t' m p = node_val t m p" using assms by (simp add: same_under_def)
qed

lemma same_under_trans: "same_under t t' k q \<Longrightarrow> same_under t' t'' k q \<Longrightarrow> same_under t t'' k q"
  by (simp add: same_under_def)

lemma same_under_child:
  assumes "same_under t t' (Suc k) q" "c div 2 = q"
  shows "same_under t t' k c"
  unfolding same_under_def
proof (intro allI impI)
  fix m p assume "m \<le> k \<and> p div 2 ^ (k - m) = c"
  then have "m \<le> Suc k \<and> p div 2 ^ (Suc k - m) = q"
    using assms(2) div_pow_Suc [of p "k - m"] by (auto simp: Suc_diff_le)
  then show "node_val t' m p = node_val t m p" using assms(1) by (simp add: same_under_def)
qed

lemma pruned_refl: "pruned d t t"
  by (simp add: pruned_def same_under_def)

lemma prunedD:
  "pruned d t t' \<Longrightarrow> in_tree d (Suc k) q \<Longrightarrow> bk_inner_nodes t' ! inner_at (Suc k) q \<noteq> None \<Longrightarrow>
    same_under t t' (Suc k) q"
  unfolding pruned_def by metis

lemma pruned_trans:
  assumes "pruned d t t'" "pruned d t' t''"
  shows "pruned d t t''"
  unfolding pruned_def
proof (intro allI impI)
  fix k q assume i: "in_tree d (Suc k) q"
  show "bk_inner_nodes t'' ! inner_at (Suc k) q = None \<or> same_under t t'' (Suc k) q"
  proof (cases "bk_inner_nodes t'' ! inner_at (Suc k) q = None")
    case False
    with assms(2) i have s: "same_under t' t'' (Suc k) q" by (rule prunedD)
    then have "node_val t'' (Suc k) q = node_val t' (Suc k) q" by (simp add: same_under_def)
    with False have "bk_inner_nodes t' ! inner_at (Suc k) q \<noteq> None" by (simp add: node_val_def)
    with assms(1) i have "same_under t t' (Suc k) q" by (rule prunedD)
    with s show ?thesis using same_under_trans by blast
  qed simp
qed

text \<open>Below a node that is no ancestor of leaf \<open>i\<close>, changing \<open>i\<close> and blanking its path changes nothing.\<close>

lemma anc_under:
  assumes "d \<le> 30" "i < 2 ^ d" "in_tree d k q" "m \<le> k" "p div 2 ^ (k - m) = q" "0 < m"
    and "inner_at m p = anc j i" "0 < j" "j \<le> d"
  shows "i div 2 ^ k = q"
proof -
  have "in_tree d m p" using assms(3-5) by (rule in_tree_descendant)
  moreover have "in_tree d j (i div 2 ^ j)" using in_tree_anc assms by simp
  ultimately have "m = j" "p = i div 2 ^ j"
    using inner_at_inj [of d m p d j "i div 2 ^ j"] assms by (auto simp: anc_def)
  then show ?thesis using assms(4,5) div_pow_add [of i j "k - j"] by simp
qed

lemma blank_path_pruned:
  assumes "d \<le> 30" "i < 2 ^ d" and len: "length (bk_inner_nodes t) = 2 ^ d - Suc 0"
    and inner: "bk_inner_nodes t' = blank_ancs d i (bk_inner_nodes t)"
    and leaves: "\<And>j. j \<noteq> i \<Longrightarrow> bk_leaves t' ! j = bk_leaves t ! j"
  shows "pruned d t t'"
  unfolding pruned_def
proof (intro allI impI)
  fix k q assume i: "in_tree d (Suc k) q"
  show "bk_inner_nodes t' ! inner_at (Suc k) q = None \<or> same_under t t' (Suc k) q"
  proof (cases "i div 2 ^ Suc k = q")
    case True
    then have "inner_at (Suc k) q = anc (Suc k) i" by (simp add: anc_def)
    then show ?thesis using i len inner_at_less [OF i]
      by (auto simp: inner nth_blank_ancs in_tree_def image_iff intro!: bexI [of _ "Suc k"])
  next
    case False
    have "node_val t' m p = node_val t m p" if mp: "m \<le> Suc k" "p div 2 ^ (Suc k - m) = q" for m p
    proof (cases "m = 0")
      case True
      then have "p \<noteq> i" using mp False by auto
      then show ?thesis using True leaves by (simp add: node_val_def)
    next
      case m: False
      have "in_tree d m p" using i mp by (rule in_tree_descendant)
      then have "inner_at m p < length (bk_inner_nodes t)" using inner_at_less m len by simp
      moreover have "inner_at m p \<notin> (\<lambda>k. anc k i) ` {1..d}"
      proof
        assume "inner_at m p \<in> (\<lambda>k. anc k i) ` {1..d}"
        then obtain j where "inner_at m p = anc j i" "0 < j" "j \<le> d" by auto
        then show False using anc_under [OF assms(1,2) i mp] m False by blast
      qed
      ultimately show ?thesis using m by (simp add: node_val_def inner nth_blank_ancs)
    qed
    then show ?thesis by (simp add: same_under_def)
  qed
qed

section \<open>Adding a leaf\<close>

lemma ids_match_frame [frame_simps]:
  "ids_match (t\<lparr> bk_inner_nodes := ns \<rparr>) = ids_match t"
  "ids_match (t\<lparr> bk_current_secret_encrypter_leaf_idx := c \<rparr>) = ids_match t"
  by (simp_all add: ids_match_def)

lemma bk_wf_blankI:
  assumes "0 < d" "d \<le> 30" "i < 2 ^ d" "bk_tree_size t = full_size d"
    and len: "length (bk_leaves t) = 2 ^ d" "length (bk_inner_nodes t) = 2 ^ d - Suc 0"
    and "bk_next_leaf_idx t \<le> 2 ^ d" "ids_match t"
    and vers: "\<And>s. Some s \<in> set (bk_inner_nodes t) \<Longrightarrow> ss_versions s \<noteq> []"
  shows "bk_wf d (t\<lparr> bk_inner_nodes := blank_ancs d i (bk_inner_nodes t),
    bk_current_secret_encrypter_leaf_idx := None \<rparr>)"
proof -
  have "Some s \<in> set (bk_inner_nodes t)" if "Some s \<in> set (blank_ancs d i (bk_inner_nodes t))" for s
    using that by (auto simp: in_set_conv_nth nth_blank_ancs split: if_splits)
  moreover have "blank_ancs d i (bk_inner_nodes t) ! inner_at d 0 = None"
  proof -
    have "inner_at d 0 = anc d i" using assms(3) by (simp add: anc_def)
    then show ?thesis using anc_less [of d i d] assms(1-3) len by (simp add: nth_blank_ancs)
  qed
  ultimately show ?thesis
    unfolding bk_wf_def bk_shape_def using assms(1-8) vers by (simp add: frame_simps node_skip_def)
qed

definition grown_depth :: "nat \<Rightarrow> beekem \<Rightarrow> nat" where
  "grown_depth d t = (if bk_next_leaf_idx t = 2 ^ d then Suc d else d)"

definition pad :: "nat \<Rightarrow> 'a option list \<Rightarrow> 'a option list" where
  "pad n xs = xs @ replicate (n - length xs) None"

lemma nth_pad: "i < n \<Longrightarrow> length xs \<le> n \<Longrightarrow> pad n xs ! i = (if i < length xs then xs ! i else None)"
  by (auto simp: pad_def nth_append)

lemma length_pad [simp]: "length xs \<le> n \<Longrightarrow> length (pad n xs) = n"
  by (simp add: pad_def)

lemma set_pad: "Some s \<in> set (pad n xs) \<Longrightarrow> Some s \<in> set xs"
  by (auto simp: pad_def)

lemma full_size_mono: "d \<le> d' \<Longrightarrow> full_size d \<le> full_size d'"
  by (simp add: full_size_def diff_le_mono)

lemma full_size_less: "full_size d < full_size (Suc d)"
proof -
  obtain p where "(2 :: nat) ^ d = Suc p" by (cases "(2 :: nat) ^ d") auto
  then show ?thesis by (simp add: full_size_def)
qed

lemma maybe_grow_tree_eq:
  assumes wf: "bk_wf d t" and cap: "bk_next_leaf_idx t < 2 ^ 30"
  shows "maybe_grow_tree (bk_next_leaf_idx t) t =
      t\<lparr> bk_tree_size := full_size (grown_depth d t),
         bk_leaves := pad (2 ^ grown_depth d t) (bk_leaves t),
         bk_inner_nodes := pad (2 ^ grown_depth d t - Suc 0) (bk_inner_nodes t) \<rparr>"
    and "grown_depth d t \<le> 30" "bk_next_leaf_idx t < 2 ^ grown_depth d t"
proof -
  let ?n = "bk_next_leaf_idx t"
  have n: "?n \<le> 2 ^ d" and d: "0 < d" "d \<le> 30" using bk_wf_next bk_wf_depth wf by blast+
  have "d < 30" if "?n = 2 ^ d"
    using that cap power_less_imp_less_exp [of "2 :: nat" d 30] by simp
  then show small: "grown_depth d t \<le> 30" "?n < 2 ^ grown_depth d t"
    using n d by (auto simp: grown_depth_def)
  show "maybe_grow_tree ?n t = t\<lparr> bk_tree_size := full_size (grown_depth d t),
         bk_leaves := pad (2 ^ grown_depth d t) (bk_leaves t),
         bk_inner_nodes := pad (2 ^ grown_depth d t - Suc 0) (bk_inner_nodes t) \<rparr>"
  proof (cases "?n = 2 ^ d")
    case True
    then have d': "d < 30" using small by (simp add: grown_depth_def)
    have "log2 (2 ^ d) = d" using d' by (intro log2_eq) simp_all
    then have "from_leaf_count ?n = full_size (Suc d)"
      using from_leaf_count_full [of ?n] cap unfolding True by simp
    then have "\<not> from_leaf_count ?n \<le> bk_tree_size t"
      using full_size_less [of d] by (simp add: bk_wf_size [OF wf])
    then have "maybe_grow_tree ?n t = grow_tree_to_size (t\<lparr> bk_tree_size := full_size (Suc d) \<rparr>)"
      by (simp add: maybe_grow_tree_def bk_wf_size [OF wf] inc_full [OF d'])
    moreover have "grown_depth d t = Suc d" using True by (simp add: grown_depth_def)
    moreover have "leaf_count (full_size (Suc d)) = 2 ^ Suc d" using d' by (simp add: leaf_count_full del: power_Suc)
    ultimately show ?thesis using wf
      by (simp add: grow_tree_to_size_def inner_count_full vec_resize_def pad_def)
  next
    case False
    have "from_leaf_count ?n \<le> full_size d"
    proof (cases "?n = 0")
      case True
      then show ?thesis by (simp add: from_leaf_count_zero full_size_mono)
    next
      case n0: False
      have "?n < 2 ^ 31" using cap by simp
      then have "2 ^ log2 ?n \<le> ?n" using log2_bounds n0 by simp
      also have "?n < 2 ^ d" using n False by simp
      finally have "log2 ?n < d" by (rule power_less_imp_less_exp [rotated]) simp
      then show ?thesis using from_leaf_count_full [of ?n] n0 cap by (simp add: full_size_mono)
    qed
    then show ?thesis using wf False by (simp add: maybe_grow_tree_def grown_depth_def pad_def bk_wf_size)
  qed
qed

definition pushed :: "nat \<Rightarrow> member_id \<Rightarrow> node_key \<Rightarrow> beekem \<Rightarrow> beekem" where
  "pushed d mid pk t = t\<lparr> bk_next_leaf_idx := Suc (bk_next_leaf_idx t),
     bk_tree_size := full_size (grown_depth d t),
     bk_leaves := (pad (2 ^ grown_depth d t) (bk_leaves t))
       [bk_next_leaf_idx t := Some \<lparr> ln_id = mid, ln_pk = pk \<rparr>],
     bk_inner_nodes := blank_ancs (grown_depth d t) (bk_next_leaf_idx t)
       (pad (2 ^ grown_depth d t - Suc 0) (bk_inner_nodes t)),
     bk_id_to_leaf_idx := (bk_id_to_leaf_idx t)(mid \<mapsto> bk_next_leaf_idx t),
     bk_current_secret_encrypter_leaf_idx := None \<rparr>"

lemma push_leaf_eq:
  assumes wf: "bk_wf d t" and cap: "bk_next_leaf_idx t < 2 ^ 30"
  shows "push_leaf mid pk t = Ok (pushed d mid pk t, bk_next_leaf_idx t)"
proof -
  let ?d = "grown_depth d t" and ?n = "bk_next_leaf_idx t"
  have g: "?d \<le> 30" "?n < 2 ^ ?d" "d \<le> ?d" "0 < ?d"
    using maybe_grow_tree_eq(2,3) [OF wf cap] bk_wf_depth [OF wf] by (auto simp: grown_depth_def)
  have len: "length (bk_leaves t) \<le> 2 ^ ?d" "length (bk_inner_nodes t) \<le> 2 ^ ?d - Suc 0"
    using wf g by (simp_all add: diff_le_mono)
  have "u32_add ?n (Suc 0) = Suc ?n" using cap by simp
  then show ?thesis using g len
    by (simp add: push_leaf_def Let_def maybe_grow_tree_eq(1) [OF wf cap] insert_leaf_at_def
        blank_path_eq [of ?d ?n] pushed_def)
qed

lemma bk_wf_pushed:
  assumes wf: "bk_wf d t" and cap: "bk_next_leaf_idx t < 2 ^ 30" and fresh: "bk_id_to_leaf_idx t mid = None"
  shows "bk_wf (grown_depth d t) (pushed d mid pk t)"
proof -
  let ?d = "grown_depth d t" and ?n = "bk_next_leaf_idx t"
  have g: "?d \<le> 30" "?n < 2 ^ ?d" "d \<le> ?d" "0 < ?d"
    using maybe_grow_tree_eq(2,3) [OF wf cap] bk_wf_depth [OF wf] by (auto simp: grown_depth_def)
  have len: "length (bk_leaves t) \<le> 2 ^ ?d" "length (bk_inner_nodes t) \<le> 2 ^ ?d - Suc 0"
    using wf g by (simp_all add: diff_le_mono)
  let ?t = "t\<lparr> bk_next_leaf_idx := Suc ?n, bk_tree_size := full_size ?d,
     bk_leaves := (pad (2 ^ ?d) (bk_leaves t))[?n := Some \<lparr> ln_id = mid, ln_pk = pk \<rparr>],
     bk_inner_nodes := pad (2 ^ ?d - Suc 0) (bk_inner_nodes t),
     bk_id_to_leaf_idx := (bk_id_to_leaf_idx t)(mid \<mapsto> ?n) \<rparr>"
  have ids: "ids_match t" using wf by (rule bk_wf_ids)
  have nth: "bk_leaves ?t ! i = (if i = ?n then Some \<lparr> ln_id = mid, ln_pk = pk \<rparr>
      else if i < 2 ^ d then bk_leaves t ! i else None)" if "i < 2 ^ ?d" for i
    using that g len wf by (simp add: nth_list_update nth_pad)
  have "?n \<le> 2 ^ d" using wf by (rule bk_wf_next)
  have absent: "\<not> (i < ?n \<and> (\<exists>l. bk_leaves t ! i = Some l \<and> ln_id l = mid))" for i
    using ids fresh unfolding ids_match_def by (metis option.distinct(1))
  have "ids_match ?t"
    unfolding ids_match_def
  proof (intro conjI allI impI)
    fix m i
    show "bk_id_to_leaf_idx ?t m = Some i \<longleftrightarrow>
        i < bk_next_leaf_idx ?t \<and> (\<exists>l. bk_leaves ?t ! i = Some l \<and> ln_id l = m)"
    proof (cases "i < Suc ?n")
      case True
      then have "i < 2 ^ ?d" using g by simp
      then show ?thesis using True ids absent [of i] nth [of i] \<open>?n \<le> 2 ^ d\<close>
        by (cases "i = ?n") (auto simp: ids_match_def)
    next
      case False
      then show ?thesis using ids by (auto simp: ids_match_def)
    qed
  next
    fix i assume "i < length (bk_leaves ?t)" "bk_next_leaf_idx ?t \<le> i"
    then show "bk_leaves ?t ! i = None"
      using nth [of i] ids g len wf by (auto simp: ids_match_def)
  qed
  then have "bk_wf ?d (?t\<lparr> bk_inner_nodes := blank_ancs ?d ?n (bk_inner_nodes ?t),
      bk_current_secret_encrypter_leaf_idx := None \<rparr>)"
    using g len wf by (intro bk_wf_blankI) (simp_all, blast dest: set_pad bk_wf_stores)
  then show ?thesis by (cases t) (simp add: pushed_def)
qed

definition empty_tree :: "tree_id \<Rightarrow> beekem" where
  "empty_tree doc = \<lparr> bk_doc_id = doc, bk_next_leaf_idx = 0, bk_leaves = [None, None],
     bk_inner_nodes = [None], bk_tree_size = full_size 1, bk_id_to_leaf_idx = Map.empty,
     bk_current_secret_encrypter_leaf_idx = None \<rparr>"

lemma bk_wf_empty_tree: "bk_wf 1 (empty_tree doc)"
  by (simp add: bk_wf_def bk_shape_def empty_tree_def ids_match_def node_skip_def inner_at_def less_Suc_eq)

lemma beekem_new_eq:
  "beekem_new doc mid pk = Ok (pushed 1 mid (ShareKey pk) (empty_tree doc))"
proof -
  have "log2 1 = 0" using log2_eq [of 0 1] by simp
  then have "from_leaf_count 1 = full_size 1" using from_leaf_count_full [of 1] by simp
  then have "grow_tree_to_size \<lparr> bk_doc_id = doc, bk_next_leaf_idx = 0, bk_leaves = [],
      bk_inner_nodes = [], bk_tree_size = from_leaf_count 1,
      bk_id_to_leaf_idx = Map.empty, bk_current_secret_encrypter_leaf_idx = None \<rparr> = empty_tree doc"
    by (simp add: grow_tree_to_size_def empty_tree_def leaf_count_full inner_count_full vec_resize_def
        numeral_2_eq_2)
  moreover have "bk_next_leaf_idx (empty_tree doc) < 2 ^ 30" by (simp add: empty_tree_def)
  ultimately show ?thesis
    using push_leaf_eq [OF bk_wf_empty_tree, of doc mid "ShareKey pk"] by (simp add: beekem_new_def)
qed

lemma beekem_new_wf: "bk_wf 1 (pushed 1 mid pk (empty_tree doc))"
  using bk_wf_pushed [OF bk_wf_empty_tree, of doc mid pk] by (simp add: empty_tree_def grown_depth_def)

section \<open>Removing a member\<close>

definition blanked :: "nat \<Rightarrow> leaf_node_index \<Rightarrow> beekem \<Rightarrow> beekem" where
  "blanked d i t = t\<lparr> bk_inner_nodes := blank_ancs d i (bk_inner_nodes t),
     bk_current_secret_encrypter_leaf_idx := None \<rparr>"

lemma blanked_frame [simp]:
  "bk_leaves (blanked d i t) = bk_leaves t" "bk_next_leaf_idx (blanked d i t) = bk_next_leaf_idx t"
  "bk_id_to_leaf_idx (blanked d i t) = bk_id_to_leaf_idx t" "bk_doc_id (blanked d i t) = bk_doc_id t"
  "bk_tree_size (blanked d i t) = bk_tree_size t"
  by (simp_all add: blanked_def)

lemma blank_path_wf:
  assumes wf: "bk_wf d t" and i: "i < 2 ^ d"
  shows "blank_path (parent (Leaf i)) t = Ok (blanked d i t)" "bk_wf d (blanked d i t)"
    "pruned d t (blanked d i t)"
proof -
  note d = bk_wf_depth [OF wf]
  show "blank_path (parent (Leaf i)) t = Ok (blanked d i t)"
    using d i wf by (simp add: blank_path_eq bk_wf_size blanked_def)
  show "bk_wf d (blanked d i t)"
    unfolding blanked_def using d i wf bk_wf_stores
    by (intro bk_wf_blankI) (simp_all add: bk_wf_size bk_wf_next bk_wf_ids)
  show "pruned d t (blanked d i t)"
    using d i wf by (intro blank_path_pruned [where i = i]) (simp_all add: blanked_def)
qed

lemma node_val_frame [frame_simps]:
  "node_val (t\<lparr> bk_next_leaf_idx := n \<rparr>) = node_val t"
  "node_val (t\<lparr> bk_id_to_leaf_idx := m \<rparr>) = node_val t"
  "node_val (t\<lparr> bk_current_secret_encrypter_leaf_idx := c \<rparr>) = node_val t"
  by (simp_all add: node_val_def fun_eq_iff)

lemma pruned_frame [frame_simps]:
  "pruned d t (t'\<lparr> bk_next_leaf_idx := n \<rparr>) = pruned d t t'"
  "pruned d t (t'\<lparr> bk_id_to_leaf_idx := m \<rparr>) = pruned d t t'"
  "pruned d (t\<lparr> bk_next_leaf_idx := n \<rparr>) t' = pruned d t t'"
  "pruned d (t\<lparr> bk_id_to_leaf_idx := m \<rparr>) t' = pruned d t t'"
  by (simp_all add: pruned_def same_under_def frame_simps)

lemma ids_match_shrink:
  assumes "ids_match t" "bk_next_leaf_idx t = Suc n" "bk_leaves t ! n = None"
  shows "ids_match (t\<lparr> bk_next_leaf_idx := n \<rparr>)"
proof -
  have "i < Suc n \<and> (\<exists>l. bk_leaves t ! i = Some l \<and> P l) \<longleftrightarrow>
      i < n \<and> (\<exists>l. bk_leaves t ! i = Some l \<and> P l)" for i P
    using assms(3) by (auto simp: less_Suc_eq)
  moreover have "n \<le> i \<longleftrightarrow> i = n \<or> Suc n \<le> i" for i by auto
  ultimately show ?thesis using assms by (auto simp: ids_match_def)
qed

lemma bk_wf_shrink:
  assumes "bk_wf d t" "bk_next_leaf_idx t = Suc n" "bk_leaves t ! n = None"
  shows "bk_wf d (t\<lparr> bk_next_leaf_idx := n \<rparr>)"
proof -
  have "n \<le> 2 ^ d" using bk_wf_next [OF assms(1)] assms(2) by simp
  moreover have "ids_match (t\<lparr> bk_next_leaf_idx := n \<rparr>)"
    by (rule ids_match_shrink [OF bk_wf_ids [OF assms(1)] assms(2,3)])
  ultimately show ?thesis
    using assms(1) unfolding bk_wf_def bk_shape_def by (simp add: node_skip_def)
qed

lemma collect_tombstones_wf:
  assumes "bk_wf d t" "j < bk_next_leaf_idx t" "bk_leaves t ! j \<noteq> None" "bk_next_leaf_idx t \<le> fuel"
  shows "\<exists>t'. collect_tombstones fuel t = Ok t' \<and> bk_wf d t' \<and> pruned d t t' \<and>
    bk_leaves t' = bk_leaves t \<and> bk_id_to_leaf_idx t' = bk_id_to_leaf_idx t \<and>
    bk_doc_id t' = bk_doc_id t \<and> 0 < bk_next_leaf_idx t' \<and> bk_leaves t' ! (bk_next_leaf_idx t' - 1) \<noteq> None \<and>
    (bk_current_secret_encrypter_leaf_idx t = None \<longrightarrow> bk_current_secret_encrypter_leaf_idx t' = None)"
  using assms
proof (induction fuel arbitrary: t)
  case 0
  then show ?case by simp
next
  case (Suc fuel)
  note wf = Suc.prems(1)
  from Suc.prems obtain n where n: "bk_next_leaf_idx t = Suc n" by (cases "bk_next_leaf_idx t") auto
  have lt: "n < 2 ^ d" using bk_wf_next [OF wf] n by simp
  moreover have "(2 :: nat) ^ d \<le> 2 ^ 30" using bk_wf_depth [OF wf] by (intro two_pow_Suc_le)
  ultimately have sub: "u32_sub (Suc n) 1 = n" by simp
  show ?case
  proof (cases "bk_leaves t ! n = None")
    case True
    let ?b = "blanked d n t" and ?t = "(blanked d n t)\<lparr> bk_next_leaf_idx := n \<rparr>"
    note b = blank_path_wf [OF wf lt]
    have wf': "bk_wf d ?t" using b(2) n True by (intro bk_wf_shrink) simp_all
    have "j \<noteq> n" using Suc.prems True by auto
    then have "\<exists>t'. collect_tombstones fuel ?t = Ok t' \<and> bk_wf d t' \<and> pruned d ?t t' \<and>
        bk_leaves t' = bk_leaves ?t \<and> bk_id_to_leaf_idx t' = bk_id_to_leaf_idx ?t \<and>
        bk_doc_id t' = bk_doc_id ?t \<and> 0 < bk_next_leaf_idx t' \<and>
        bk_leaves t' ! (bk_next_leaf_idx t' - 1) \<noteq> None \<and>
        (bk_current_secret_encrypter_leaf_idx ?t = None \<longrightarrow> bk_current_secret_encrypter_leaf_idx t' = None)"
      using Suc.prems n by (intro Suc.IH [OF wf']) simp_all
    moreover have "pruned d t t'" if "pruned d ?t t'" for t'
      using pruned_trans [OF b(3), of t'] that by (simp add: frame_simps)
    moreover have "collect_tombstones (Suc fuel) t = collect_tombstones fuel ?t"
      using True sub n b(1) leaf_Ok [OF bk_wf_shape [OF wf] lt]
      by (subst collect_tombstones.simps) (simp add: blanked_def)
    moreover have "bk_current_secret_encrypter_leaf_idx ?t = None" by (simp add: blanked_def)
    ultimately show ?thesis by auto
  next
    case False
    then have "collect_tombstones (Suc fuel) t = Ok t"
      using sub n leaf_Ok [OF bk_wf_shape [OF wf] lt] by (subst collect_tombstones.simps) auto
    then show ?thesis using wf False n by (simp add: pruned_refl)
  qed
qed

definition node_keys_at :: "beekem \<Rightarrow> inner_node_index \<Rightarrow> share_key list" where
  "node_keys_at t idx = (case bk_inner_nodes t ! idx of None \<Rightarrow> [] | Some s \<Rightarrow> map ssv_pk (ss_versions s))"

lemma store_keys_wf:
  assumes "bk_shape d t" "idx < 2 ^ d - Suc 0"
  shows "and_then (inner_node t idx) (\<lambda>x. case x of
      Some store \<Rightarrow> map_ok (\<lambda>k. f (node_key_keys k)) (store_node_key store) | None \<Rightarrow> Ok (f [])) =
    Ok (f (node_keys_at t idx))"
proof (cases "bk_inner_nodes t ! idx")
  case (Some s)
  then have "ss_versions s \<noteq> []" using assms bk_shape_versions by blast
  then obtain k where "store_node_key s = (Ok k :: (cgka_error, _) outcome)"
    "node_key_keys k = map ssv_pk (ss_versions s)" by (rule store_node_key_nonempty)
  then show ?thesis using Some assms by (simp add: inner_node_def node_keys_at_def)
qed (use assms in \<open>simp add: inner_node_def node_keys_at_def\<close>)

lemma removed_path_keys_wf:
  assumes "bk_shape d t" "\<forall>idx \<in> set path. idx < 2 ^ d - Suc 0"
  shows "removed_path_keys t path = Ok (concat (map (node_keys_at t) path))"
proof -
  have "fold_ok (\<lambda>acc idx. and_then (inner_node t idx) (\<lambda>x. case x of
         Some store \<Rightarrow> map_ok (\<lambda>k. acc @ node_key_keys k) (store_node_key store)
       | None \<Rightarrow> Ok acc)) acc path = Ok (acc @ concat (map (node_keys_at t) path))" for acc
    using assms(2)
  proof (induction path arbitrary: acc)
    case (Cons idx path)
    then show ?case using store_keys_wf [OF assms(1), of idx "\<lambda>ks. acc @ ks"] by simp
  qed simp
  then show ?thesis by (simp add: removed_path_keys_def)
qed

lemma member_count_wf:
  assumes wf: "bk_wf d t"
  shows "finite (dom (bk_id_to_leaf_idx t))" "member_count t = card (dom (bk_id_to_leaf_idx t))"
    "card (dom (bk_id_to_leaf_idx t)) \<le> 2 ^ d"
proof -
  let ?f = "\<lambda>i. ln_id (the (bk_leaves t ! i))"
  have sub: "dom (bk_id_to_leaf_idx t) \<subseteq> ?f ` {..<2 ^ d}"
  proof
    fix mid assume "mid \<in> dom (bk_id_to_leaf_idx t)"
    then obtain i where "bk_id_to_leaf_idx t mid = Some i" by blast
    with wf obtain l where "i < 2 ^ d" "bk_leaves t ! i = Some l" "ln_id l = mid" by (rule bk_wf_id)
    then show "mid \<in> ?f ` {..<2 ^ d}" by force
  qed
  then show fin: "finite (dom (bk_id_to_leaf_idx t))" by (rule finite_subset) simp
  have "card (dom (bk_id_to_leaf_idx t)) \<le> card (?f ` {..<2 ^ d})" using sub by (rule card_mono [rotated]) simp
  also have "\<dots> \<le> 2 ^ d" using card_image_le [of "{..<2 ^ d}" ?f] by simp
  finally show le: "card (dom (bk_id_to_leaf_idx t)) \<le> 2 ^ d" .
  also have "(2 :: nat) ^ d \<le> 2 ^ 30" using bk_wf_depth [OF wf] by (intro two_pow_Suc_le)
  finally show "member_count t = card (dom (bk_id_to_leaf_idx t))" by (simp add: member_count_def)
qed

definition leaf_removed :: "member_id \<Rightarrow> leaf_node_index \<Rightarrow> beekem \<Rightarrow> beekem" where
  "leaf_removed mid i t = t\<lparr> bk_leaves := (bk_leaves t)[i := None],
     bk_id_to_leaf_idx := (bk_id_to_leaf_idx t)(mid := None) \<rparr>"

lemma ids_match_removed:
  assumes "ids_match t" "bk_id_to_leaf_idx t mid = Some i" "i < length (bk_leaves t)"
  shows "ids_match (leaf_removed mid i t)"
proof -
  have iff: "bk_id_to_leaf_idx t m = Some j \<longleftrightarrow>
      j < bk_next_leaf_idx t \<and> (\<exists>l. bk_leaves t ! j = Some l \<and> ln_id l = m)" for m j
    using assms(1) by (simp add: ids_match_def)
  have "m \<noteq> mid" if "j \<noteq> i" "bk_id_to_leaf_idx t m = Some j" for m j
    using that assms(2) by auto
  moreover have "m = mid" if "bk_id_to_leaf_idx t m = Some i" for m
    using that iff [of m i] iff [of mid i] assms(2) by auto
  ultimately have "(if m = mid then None else bk_id_to_leaf_idx t m) = Some j \<longleftrightarrow>
      j < bk_next_leaf_idx t \<and> (\<exists>l. (bk_leaves t)[i := None] ! j = Some l \<and> ln_id l = m)" for m j
    using assms(3) iff [of m j] by (cases "j = i") (auto simp: nth_list_update_eq)
  then show ?thesis using assms(1,3)
    by (auto simp: ids_match_def leaf_removed_def nth_list_update)
qed

lemma blank_leaf_removed:
  assumes wf: "bk_wf d t" and i: "bk_id_to_leaf_idx t mid = Some i"
  shows "and_then (blank_leaf_and_path i t) (\<lambda>t1. f (t1\<lparr> bk_id_to_leaf_idx := (bk_id_to_leaf_idx t1)(mid := None) \<rparr>)) =
      f (blanked d i (leaf_removed mid i t))"
    and "bk_wf d (blanked d i (leaf_removed mid i t))"
    and "pruned d t (blanked d i (leaf_removed mid i t))"
proof -
  from wf i obtain l where lt: "i < 2 ^ d" by (rule bk_wf_id)
  note d = bk_wf_depth [OF wf]
  show "and_then (blank_leaf_and_path i t) (\<lambda>t1. f (t1\<lparr> bk_id_to_leaf_idx := (bk_id_to_leaf_idx t1)(mid := None) \<rparr>)) =
      f (blanked d i (leaf_removed mid i t))"
  proof -
    let ?u = "t\<lparr> bk_leaves := (bk_leaves t)[i := None] \<rparr>"
    have "blank_leaf_and_path i t = Ok (blanked d i ?u)"
      using lt d wf by (simp add: blank_leaf_and_path_def blank_path_eq bk_wf_size blanked_def)
    moreover have "(blanked d i ?u)\<lparr> bk_id_to_leaf_idx := (bk_id_to_leaf_idx (blanked d i ?u))(mid := None) \<rparr> =
        blanked d i (leaf_removed mid i t)"
      by (cases t) (simp add: blanked_def leaf_removed_def)
    ultimately show ?thesis by simp
  qed
  show "bk_wf d (blanked d i (leaf_removed mid i t))"
    unfolding blanked_def
  proof (rule bk_wf_blankI)
    show "ids_match (leaf_removed mid i t)"
      using bk_wf_ids [OF wf] i lt wf by (intro ids_match_removed) simp_all
  qed (use d lt wf bk_wf_stores [OF wf] in \<open>simp_all add: leaf_removed_def bk_wf_size bk_wf_next\<close>)
  show "pruned d t (blanked d i (leaf_removed mid i t))"
    using d lt wf by (intro blank_path_pruned [where i = i]) (simp_all add: blanked_def leaf_removed_def)
qed

lemma remove_id_eq:
  assumes wf: "bk_wf d t" and i: "bk_id_to_leaf_idx t mid = Some i"
    and other: "bk_id_to_leaf_idx t other \<noteq> None" "other \<noteq> mid"
  shows "\<exists>t'. remove_id mid t = (Ok (i, concat (map (\<lambda>k. node_keys_at t (anc k i)) [1..<Suc d])), t') \<and>
    bk_wf d t' \<and> bk_id_to_leaf_idx t' = (bk_id_to_leaf_idx t)(mid := None) \<and>
    bk_leaves t' = (bk_leaves t)[i := None] \<and> pruned d t t' \<and>
    (\<forall>k \<in> {1..d}. bk_inner_nodes t' ! anc k i = None) \<and>
    bk_doc_id t' = bk_doc_id t \<and> bk_current_secret_encrypter_leaf_idx t' = None"
proof -
  note d = bk_wf_depth [OF wf]
  from wf i obtain l where lt: "i < 2 ^ d" by (rule bk_wf_id)
  let ?t = "blanked d i (leaf_removed mid i t)"
  note b = blank_leaf_removed [OF wf i]
  obtain j where j: "bk_id_to_leaf_idx t other = Some j" using other by blast
  have j': "bk_id_to_leaf_idx ?t other = Some j" using j other by (simp add: leaf_removed_def)
  obtain lj where "j < bk_next_leaf_idx ?t" "bk_leaves ?t ! j = Some lj" using b(2) j' by (rule bk_wf_id)
  then obtain t' where t': "collect_tombstones (bk_next_leaf_idx ?t) ?t = Ok t'" "bk_wf d t'"
      "pruned d ?t t'" "bk_leaves t' = bk_leaves ?t" "bk_id_to_leaf_idx t' = bk_id_to_leaf_idx ?t"
      "bk_doc_id t' = bk_doc_id ?t" "bk_current_secret_encrypter_leaf_idx t' = None"
    using collect_tombstones_wf [OF b(2)] by (auto simp: blanked_def)
  have "{mid, other} \<subseteq> dom (bk_id_to_leaf_idx t)" using i j by auto
  then have "card {mid, other} \<le> card (dom (bk_id_to_leaf_idx t))"
    using member_count_wf(1) [OF wf] by (rule card_mono [rotated])
  then have "member_count t \<noteq> 1" using other member_count_wf(2) [OF wf] by simp
  moreover have "and_then (direct_path (Leaf i) (bk_tree_size t)) (removed_path_keys t) =
      Ok (concat (map (\<lambda>k. node_keys_at t (anc k i)) [1..<Suc d]))"
    using removed_path_keys_wf [OF bk_wf_shape [OF wf], of "map (\<lambda>k. anc k i) [1..<Suc d]"] anc_less [of d i] d lt
    by (auto simp: leaf_path_wf [OF bk_wf_shape [OF wf] lt] comp_def simp del: upt_Suc)
  moreover have "modify_st (\<lambda>t. and_then (blank_leaf_and_path i t) (\<lambda>t1.
      let t2 = t1\<lparr> bk_id_to_leaf_idx := (bk_id_to_leaf_idx t1)(mid := None) \<rparr> in
      collect_tombstones (bk_next_leaf_idx t2) t2)) t = (Ok (), t')"
    using b(1) [of "\<lambda>t2. collect_tombstones (bk_next_leaf_idx t2) t2"] t'(1) by (simp add: Let_def)
  ultimately have "remove_id mid t = (Ok (i, concat (map (\<lambda>k. node_keys_at t (anc k i)) [1..<Suc d])), t')"
    by (simp add: remove_id_def leaf_index_for_id_def i del: upt_Suc)
  moreover have "bk_inner_nodes t' ! anc k i = None" if "k \<in> {1..d}" for k
  proof -
    have k: "0 < k" "k \<le> d" using that by auto
    then obtain m where m: "k = Suc m" by (cases k) auto
    have tr: "in_tree d (Suc m) (i div 2 ^ Suc m)" using in_tree_anc d lt k m by blast
    have "bk_inner_nodes ?t ! anc k i = None"
      using anc_less [of d i k] d lt k wf by (simp add: blanked_def leaf_removed_def nth_blank_ancs)
    moreover have "same_under ?t t' (Suc m) (i div 2 ^ Suc m) \<Longrightarrow> bk_inner_nodes t' ! anc k i = bk_inner_nodes ?t ! anc k i"
      by (auto simp: same_under_def node_val_def anc_def m dest: spec [of _ "Suc m"])
    ultimately show ?thesis using t'(3) tr unfolding pruned_def anc_def m by metis
  qed
  moreover have "pruned d t t'" using b(3) t'(3) by (rule pruned_trans)
  ultimately show ?thesis using t' by (auto simp: leaf_removed_def)
qed

text \<open>A tree with two members, for the witnesses.\<close>

definition demo_tree :: beekem where
  "demo_tree = pushed 1 (MemberId [1]) (ShareKey (PublicKey [11]))
     (pushed 1 (MemberId [0]) (ShareKey (PublicKey [10])) (empty_tree (TreeId [7])))"

lemma demo_tree_wf: "bk_wf 1 demo_tree"
proof -
  let ?t = "pushed 1 (MemberId [0]) (ShareKey (PublicKey [10])) (empty_tree (TreeId [7]))"
  have nx: "bk_next_leaf_idx ?t = 1" by (simp add: pushed_def empty_tree_def)
  then have "grown_depth 1 ?t = 1" by (simp add: grown_depth_def)
  moreover have "bk_id_to_leaf_idx ?t (MemberId [1]) = None" by (simp add: pushed_def empty_tree_def)
  ultimately show ?thesis
    using bk_wf_pushed [OF beekem_new_wf, of "MemberId [0]" "ShareKey (PublicKey [10])" "TreeId [7]"
        "MemberId [1]" "ShareKey (PublicKey [11])"] nx
    by (simp add: demo_tree_def)
qed

lemma demo_tree_ids: "bk_id_to_leaf_idx demo_tree = [MemberId [0] \<mapsto> 0, MemberId [1] \<mapsto> 1]"
  by (simp add: demo_tree_def pushed_def empty_tree_def)

text \<open>
  C6 Removing one of several members succeeds: it returns the member's leaf index and the
  keys of the inner nodes on its path, takes the member out of the id map and its leaf out
  of the tree, blanks its path to the root, changes nothing below any inner node it leaves
  in place, and the tree is well-formed again.
\<close>

theorem remove_id_effect:
  assumes wf: "bk_wf d t" and i: "bk_id_to_leaf_idx t mid = Some i"
    and other: "bk_id_to_leaf_idx t other \<noteq> None" "other \<noteq> mid"
  shows "\<exists>t'. remove_id mid t = (Ok (i, concat (map (\<lambda>k. node_keys_at t (anc k i)) [1..<Suc d])), t') \<and>
    bk_wf d t' \<and> bk_id_to_leaf_idx t' = (bk_id_to_leaf_idx t)(mid := None) \<and>
    bk_leaves t' = (bk_leaves t)[i := None] \<and> pruned d t t' \<and>
    (\<forall>k \<in> {1..d}. bk_inner_nodes t' ! anc k i = None)"
  using remove_id_eq [OF assms] by blast

theorem remove_id_effect_witness:
  "\<exists>t' ks. remove_id (MemberId [0]) demo_tree = (Ok (0, ks), t') \<and>
     bk_id_to_leaf_idx t' = [MemberId [1] \<mapsto> 1]"
proof -
  have "\<exists>t'. remove_id (MemberId [0]) demo_tree =
      (Ok (0, concat (map (\<lambda>k. node_keys_at demo_tree (anc k 0)) [1..<Suc 1])), t') \<and>
      bk_id_to_leaf_idx t' = (bk_id_to_leaf_idx demo_tree)(MemberId [0] := None)"
    using remove_id_effect [OF demo_tree_wf, of "MemberId [0]" 0 "MemberId [1]"]
    by (auto simp: demo_tree_ids)
  moreover have "(bk_id_to_leaf_idx demo_tree)(MemberId [0] := None) = [MemberId [1] \<mapsto> 1]"
    by (auto simp: demo_tree_ids)
  ultimately show ?thesis by auto
qed

text \<open>
  C26 A failed removal leaves the tree as it was: the last member cannot be removed, and an
  unknown identifier is reported.
\<close>

theorem remove_id_errors:
  assumes wf: "bk_wf d t"
  shows "(card (dom (bk_id_to_leaf_idx t)) = 1 \<longrightarrow> remove_id mid t = (Err RemoveLastMember, t)) \<and>
    (card (dom (bk_id_to_leaf_idx t)) \<noteq> 1 \<longrightarrow> bk_id_to_leaf_idx t mid = None \<longrightarrow>
      remove_id mid t = (Err IdentifierNotFound, t))"
  using member_count_wf(2) [OF wf] by (simp add: remove_id_def leaf_index_for_id_def sbind_def)

theorem remove_id_errors_witness:
  "remove_id (MemberId [5]) demo_tree = (Err IdentifierNotFound, demo_tree)"
  using remove_id_errors [OF demo_tree_wf, of "MemberId [5]"] by (simp add: demo_tree_ids)

text \<open>
  C8 Adding a member whose id is new succeeds while fewer than \<open>2 ^ 30\<close> leaves are used: the
  member is at the next free leaf with its key, all other members keep their leaves, the
  tree grows when it was full, there is no root key afterwards, and the tree is well-formed.
\<close>

theorem push_leaf_effect:
  assumes wf: "bk_wf d t" and cap: "bk_next_leaf_idx t < 2 ^ 30" and fresh: "\<not> contains_id t mid"
  shows "\<exists>t' d'. push_leaf mid pk t = Ok (t', bk_next_leaf_idx t) \<and> bk_wf d' t' \<and>
    (d' = d \<or> d' = Suc d \<and> bk_next_leaf_idx t = 2 ^ d) \<and>
    bk_id_to_leaf_idx t' = (bk_id_to_leaf_idx t)(mid \<mapsto> bk_next_leaf_idx t) \<and>
    node_key_for_id t' mid = Ok pk \<and>
    (\<forall>i < bk_next_leaf_idx t. bk_leaves t' ! i = bk_leaves t ! i) \<and> has_root_key t' = Ok False"
proof -
  let ?t = "pushed d mid pk t" and ?d = "grown_depth d t" and ?n = "bk_next_leaf_idx t"
  have f: "bk_id_to_leaf_idx t mid = None" using fresh by (simp add: contains_id_def)
  have wf': "bk_wf ?d ?t" by (rule bk_wf_pushed [OF wf cap f])
  have n: "?n < 2 ^ ?d" "?d \<le> 30" and d: "0 < d" "d \<le> ?d" "?n \<le> 2 ^ d"
    using maybe_grow_tree_eq(2,3) [OF wf cap] bk_wf_depth(1) [OF wf] bk_wf_next [OF wf] by (auto simp: grown_depth_def)
  have len: "length (bk_leaves t) \<le> 2 ^ ?d" using wf d by simp
  have at: "bk_leaves ?t ! ?n = Some \<lparr> ln_id = mid, ln_pk = pk \<rparr>"
    using n len by (simp add: pushed_def)
  have "bk_leaves ?t ! i = bk_leaves t ! i" if "i < ?n" for i
  proof -
    have "i < 2 ^ d" using that d by simp
    then show ?thesis using that n len wf by (simp add: pushed_def nth_pad)
  qed
  moreover have "node_key_for_id ?t mid = Ok pk"
    using leaf_Ok [OF bk_wf_shape [OF wf'] n(1)] at
    by (simp add: node_key_for_id_def leaf_index_for_id_def node_key_for_index_def pushed_def)
  moreover have "node_skip ?t ?d 0"
    using wf' bk_wf_root [OF wf'] by (auto simp: pushed_def)
  moreover have "?d = d \<or> ?d = Suc d \<and> ?n = 2 ^ d" by (simp add: grown_depth_def)
  moreover have "bk_id_to_leaf_idx ?t = (bk_id_to_leaf_idx t)(mid \<mapsto> ?n)" by (simp add: pushed_def)
  ultimately show ?thesis
    using push_leaf_eq [OF wf cap] wf' has_root_key_wf [OF bk_wf_shape [OF wf']]
    by (intro exI [of _ ?t] exI [of _ ?d]) simp
qed

theorem push_leaf_effect_witness:
  "\<exists>t'. push_leaf (MemberId [2]) (ShareKey (PublicKey [12])) demo_tree = Ok (t', 2) \<and>
     node_key_for_id t' (MemberId [2]) = Ok (ShareKey (PublicKey [12]))"
proof -
  have n: "bk_next_leaf_idx demo_tree = 2" by (simp add: demo_tree_def pushed_def empty_tree_def)
  show ?thesis
    using push_leaf_effect [OF demo_tree_wf, of "MemberId [2]" "ShareKey (PublicKey [12])"]
    by (auto simp: n contains_id_def demo_tree_ids)
qed

text \<open>
  C28 A new tree holds its first member at leaf 0 with the given key, has room for two
  members and no root key, and is well-formed.
\<close>

theorem beekem_new_wellformed:
  "\<exists>t. beekem_new doc mid pk = Ok t \<and> bk_wf 1 t \<and> bk_id_to_leaf_idx t = [mid \<mapsto> 0] \<and>
    node_key_for_id t mid = Ok (ShareKey pk) \<and> has_root_key t = Ok False \<and> member_count t = 1"
proof -
  let ?t = "pushed 1 mid (ShareKey pk) (empty_tree doc)"
  have wf: "bk_wf 1 ?t" by (rule beekem_new_wf)
  have "bk_leaves ?t ! 0 = Some \<lparr> ln_id = mid, ln_pk = ShareKey pk \<rparr>"
    by (simp add: pushed_def empty_tree_def pad_def)
  then have "node_key_for_id ?t mid = Ok (ShareKey pk)"
    using leaf_Ok [OF bk_wf_shape [OF wf], of 0]
    by (simp add: node_key_for_id_def leaf_index_for_id_def node_key_for_index_def pushed_def empty_tree_def)
  moreover have "node_skip ?t 1 0" using bk_wf_root [OF wf] by (auto simp: pushed_def)
  moreover have "bk_id_to_leaf_idx ?t = [mid \<mapsto> 0]" by (simp add: pushed_def empty_tree_def)
  ultimately show ?thesis
    using wf has_root_key_wf [OF bk_wf_shape [OF wf]] member_count_wf(2) [OF wf] by (simp add: beekem_new_eq)
qed

end
