(* ===== verification/Bee_Kem_Path.thy ===== *)
theory Bee_Kem_Path
  imports Bee_Kem_Inv
begin

text \<open>
  Resolutions, path encryption and path application of the BeeKEM tree.

  The resolution of a node covers every leaf below it exactly once. \<open>encrypt_path\<close> writes a
  fresh single-version store to every ancestor of the updating leaf, and \<open>apply_path\<close> of the
  resulting \<open>PathChange\<close> on the tree it was made from reproduces the updater's tree.
\<close>

section \<open>Resolution\<close>

primrec resolution :: "beekem \<Rightarrow> nat \<Rightarrow> nat \<Rightarrow> (nat \<times> nat) list" where
  "resolution t 0 q = (if node_skip t 0 q then [] else [(0, q)])"
| "resolution t (Suc k) q =
     (if node_skip t (Suc k) q then resolution t k (2 * q) @ resolution t k (2 * q + 1)
      else [(Suc k, q)])"

definition idx_of :: "nat \<times> nat \<Rightarrow> tree_node_index" where
  "idx_of = (\<lambda>(k, q). node_idx k q)"

lemma idx_of_pair [simp]: "idx_of (k, q) = node_idx k q"
  by (simp add: idx_of_def)

lemma idx_of_image [intro]: "(m, p) \<in> R \<Longrightarrow> node_idx m p \<in> idx_of ` R"
  by (rule image_eqI [of _ _ "(m, p)"]) simp_all

lemma append_resolution_eq:
  assumes "bk_shape d t" "in_tree d k q" "k \<le> fuel"
  shows "append_resolution fuel t (node_idx k q) acc = Ok (acc @ map idx_of (resolution t k q))"
  using assms(2,3)
proof (induction k arbitrary: q fuel acc)
  case 0
  then show ?case using should_skip_idx [OF assms(1) 0(1)]
    by (subst append_resolution.simps) simp
next
  case (Suc k)
  then obtain n where fuel: "fuel = Suc n" "k \<le> n" by (cases fuel) auto
  have l: "in_tree d k (2 * q)" and r: "in_tree d k (2 * q + 1)"
    using in_tree_child [OF Suc.prems(1), of 0] in_tree_child [OF Suc.prems(1), of 1] by simp_all
  show ?case
    using should_skip_idx [OF assms(1) Suc.prems(1)] Suc.IH [OF l fuel(2)] Suc.IH [OF r fuel(2)]
    by (subst append_resolution.simps) (simp add: fuel left_idx [OF Suc.prems(1)] right_idx [OF Suc.prems(1)])
qed

lemma div_child: "p div 2 ^ k div 2 = q \<longleftrightarrow> p div 2 ^ k = 2 * q \<or> p div 2 ^ k = Suc (2 * (q :: nat))"
  by auto

text \<open>A node is in the resolution when it is not skipped and every node above it is.\<close>

lemma in_resolution_iff:
  "(m, p) \<in> set (resolution t k q) \<longleftrightarrow> m \<le> k \<and> p div 2 ^ (k - m) = q \<and> \<not> node_skip t m p \<and>
    (\<forall>n. m < n \<and> n \<le> k \<longrightarrow> node_skip t n (p div 2 ^ (n - m)))"
proof (induction k arbitrary: q)
  case 0
  then show ?case by (cases m) auto
next
  case (Suc k)
  show ?case
  proof (cases "node_skip t (Suc k) q")
    case False
    have "(\<forall>n. m < n \<and> n \<le> Suc k \<longrightarrow> node_skip t n (p div 2 ^ (n - m))) \<Longrightarrow>
        p div 2 ^ (Suc k - m) = q \<Longrightarrow> m \<le> Suc k \<Longrightarrow> m = Suc k"
      using False by (metis le_neq_implies_less order_refl)
    then show ?thesis using False by auto
  next
    case True
    have le: "(\<forall>n. m < n \<and> n \<le> Suc k \<longrightarrow> P n) \<longleftrightarrow>
        (\<forall>n. m < n \<and> n \<le> k \<longrightarrow> P n) \<and> (m < Suc k \<longrightarrow> P (Suc k))" for P :: "nat \<Rightarrow> bool"
      by (auto simp: le_Suc_eq)
    have up: "p div 2 ^ (Suc k - m) = q \<longleftrightarrow> p div 2 ^ (k - m) = 2 * q \<or> p div 2 ^ (k - m) = 2 * q + 1"
      if "m \<le> k"
      using that div_pow_Suc [of p "k - m"] div_child [of p "k - m" q] by (simp add: Suc_diff_le)
    show ?thesis
      using True Suc.IH [of "2 * q"] Suc.IH [of "2 * q + 1"] le up by (cases "m \<le> k") (auto simp: le_Suc_eq)
  qed
qed

lemma resolution_in_tree: "in_tree d k q \<Longrightarrow> (m, p) \<in> set (resolution t k q) \<Longrightarrow> in_tree d m p"
  by (auto simp: in_resolution_iff intro: in_tree_descendant)

lemma resolution_cong:
  assumes "\<And>m p. m \<le> k \<Longrightarrow> p div 2 ^ (k - m) = q \<Longrightarrow> node_skip t' m p = node_skip t m p"
  shows "resolution t' k q = resolution t k q"
  using assms
proof (induction k arbitrary: q)
  case (Suc k)
  have "resolution t' k c = resolution t k c" if "c div 2 = q" for c
  proof (rule Suc.IH)
    fix m p assume "m \<le> k" "p div 2 ^ (k - m) = c"
    then show "node_skip t' m p = node_skip t m p"
      using that div_pow_Suc [of p "k - m"] by (intro Suc.prems) (simp_all add: Suc_diff_le)
  qed
  then show ?case using Suc.prems [of "Suc k" q] by simp
qed simp

lemma distinct_resolution: "distinct (resolution t k q)"
proof (induction k arbitrary: q)
  case (Suc k)
  have "set (resolution t k (2 * q)) \<inter> set (resolution t k (2 * q + 1)) = {}"
    by (auto simp: in_resolution_iff)
  then show ?case using Suc by auto
qed simp

text \<open>The highest node on the path of a leaf that is not skipped, up to level \<open>k\<close>.\<close>

lemma covering_node:
  assumes "\<not> node_skip t 0 j" "j div 2 ^ k = q"
  shows "\<exists>!m. (m, j div 2 ^ m) \<in> set (resolution t k q)"
proof -
  let ?P = "\<lambda>m. m \<le> k \<and> \<not> node_skip t m (j div 2 ^ m)"
  define m where "m = (GREATEST m. ?P m)"
  have P0: "?P 0" using assms(1) by simp
  have m: "?P m" unfolding m_def by (rule GreatestI_nat [of ?P 0 k]) (use P0 in auto)
  have above: "node_skip t n (j div 2 ^ n)" if "m < n" "n \<le> k" for n
    using that Greatest_le_nat [of ?P n k] unfolding m_def by force
  have mem: "(n, j div 2 ^ n) \<in> set (resolution t k q) \<longleftrightarrow> ?P n \<and>
      (\<forall>l. n < l \<and> l \<le> k \<longrightarrow> node_skip t l (j div 2 ^ l))" for n
    using assms(2) div_pow_add [of j n] by (auto simp: in_resolution_iff)
  show ?thesis
  proof (rule ex1I [of _ m])
    show "(m, j div 2 ^ m) \<in> set (resolution t k q)" using mem m above by blast
    fix n assume "(n, j div 2 ^ n) \<in> set (resolution t k q)"
    then have n: "?P n" "\<forall>l. n < l \<and> l \<le> k \<longrightarrow> node_skip t l (j div 2 ^ l)" using mem by blast+
    show "n = m" using n m above by (metis linorder_neqE_nat)
  qed
qed



section \<open>Encrypting for a sibling\<close>

definition sib :: "nat \<Rightarrow> nat" where
  "sib c = (if even c then c + 1 else c - 1)"

lemma sib_neq: "sib c \<noteq> c"
  by (auto simp: sib_def elim: oddE)

lemma sib_div: "sib c div 2 = c div 2"
  by (auto simp: sib_def elim!: oddE evenE)

definition leaf_single :: "beekem \<Rightarrow> bool" where
  "leaf_single t \<longleftrightarrow> (\<forall>l. Some l \<in> set (bk_leaves t) \<longrightarrow> (\<exists>pk. ln_pk l = ShareKey pk))"

definition node_pk :: "beekem \<Rightarrow> nat \<Rightarrow> nat \<Rightarrow> share_key" where
  "node_pk t k q =
     (if k = 0 then hd (node_key_keys (ln_pk (the (bk_leaves t ! q))))
      else ssv_pk (hd (ss_versions (the (bk_inner_nodes t ! inner_at k q)))))"

lemma nonskip_inner:
  assumes "bk_shape d t" "in_tree d (Suc k) q" "\<not> node_skip t (Suc k) q"
  obtains s v where "bk_inner_nodes t ! inner_at (Suc k) q = Some s" "ss_versions s = [v]"
    "ssv_pk v = node_pk t (Suc k) q"
proof -
  obtain s where s: "bk_inner_nodes t ! inner_at (Suc k) q = Some s" "\<not> has_conflict s"
    using assms(3) by (auto simp: node_skip_def split: option.splits)
  have "ss_versions s \<noteq> []"
    using bk_shape_versions [OF assms(1)] inner_at_less [OF assms(2)] s by simp
  then obtain v where "ss_versions s = [v]"
    using s(2) by (cases "ss_versions s" rule: remdups_adj.cases) (auto simp: has_conflict_def)
  then show ?thesis using that s by (simp add: node_pk_def)
qed

lemma nonskip_leaf:
  assumes "bk_shape d t" "leaf_single t" "q < 2 ^ d" "\<not> node_skip t 0 q"
  obtains l where "bk_leaves t ! q = Some l" "ln_pk l = ShareKey (node_pk t 0 q)"
proof -
  obtain l where l: "bk_leaves t ! q = Some l" using assms(4) by (auto simp: node_skip_def)
  then have "Some l \<in> set (bk_leaves t)" using assms(1,3) by (metis bk_shape_lengths(1) nth_mem)
  then obtain pk where "ln_pk l = ShareKey pk" using assms(2) by (auto simp: leaf_single_def)
  then show ?thesis using that l by (simp add: node_pk_def)
qed

lemma node_key_nonskip:
  assumes "bk_shape d t" "leaf_single t" "in_tree d k q" "\<not> node_skip t k q"
  shows "node_key_for_index t (node_idx k q) = Ok (ShareKey (node_pk t k q))"
proof (cases k)
  case 0
  then have q: "q < 2 ^ d" using assms(3) by (simp add: in_tree_def)
  then obtain l where "bk_leaves t ! q = Some l" "ln_pk l = ShareKey (node_pk t 0 q)"
    using nonskip_leaf [OF assms(1,2)] assms(4) 0 by blast
  then show ?thesis using 0 leaf_Ok [OF assms(1) q] by (simp add: node_key_for_index_def)
next
  case (Suc m)
  then obtain s v where "bk_inner_nodes t ! inner_at (Suc m) q = Some s" "ss_versions s = [v]"
      "ssv_pk v = node_pk t (Suc m) q"
    using nonskip_inner assms by blast
  then show ?thesis using Suc inner_node_Ok [OF assms(1), of "Suc m" q] assms(3)
    by (simp add: node_key_for_index_def store_node_key_single)
qed

lemma encrypt_for_resolution_eq:
  assumes "\<And>idx. idx \<in> set res \<Longrightarrow> \<exists>pk. node_key_for_index t idx = Ok (ShareKey pk) \<and>
      encrypt_secret C (tree_id_bytes (bk_doc_id t)) new_sk child_sk pk = Ok (E idx)"
  shows "encrypt_for_resolution C t child child_sk new_sk res =
    Ok (\<lambda>idx. if idx \<in> set res then Some (E idx)
         else if idx = child \<and> res \<noteq> [] then Some (E (hd res)) else None, res \<noteq> [])"
proof -
  define F where "F = (\<lambda>(secret_map, used_paired_sibling) idx.
       and_then (node_key_for_index t idx) (\<lambda>k. case k of
         ConflictKeys _ \<Rightarrow> Panic
       | ShareKey next_pk \<Rightarrow>
           map_ok (\<lambda>encrypted_sk.
               ((if used_paired_sibling then secret_map else secret_map(child \<mapsto> encrypted_sk))
                  (idx \<mapsto> encrypted_sk), True))
             (encrypt_secret C (tree_id_bytes (bk_doc_id t)) new_sk child_sk next_pk)))"
  have "fold_ok F (m, u) res =
     Ok (\<lambda>idx. if idx \<in> set res then Some (E idx)
         else if idx = child \<and> \<not> u \<and> res \<noteq> [] then Some (E (hd res)) else m idx, u \<or> res \<noteq> [])"
    for m u
    using assms
  proof (induction res arbitrary: m u)
    case (Cons x xs)
    let ?m = "(if u then m else m(child \<mapsto> E x))(x \<mapsto> E x)"
    obtain pk where "node_key_for_index t x = Ok (ShareKey pk)"
      "encrypt_secret C (tree_id_bytes (bk_doc_id t)) new_sk child_sk pk = Ok (E x)"
      using Cons.prems [of x] by auto
    then have "F (m, u) x = Ok (?m, True)" by (simp add: F_def)
    moreover have "fold_ok F (?m, True) xs = Ok (\<lambda>idx. if idx \<in> set xs then Some (E idx)
         else if idx = child \<and> \<not> True \<and> xs \<noteq> [] then Some (E (hd xs)) else ?m idx, True \<or> xs \<noteq> [])"
      using Cons.prems by (intro Cons.IH) simp
    ultimately show ?case by (auto simp: fun_eq_iff)
  qed simp
  from this [of Map.empty False]
  have "fold_ok F (Map.empty, False) res = Ok (\<lambda>idx. if idx \<in> set res then Some (E idx)
      else if idx = child \<and> res \<noteq> [] then Some (E (hd res)) else None, res \<noteq> [])"
    by (simp only: simp_thms)
  then show ?thesis unfolding encrypt_for_resolution_def F_def .
qed

text \<open>
  The secret map of a new store: an entry for the encrypting child \<open>(k, c)\<close> and one for each
  node of the sibling's resolution, encrypted for that node's key. The child's entry uses the
  key of a node of the resolution, and a generated key when the resolution is empty.
\<close>

definition map_ok_for ::
    "('r, 'm) crypto_scheme \<Rightarrow> beekem \<Rightarrow> nat \<Rightarrow> nat \<Rightarrow> share_secret_key \<Rightarrow> share_secret_key \<Rightarrow>
     (tree_node_index \<rightharpoonup> encrypted_secret) \<Rightarrow> bool" where
  "map_ok_for C t k c child_sk new_sk smap \<longleftrightarrow>
     dom smap = insert (node_idx k c) (idx_of ` set (resolution t k (sib c))) \<and>
     (\<forall>(m, p) \<in> set (resolution t k (sib c)). \<exists>es. smap (node_idx m p) = Some es \<and>
        encrypt_secret C (tree_id_bytes (bk_doc_id t)) new_sk child_sk (node_pk t m p) = Ok es) \<and>
     (\<exists>pk es. smap (node_idx k c) = Some es \<and>
        encrypt_secret C (tree_id_bytes (bk_doc_id t)) new_sk child_sk pk = Ok es \<and>
        (if resolution t k (sib c) = [] then \<exists>r. pk = share_key C (fst (secret_generate C r))
         else \<exists>(m, p) \<in> set (resolution t k (sib c)). pk = node_pk t m p))"

lemma child_not_in_sibling: "(m, p) \<in> set (resolution t k (sib c)) \<Longrightarrow> (m, p) \<noteq> (k, c)"
  using sib_neq [of c] by (auto simp: in_resolution_iff)

lemma encrypt_store_eq:
  assumes "crypto_laws C" "bk_shape d t" "leaf_single t" "in_tree d k c" "k < d"
    and "length (secret_bytes new_sk) = 32"
  shows "\<exists>smap r'. encrypt_new_secret_store_for_parent C t (node_idx k c) child_pk child_sk new_pk new_sk r =
      (Ok (secret_store_new new_pk child_pk smap), r') \<and> map_ok_for C t k c child_sk new_sk smap"
proof -
  let ?res = "resolution t k (sib c)" and ?doc = "tree_id_bytes (bk_doc_id t)"
  have s: "in_tree d k (sib c)" using in_tree_sibling [OF assms(4,5)] by (simp add: sib_def)
  have "k \<le> 32" using assms(4) by (simp add: in_tree_def)
  then have res: "append_resolution 32 t (sibling (node_idx k c)) [] = Ok (map idx_of ?res)"
    using append_resolution_eq [OF assms(2) s] sibling_idx [OF assms(4,5)] by (simp add: sib_def)
  have enc: "\<exists>es. encrypt_secret C ?doc new_sk child_sk pk = Ok es" for pk
    by (rule encrypt_secret_short [OF assms(1,6)]) blast
  show ?thesis
  proof (cases "?res = []")
    case True
    obtain psk r' where gen: "secret_generate C r = (psk, r')" by fastforce
    obtain es where "encrypt_secret C ?doc new_sk child_sk (share_key C psk) = Ok es" using enc by blast
    moreover have "psk = fst (secret_generate C r)" using gen by simp
    ultimately have "map_ok_for C t k c child_sk new_sk [node_idx k c \<mapsto> es]"
      using True by (auto simp: map_ok_for_def simp del: fst_conv)
    then show ?thesis using True res gen \<open>encrypt_secret _ _ _ _ _ = Ok es\<close>
      by (intro exI [of _ "[node_idx k c \<mapsto> es]"] exI [of _ r'])
        (auto simp: encrypt_new_secret_store_for_parent_def sbind_def)
  next
    case False
    define E where "E idx = (SOME es. \<forall>pk. node_key_for_index t idx = Ok (ShareKey pk) \<longrightarrow>
      encrypt_secret C ?doc new_sk child_sk pk = Ok es)" for idx
    have E: "node_key_for_index t (node_idx m p) = Ok (ShareKey (node_pk t m p)) \<and>
        encrypt_secret C ?doc new_sk child_sk (node_pk t m p) = Ok (E (node_idx m p))"
      if "(m, p) \<in> set ?res" for m p
    proof -
      have key: "node_key_for_index t (node_idx m p) = Ok (ShareKey (node_pk t m p))"
        using that resolution_in_tree [OF s] by (intro node_key_nonskip [OF assms(2,3)])
          (auto simp: in_resolution_iff)
      obtain es where "encrypt_secret C ?doc new_sk child_sk (node_pk t m p) = Ok es" using enc by blast
      then have "encrypt_secret C ?doc new_sk child_sk (node_pk t m p) = Ok (E (node_idx m p))"
        unfolding E_def key by (simp add: some_equality)
      with key show ?thesis by simp
    qed
    let ?smap = "\<lambda>idx. if idx \<in> set (map idx_of ?res) then Some (E idx)
         else if idx = node_idx k c \<and> map idx_of ?res \<noteq> [] then Some (E (hd (map idx_of ?res))) else None"
    have "encrypt_for_resolution C t (node_idx k c) child_sk new_sk (map idx_of ?res) =
        Ok (?smap, map idx_of ?res \<noteq> [])"
      using E by (intro encrypt_for_resolution_eq) (auto simp: idx_of_def)
    then have "encrypt_new_secret_store_for_parent C t (node_idx k c) child_pk child_sk new_pk new_sk r =
        (Ok (secret_store_new new_pk child_pk ?smap), r)"
      using False res by (simp add: encrypt_new_secret_store_for_parent_def)
    moreover have "map_ok_for C t k c child_sk new_sk ?smap"
    proof -
      have "node_idx k c \<notin> idx_of ` set ?res"
      proof
        assume "node_idx k c \<in> idx_of ` set ?res"
        then obtain m p where mp: "(m, p) \<in> set ?res" "node_idx k c = node_idx m p" by auto
        then have "(m, p) = (k, c)" using node_idx_inj [OF assms(4) resolution_in_tree [OF s mp(1)]] by simp
        then show False using child_not_in_sibling [OF mp(1)] by simp
      qed
      then have at: "?smap (node_idx k c) = Some (E (idx_of (hd ?res)))" using False by (simp add: hd_map)
      obtain m p where hd: "hd ?res = (m, p)" by fastforce
      then have mem: "(m, p) \<in> set ?res" using False hd_in_set by metis
      show ?thesis
        unfolding map_ok_for_def
      proof (intro conjI)
        show "dom ?smap = insert (node_idx k c) (idx_of ` set ?res)" using False by (simp only: set_map) (auto split: if_splits)
        show "\<forall>(m, p) \<in> set ?res. \<exists>es. ?smap (node_idx m p) = Some es \<and>
            encrypt_secret C ?doc new_sk child_sk (node_pk t m p) = Ok es"
          using E by (auto intro!: image_eqI simp: idx_of_def)
        show "\<exists>pk es. ?smap (node_idx k c) = Some es \<and> encrypt_secret C ?doc new_sk child_sk pk = Ok es \<and>
            (if ?res = [] then \<exists>r. pk = share_key C (fst (secret_generate C r))
             else \<exists>(m, p) \<in> set ?res. pk = node_pk t m p)"
          using False at E [OF mem] mem hd by (intro exI [of _ "node_pk t m p"] exI [of _ "E (node_idx m p)"]) auto
      qed
    qed
    ultimately show ?thesis by blast
  qed
qed

section \<open>Encrypting a path\<close>

definition write_path ::
    "leaf_node_index \<Rightarrow> (nat \<Rightarrow> secret_store) \<Rightarrow> nat list \<Rightarrow> secret_store option list \<Rightarrow> secret_store option list" where
  "write_path i S ks ns = fold (\<lambda>m ns. ns[anc m i := Some (S m)]) ks ns"

lemma write_path_Nil [simp]: "write_path i S [] ns = ns"
  by (simp add: write_path_def)

lemma write_path_Cons [simp]: "write_path i S (m # ks) ns = write_path i S ks (ns[anc m i := Some (S m)])"
  by (simp add: write_path_def)

lemma length_write_path [simp]: "length (write_path i S ks ns) = length ns"
  by (induction ks arbitrary: ns) auto

lemma write_path_cong: "(\<And>m. m \<in> set ks \<Longrightarrow> S m = S' m) \<Longrightarrow> write_path i S ks ns = write_path i S' ks ns"
  by (induction ks arbitrary: ns) auto

lemma nth_write_path_other: "n \<notin> (\<lambda>m. anc m i) ` set ks \<Longrightarrow> write_path i S ks ns ! n = ns ! n"
  by (induction ks arbitrary: ns) auto

lemma nth_write_path:
  assumes "d \<le> 30" "i < 2 ^ d" "set ks \<subseteq> {1..d}" "m \<in> set ks" "distinct ks" "length ns = 2 ^ d - Suc 0"
  shows "write_path i S ks ns ! anc m i = Some (S m)"
  using assms(3-)
proof (induction ks arbitrary: ns)
  case (Cons k ks)
  show ?case
  proof (cases "m = k")
    case True
    have "anc k i \<notin> (\<lambda>m. anc m i) ` set ks"
    proof
      assume "anc k i \<in> (\<lambda>m. anc m i) ` set ks"
      then obtain m' where m': "m' \<in> set ks" "anc k i = anc m' i" by auto
      then have "k = m'" using Cons.prems anc_inj [of d i i k m'] assms(1,2) by (auto dest: subsetD)
      then show False using m' Cons.prems by simp
    qed
    moreover have "anc k i < length ns" using anc_less [of d i k] assms(1,2) Cons.prems by simp
    ultimately show ?thesis using True by (simp add: nth_write_path_other)
  next
    case False
    then show ?thesis using Cons by simp
  qed
qed simp

lemma write_path_set: "Some s \<in> set (write_path i S ks ns) \<Longrightarrow> Some s \<in> set ns \<or> s \<in> S ` set ks"
proof (induction ks arbitrary: ns)
  case (Cons k ks)
  then show ?case using set_update_subset_insert [of ns "anc k i" "Some (S k)"] by fastforce
qed simp

text \<open>Trees that differ only at leaf \<open>i\<close> and its ancestors.\<close>

definition same_off :: "nat \<Rightarrow> leaf_node_index \<Rightarrow> beekem \<Rightarrow> beekem \<Rightarrow> bool" where
  "same_off d i t t' \<longleftrightarrow> bk_doc_id t' = bk_doc_id t \<and>
     (\<forall>m p. in_tree d m p \<and> p \<noteq> i div 2 ^ m \<longrightarrow> node_val t' m p = node_val t m p)"

lemma off_path_idx:
  assumes "d \<le> 30" "i < 2 ^ d" "in_tree d m p" "p \<noteq> i div 2 ^ m" "0 < m"
  shows "inner_at m p \<notin> (\<lambda>m. anc m i) ` {1..d}"
proof
  assume "inner_at m p \<in> (\<lambda>m. anc m i) ` {1..d}"
  then obtain j where j: "inner_at m p = anc j i" "0 < j" "j \<le> d" by auto
  show False using anc_under [OF assms(1-3) order_refl _ assms(5) j] assms(4) by simp
qed

lemma same_offI:
  assumes "d \<le> 30" "i < 2 ^ d" "bk_doc_id t' = bk_doc_id t"
    and "\<And>j. j \<noteq> i \<Longrightarrow> bk_leaves t' ! j = bk_leaves t ! j"
    and "\<And>n. n \<notin> (\<lambda>m. anc m i) ` {1..d} \<Longrightarrow> bk_inner_nodes t' ! n = bk_inner_nodes t ! n"
  shows "same_off d i t t'"
  using assms off_path_idx [OF assms(1,2)] by (auto simp: same_off_def node_val_def)

lemma node_val_pk: "node_val t' m p = node_val t m p \<Longrightarrow> node_pk t' m p = node_pk t m p"
  by (auto simp: node_val_def node_pk_def split: if_splits)

lemma off_path_under:
  assumes "in_tree d k (i div 2 ^ k)" "k < d" "m \<le> k" "p div 2 ^ (k - m) = sib (i div 2 ^ k)"
  shows "in_tree d m p \<and> p \<noteq> i div 2 ^ m"
proof
  have "in_tree d k (sib (i div 2 ^ k))" using in_tree_sibling [OF assms(1,2)] by (simp add: sib_def)
  then show "in_tree d m p" using assms(3,4) by (rule in_tree_descendant)
  show "p \<noteq> i div 2 ^ m"
    using assms(3,4) div_pow_add [of i m "k - m"] sib_neq [of "i div 2 ^ k"] by auto
qed

lemma same_off_resolution:
  assumes "same_off d i t t'" "in_tree d k (i div 2 ^ k)" "k < d"
  shows "resolution t' k (sib (i div 2 ^ k)) = resolution t k (sib (i div 2 ^ k))"
proof (rule resolution_cong)
  fix m p assume "m \<le> k" "p div 2 ^ (k - m) = sib (i div 2 ^ k)"
  then have "in_tree d m p \<and> p \<noteq> i div 2 ^ m" using off_path_under assms by blast
  then show "node_skip t' m p = node_skip t m p"
    using assms(1) by (intro node_val_skip) (simp add: same_off_def)
qed

lemma same_off_map_ok:
  assumes "same_off d i t t'" "in_tree d k (i div 2 ^ k)" "k < d"
  shows "map_ok_for C t' k (i div 2 ^ k) csk nsk smap = map_ok_for C t k (i div 2 ^ k) csk nsk smap"
proof -
  have res: "resolution t' k (sib (i div 2 ^ k)) = resolution t k (sib (i div 2 ^ k))"
    by (rule same_off_resolution [OF assms])
  have "node_pk t' m p = node_pk t m p" if "(m, p) \<in> set (resolution t k (sib (i div 2 ^ k)))" for m p
    using that assms off_path_under [OF assms(2,3)]
    by (intro node_val_pk) (auto simp: in_resolution_iff same_off_def)
  then have eq: "\<forall>x \<in> set (resolution t k (sib (i div 2 ^ k))).
      node_pk t' (fst x) (snd x) = node_pk t (fst x) (snd x)" by auto
  have doc: "bk_doc_id t' = bk_doc_id t" using assms(1) by (simp add: same_off_def)
  show ?thesis unfolding map_ok_for_def res doc by (simp add: case_prod_unfold eq cong: ball_cong bex_cong)
qed

text \<open>The store written at level \<open>Suc m\<close> of the path of leaf \<open>i\<close>, with \<open>sk\<close> the secret at level \<open>k\<close>.\<close>

definition path_store_ok ::
    "('r, 'm) crypto_scheme \<Rightarrow> beekem \<Rightarrow> leaf_node_index \<Rightarrow> nat \<Rightarrow> share_secret_key \<Rightarrow> nat \<Rightarrow> secret_store \<Rightarrow> bool" where
  "path_store_ok C t i k sk m s \<longleftrightarrow> (\<exists>smap.
     s = secret_store_new (share_key C (ratchet_n_forward C (Suc m - k) sk))
       (share_key C (ratchet_n_forward C (m - k) sk)) smap \<and>
     map_ok_for C t m (i div 2 ^ m) (ratchet_n_forward C (m - k) sk) (ratchet_n_forward C (Suc m - k) sk) smap)"

lemma path_store_ok_step:
  "k < m \<Longrightarrow> path_store_ok C t i (Suc k) (ratchet_forward C sk) m s \<longleftrightarrow> path_store_ok C t i k sk m s"
proof -
  assume "k < m"
  then obtain n where "m = Suc (k + n)" using less_imp_Suc_add by blast
  then show ?thesis by (simp add: path_store_ok_def ratchet_Suc_right [symmetric] Suc_diff_le)
qed

lemma bk_shape_write:
  assumes "bk_shape d t" "\<And>s. Some s \<in> set ns \<Longrightarrow> ss_versions s \<noteq> []" "length ns = 2 ^ d - Suc 0"
  shows "bk_shape d (t\<lparr> bk_inner_nodes := ns \<rparr>)"
  using assms unfolding bk_shape_def by (simp add: frame_simps)

definition loop_path ::
    "nat \<Rightarrow> leaf_node_index \<Rightarrow> beekem \<Rightarrow> nat \<Rightarrow> (nat \<Rightarrow> secret_store) \<Rightarrow> path_change \<Rightarrow> path_change" where
  "loop_path d i u k S np = np\<lparr>
     pc_path := pc_path np @ map (\<lambda>m. (anc m i, S m)) [Suc k..<Suc d],
     pc_removed_keys := pc_removed_keys np @ concat (map (\<lambda>m. node_keys_at u (anc m i)) [Suc k..<Suc d]) \<rparr>"

definition loop_tree :: "nat \<Rightarrow> leaf_node_index \<Rightarrow> nat \<Rightarrow> (nat \<Rightarrow> secret_store) \<Rightarrow> beekem \<Rightarrow> beekem" where
  "loop_tree d i k S u = u\<lparr> bk_inner_nodes := write_path i S [Suc k..<Suc d] (bk_inner_nodes u) \<rparr>"

lemma loop_path_step:
  assumes "d \<le> 30" "i < 2 ^ d" "k < d" "length (bk_inner_nodes u) = 2 ^ d - Suc 0"
  shows "loop_path d i (u\<lparr> bk_inner_nodes := (bk_inner_nodes u)[anc (Suc k) i := Some s] \<rparr>) (Suc k) S
      (np\<lparr> pc_path := pc_path np @ [(anc (Suc k) i, s)],
         pc_removed_keys := pc_removed_keys np @ node_keys_at u (anc (Suc k) i) \<rparr>) =
    loop_path d i u k (S(Suc k := s)) np"
    and "loop_tree d i (Suc k) S (u\<lparr> bk_inner_nodes := (bk_inner_nodes u)[anc (Suc k) i := Some s] \<rparr>) =
    loop_tree d i k (S(Suc k := s)) u"
proof -
  have split: "[Suc k..<Suc d] = Suc k # [Suc (Suc k)..<Suc d]" using assms(3) by (simp add: upt_conv_Cons)
  let ?u = "u\<lparr> bk_inner_nodes := (bk_inner_nodes u)[anc (Suc k) i := Some s] \<rparr>"
  have "node_keys_at ?u (anc m i) = node_keys_at u (anc m i)" if "m \<in> set [Suc (Suc k)..<Suc d]" for m
    using that anc_inj [of d i i "Suc k" m] assms by (auto simp: node_keys_at_def)
  then have e1: "map (\<lambda>m. node_keys_at ?u (anc m i)) [Suc (Suc k)..<Suc d] =
      map (\<lambda>m. node_keys_at u (anc m i)) [Suc (Suc k)..<Suc d]" by (rule map_cong [OF refl])
  have e2: "map (\<lambda>m. (anc m i, (S(Suc k := s)) m)) [Suc (Suc k)..<Suc d] =
      map (\<lambda>m. (anc m i, S m)) [Suc (Suc k)..<Suc d]" by (rule map_cong [OF refl]) (auto simp del: upt_Suc)
  show "loop_path d i ?u (Suc k) S
      (np\<lparr> pc_path := pc_path np @ [(anc (Suc k) i, s)],
         pc_removed_keys := pc_removed_keys np @ node_keys_at u (anc (Suc k) i) \<rparr>) =
    loop_path d i u k (S(Suc k := s)) np"
    unfolding loop_path_def split list.map(2) e2 by (simp add: e1 del: upt_Suc)
  show "loop_tree d i (Suc k) S ?u = loop_tree d i k (S(Suc k := s)) u"
    unfolding loop_tree_def split using write_path_cong [of "[Suc (Suc k)..<Suc d]" S "S(Suc k := s)" i]
    by (simp del: upt_Suc)
qed

lemma encrypt_key_for_parent_eq:
  assumes "encrypt_new_secret_store_for_parent C u child cpk csk npk nsk r = (Ok s, r')"
    and "parent child < length (bk_inner_nodes u)"
  shows "encrypt_key_for_parent C child cpk csk npk nsk (u, r) =
    (Ok (), (u\<lparr> bk_inner_nodes := (bk_inner_nodes u)[parent child := Some s] \<rparr>, r'))"
  using assms by (simp add: encrypt_key_for_parent_def sbind_def modify_st_def insert_inner_node_at_def)

lemma encrypt_path_loop_eq:
  assumes C: "crypto_laws C" and i: "i < 2 ^ d"
    and "bk_shape d u" "leaf_single u" "k \<le> d" "d - k \<le> fuel" "k < d \<longrightarrow> pidx = anc (Suc k) i"
  shows "\<exists>S r'. encrypt_path_loop fuel C (node_idx k (i div 2 ^ k)) (share_key C sk) sk pidx np (u, r) =
      (Ok (ratchet_n_forward C (d - k) sk, loop_path d i u k S np), (loop_tree d i k S u, r')) \<and>
    (\<forall>m. k \<le> m \<and> m < d \<longrightarrow> path_store_ok C u i k sk m (S (Suc m)))"
  using assms(3-)
proof (induction "d - k" arbitrary: k u sk pidx np r fuel)
  case 0
  then have k: "k = d" by simp
  have "in_tree d d (i div 2 ^ d)" using i bk_shape_depth [OF 0(2)] by (simp add: in_tree_def)
  then have "encrypt_path_loop fuel C (node_idx d (i div 2 ^ d)) (share_key C sk) sk pidx np (u, r) =
      (Ok (sk, np), (u, r))"
    using is_root_idx [OF 0(2)] by (subst encrypt_path_loop.simps) simp
  then show ?case unfolding k loop_path_def loop_tree_def by auto
next
  case (Suc l)
  note shape = Suc.prems(1)
  have k: "k < d" using Suc by simp
  have d: "0 < d" "d \<le> 30" using bk_shape_depth [OF shape] by simp_all
  obtain n where fuel: "fuel = Suc n" "d - Suc k \<le> n" using Suc k by (cases fuel) auto
  have pidx: "pidx = anc (Suc k) i" using Suc k by simp
  have tr: "in_tree d k (i div 2 ^ k)" using in_tree_anc [of d i k] d i k by simp
  have lt: "anc (Suc k) i < 2 ^ d - Suc 0" using anc_less [of d i "Suc k"] d i k by simp
  let ?nsk = "ratchet_forward C sk" and ?nd = "node_idx k (i div 2 ^ k)"
  obtain smap r1 where enc: "encrypt_new_secret_store_for_parent C u ?nd (share_key C sk) sk
        (share_key C ?nsk) ?nsk r = (Ok (secret_store_new (share_key C ?nsk) (share_key C sk) smap), r1)"
      and smap: "map_ok_for C u k (i div 2 ^ k) sk ?nsk smap"
    using encrypt_store_eq [OF C shape Suc.prems(2) tr k length_ratchet [OF C]] by blast
  define s where "s = secret_store_new (share_key C ?nsk) (share_key C sk) smap"
  define u' where "u' = u\<lparr> bk_inner_nodes := (bk_inner_nodes u)[anc (Suc k) i := Some s] \<rparr>"
  define np' where "np' = np\<lparr> pc_path := pc_path np @ [(anc (Suc k) i, s)],
           pc_removed_keys := pc_removed_keys np @ node_keys_at u (anc (Suc k) i) \<rparr>"
  have par: "parent ?nd = anc (Suc k) i" using parent_idx [OF tr k] by (simp add: anc_def div_pow_Suc)
  have shape': "bk_shape d u'"
    unfolding u'_def using shape bk_shape_stores [OF shape]
    by (intro bk_shape_write) (auto simp: s_def dest: set_update_subset_insert [THEN subsetD])
  have single': "leaf_single u'" using Suc.prems(2) by (simp add: leaf_single_def u'_def)
  have up: "Suc k < d \<longrightarrow> parent (Inner (anc (Suc k) i)) = anc (Suc (Suc k)) i"
    using parent_anc [of d i "Suc k"] d i by simp
  have "\<exists>S r'. encrypt_path_loop n C (node_idx (Suc k) (i div 2 ^ Suc k)) (share_key C ?nsk) ?nsk
        (parent (Inner (anc (Suc k) i))) np' (u', r1) =
      (Ok (ratchet_n_forward C (d - Suc k) ?nsk, loop_path d i u' (Suc k) S np'), (loop_tree d i (Suc k) S u', r')) \<and>
      (\<forall>m. Suc k \<le> m \<and> m < d \<longrightarrow> path_store_ok C u' i (Suc k) ?nsk m (S (Suc m)))"
    using Suc.hyps(2) k by (intro Suc.hyps(1) [OF _ shape' single' _ fuel(2) up]) simp_all
  then obtain S r' where IH: "encrypt_path_loop n C (node_idx (Suc k) (i div 2 ^ Suc k)) (share_key C ?nsk) ?nsk
        (parent (Inner (anc (Suc k) i))) np' (u', r1) =
      (Ok (ratchet_n_forward C (d - Suc k) ?nsk, loop_path d i u' (Suc k) S np'), (loop_tree d i (Suc k) S u', r'))"
      and st: "\<And>m. Suc k \<le> m \<Longrightarrow> m < d \<Longrightarrow> path_store_ok C u' i (Suc k) ?nsk m (S (Suc m))"
    by blast
  have anc_idx: "node_idx (Suc k) (i div 2 ^ Suc k) = Inner (anc (Suc k) i)" by (simp add: anc_def)
  have keys: "and_then (inner_node u (anc (Suc k) i)) (\<lambda>x. case x of
      Some store \<Rightarrow> map_ok node_key_keys (store_node_key store) | None \<Rightarrow> Ok []) =
      Ok (node_keys_at u (anc (Suc k) i))"
    using store_keys_wf [OF shape lt, of "\<lambda>x. x"] by simp
  have run: "encrypt_path_loop fuel C ?nd (share_key C sk) sk pidx np (u, r) =
      encrypt_path_loop n C (Inner (anc (Suc k) i)) (share_key C ?nsk) ?nsk
        (parent (Inner (anc (Suc k) i))) np' (u', r1)"
  proof -
    have "encrypt_key_for_parent C ?nd (share_key C sk) sk (share_key C ?nsk) ?nsk (u, r) = (Ok (), (u', r1))"
      using encrypt_key_for_parent_eq [OF enc] par lt shape by (simp add: u'_def s_def)
    moreover have "and_then (inner_node u' (anc (Suc k) i)) expect = Ok s"
      using lt shape by (simp add: u'_def inner_node_def)
    moreover have "\<not> is_root u ?nd" using is_root_idx [OF shape tr] k by simp
    ultimately show ?thesis
      using keys by (subst encrypt_path_loop.simps) (simp add: fuel pidx np'_def Let_def)
  qed
  have off: "same_off d i u u'"
  proof (rule same_offI)
    fix n assume "n \<notin> (\<lambda>m. anc m i) ` {1..d}"
    then have "n \<noteq> anc (Suc k) i" using k by auto
    then show "bk_inner_nodes u' ! n = bk_inner_nodes u ! n" by (simp add: u'_def)
  qed (use d i in \<open>simp_all add: u'_def\<close>)
  have "path_store_ok C u i k sk m ((S(Suc k := s)) (Suc m))" if m: "k \<le> m" "m < d" for m
  proof (cases "m = k")
    case True
    then show ?thesis using smap ratchet_Suc [of C 0 sk] by (auto simp: path_store_ok_def s_def)
  next
    case False
    then have "path_store_ok C u' i (Suc k) ?nsk m (S (Suc m))" using st m by simp
    moreover have trm: "in_tree d m (i div 2 ^ m)" using in_tree_anc [of d i m] d i m by simp
    ultimately have "path_store_ok C u i (Suc k) ?nsk m (S (Suc m))"
      by (simp add: path_store_ok_def same_off_map_ok [OF off trm m(2)])
    moreover have "k < m" using False m by simp
    ultimately show ?thesis by (simp add: path_store_ok_step)
  qed
  moreover have "ratchet_n_forward C (d - Suc k) ?nsk = ratchet_n_forward C (d - k) sk"
    using k ratchet_Suc_right [of C "d - Suc k" sk] by (simp add: Suc_diff_Suc)
  moreover have "loop_path d i u' (Suc k) S np' = loop_path d i u k (S(Suc k := s)) np"
      "loop_tree d i (Suc k) S u' = loop_tree d i k (S(Suc k := s)) u"
    unfolding u'_def np'_def using d i k shape by (intro loop_path_step; simp)+
  ultimately show ?case using run IH unfolding anc_idx by metis
qed

text \<open>The tree and the \<open>PathChange\<close> of an update of member \<open>mid\<close> at leaf \<open>i\<close> with stores \<open>S\<close>.\<close>

definition with_leaf :: "member_id \<Rightarrow> leaf_node_index \<Rightarrow> node_key \<Rightarrow> beekem \<Rightarrow> beekem" where
  "with_leaf mid i key t = t\<lparr> bk_leaves := (bk_leaves t)[i := Some \<lparr> ln_id = mid, ln_pk = key \<rparr>] \<rparr>"

definition updated_tree ::
    "nat \<Rightarrow> member_id \<Rightarrow> leaf_node_index \<Rightarrow> share_key \<Rightarrow> (nat \<Rightarrow> secret_store) \<Rightarrow> beekem \<Rightarrow> beekem" where
  "updated_tree d mid i pk S t =
     (loop_tree d i 0 S (with_leaf mid i (ShareKey pk) t))\<lparr> bk_current_secret_encrypter_leaf_idx := Some i \<rparr>"

definition updated_path ::
    "nat \<Rightarrow> member_id \<Rightarrow> leaf_node_index \<Rightarrow> share_key \<Rightarrow> (nat \<Rightarrow> secret_store) \<Rightarrow> beekem \<Rightarrow> path_change" where
  "updated_path d mid i pk S t =
     \<lparr> pc_leaf_id = mid, pc_leaf_idx = i, pc_leaf_pk = ShareKey pk,
       pc_path = map (\<lambda>m. (anc m i, S m)) [1..<Suc d],
       pc_removed_keys = node_key_keys (ln_pk (the (bk_leaves t ! i))) @
         concat (map (\<lambda>m. node_keys_at t (anc m i)) [1..<Suc d]) \<rparr>"

definition others_single :: "leaf_node_index \<Rightarrow> beekem \<Rightarrow> bool" where
  "others_single i t \<longleftrightarrow> (\<forall>j l. j < length (bk_leaves t) \<and> j \<noteq> i \<and> bk_leaves t ! j = Some l \<longrightarrow>
     (\<exists>pk. ln_pk l = ShareKey pk))"

lemma leaf_single_with_leaf:
  assumes "others_single i t"
  shows "leaf_single (with_leaf mid i (ShareKey pk) t)"
  unfolding leaf_single_def
proof (intro allI impI)
  fix l assume "Some l \<in> set (bk_leaves (with_leaf mid i (ShareKey pk) t))"
  then obtain j where j: "j < length (bk_leaves t)" "bk_leaves (with_leaf mid i (ShareKey pk) t) ! j = Some l"
    by (auto simp: in_set_conv_nth with_leaf_def)
  show "\<exists>pk. ln_pk l = ShareKey pk"
    using j assms by (cases "j = i") (auto simp: with_leaf_def others_single_def)
qed

lemma bk_shape_with_leaf:
  assumes shape: "bk_shape d t" and i: "bk_id_to_leaf_idx t mid = Some i"
  shows "bk_shape d (with_leaf mid i key t)"
proof -
  from shape i obtain l where l: "i < 2 ^ d" "i < bk_next_leaf_idx t" "bk_leaves t ! i = Some l" "ln_id l = mid"
    by (rule bk_shape_id)
  have "(\<exists>l. bk_leaves (with_leaf mid i key t) ! j = Some l \<and> ln_id l = m) \<longleftrightarrow>
      (\<exists>l. bk_leaves t ! j = Some l \<and> ln_id l = m)" for j m
    using l shape by (cases "j = i") (simp_all add: with_leaf_def)
  moreover have "bk_leaves (with_leaf mid i key t) ! j = None \<longleftrightarrow> bk_leaves t ! j = None" for j
    using l shape by (cases "j = i") (simp_all add: with_leaf_def)
  ultimately have "ids_match (with_leaf mid i key t)"
    using bk_shape_ids [OF shape] by (simp add: ids_match_def) (simp add: with_leaf_def)
  then show ?thesis using shape unfolding bk_shape_def by (simp add: with_leaf_def)
qed

lemma node_keys_with_leaf [simp]: "node_keys_at (with_leaf mid i key t) = node_keys_at t"
  by (simp add: node_keys_at_def with_leaf_def fun_eq_iff)

lemma same_off_with_leaf:
  "d \<le> 30 \<Longrightarrow> i < 2 ^ d \<Longrightarrow> same_off d i t (with_leaf mid i key t)"
  by (rule same_offI) (simp_all add: with_leaf_def)

lemma encrypt_path_eq:
  assumes C: "crypto_laws C" and shape: "bk_shape d t" and single: "others_single i t"
    and i: "bk_id_to_leaf_idx t mid = Some i" and sk: "sks (share_key C sk) = Some sk"
  shows "\<exists>S r'. encrypt_path C mid (share_key C sk) sks (t, r) =
      (Ok (Some (PcsKey (ratchet_n_forward C d sk), updated_path d mid i (share_key C sk) S t)),
       (updated_tree d mid i (share_key C sk) S t, r')) \<and>
    (\<forall>m < d. path_store_ok C t i 0 sk m (S (Suc m)))"
proof -
  let ?pk = "share_key C sk" and ?u = "with_leaf mid i (ShareKey (share_key C sk)) t"
  from shape i obtain l where l: "i < 2 ^ d" "bk_leaves t ! i = Some l" by (rule bk_shape_id)
  have d: "0 < d" "d \<le> 30" using bk_shape_depth [OF shape] by simp_all
  let ?np = "\<lparr> pc_leaf_id = mid, pc_leaf_idx = i, pc_leaf_pk = ShareKey ?pk, pc_path = [],
    pc_removed_keys = node_key_keys (ln_pk l) \<rparr>"
  have "\<exists>S r'. encrypt_path_loop 32 C (node_idx 0 (i div 2 ^ 0)) ?pk sk (parent (Leaf i)) ?np (?u, r) =
      (Ok (ratchet_n_forward C (d - 0) sk, loop_path d i ?u 0 S ?np), (loop_tree d i 0 S ?u, r')) \<and>
      (\<forall>m. 0 \<le> m \<and> m < d \<longrightarrow> path_store_ok C ?u i 0 sk m (S (Suc m)))"
    using d l(1) parent_leaf [of d i]
    by (intro encrypt_path_loop_eq [OF C l(1) bk_shape_with_leaf [OF shape i] leaf_single_with_leaf [OF single]]) auto
  then obtain S r' where loop: "encrypt_path_loop 32 C (Leaf i) ?pk sk (parent (Leaf i)) ?np (?u, r) =
      (Ok (ratchet_n_forward C d sk, loop_path d i ?u 0 S ?np), (loop_tree d i 0 S ?u, r'))"
    and st: "\<And>m. m < d \<Longrightarrow> path_store_ok C ?u i 0 sk m (S (Suc m))" by auto
  have "node_key_for_id t mid = Ok (ln_pk l)"
    using i l leaf_Ok [OF shape l(1)] by (simp add: node_key_for_id_def leaf_index_for_id_def node_key_for_index_def)
  moreover have "insert_leaf_at i mid (ShareKey ?pk) t = Ok ?u"
    using l shape by (simp add: insert_leaf_at_def with_leaf_def)
  ultimately have "encrypt_path C mid ?pk sks (t, r) =
      (Ok (Some (PcsKey (ratchet_n_forward C d sk), loop_path d i ?u 0 S ?np)),
       (updated_tree d mid i ?pk S t, r'))"
    using loop sk i by (simp add: encrypt_path_def leaf_index_for_id_def Let_def updated_tree_def modify_st_def)
  moreover have "loop_path d i ?u 0 S ?np = updated_path d mid i ?pk S t"
    using l by (simp add: loop_path_def updated_path_def del: upt_Suc)
  moreover have "path_store_ok C t i 0 sk m (S (Suc m))" if "m < d" for m
  proof -
    have tr: "in_tree d m (i div 2 ^ m)" using in_tree_anc [of d i m] d l that by simp
    show ?thesis using st [OF that]
      by (simp add: path_store_ok_def same_off_map_ok [OF same_off_with_leaf [OF d(2) l(1)] tr that])
  qed
  ultimately show ?thesis by auto
qed

lemma updated_tree_wf:
  assumes shape: "bk_shape d t" and i: "bk_id_to_leaf_idx t mid = Some i"
    and S: "\<And>m. m \<in> {1..d} \<Longrightarrow> ss_versions (S m) \<noteq> []"
  shows "bk_wf d (updated_tree d mid i pk S t)"
proof -
  from shape i obtain l where l: "i < 2 ^ d" by (rule bk_shape_id)
  let ?u = "with_leaf mid i (ShareKey pk) t"
  have u: "bk_shape d ?u" by (rule bk_shape_with_leaf [OF shape i])
  have "bk_shape d (loop_tree d i 0 S ?u)"
    unfolding loop_tree_def
  proof (rule bk_shape_write [OF u])
    fix s assume "Some s \<in> set (write_path i S [Suc 0..<Suc d] (bk_inner_nodes ?u))"
    then have "Some s \<in> set (bk_inner_nodes ?u) \<or> s \<in> S ` set [Suc 0..<Suc d]" by (rule write_path_set)
    then show "ss_versions s \<noteq> []" using bk_shape_stores [OF u] S by (auto simp del: upt_Suc)
  qed (use u in simp)
  moreover have "bk_leaves (loop_tree d i 0 S ?u) ! i \<noteq> None"
    using l shape by (simp add: loop_tree_def with_leaf_def)
  ultimately show ?thesis
    unfolding bk_wf_def bk_shape_def using l by (simp add: updated_tree_def frame_simps)
qed

end
