(* ===== verification/Tree_Out.thy ===== *)
theory Tree_Out
  imports Tree_Math
begin

unbundle bit_operations_syntax

text \<open>
  Leaf indices outside the tree. The climb of \<open>direct_path\<close> stops only at the root; from a
  leaf that is not below the root it goes round in a cycle of the \<open>u32\<close> indices and never
  returns, whatever the fuel.
\<close>

definition climb :: "u32 \<Rightarrow> u32" where
  "climb x = inner_to_tree_index (parent (tree_node_index_new x))"

lemma direct_path_loop_climb:
  "direct_path_loop fuel r x = (if x = r then Ok [] else case fuel of 0 \<Rightarrow> Hang
    | Suc n \<Rightarrow> map_ok (Cons (parent (tree_node_index_new x))) (direct_path_loop n r (climb x)))"
  by (subst direct_path_loop.simps) (simp add: climb_def Let_def split: nat.split)

lemma inner_to_from: "odd x \<Longrightarrow> x < 2 ^ 32 \<Longrightarrow> inner_to_tree_index (inner_from_tree_index x) = x"
  by (auto simp: inner_to_tree_index_def inner_from_tree_index_def elim!: oddE)

lemma u32_new: "x < 2 ^ 32 \<Longrightarrow> tree_node_index_u32 (tree_node_index_new x) = x"
  by (cases "even x") (auto simp: tree_node_index_new_def inner_to_from leaf_to_tree_index_def
      leaf_from_tree_index_def even_iff_mod_2_eq_zero [symmetric] elim!: evenE)

lemma node_at_u32_range: "k \<le> 31 \<Longrightarrow> q < 2 ^ (31 - k) \<Longrightarrow> node_at k q < 2 ^ 32"
proof -
  assume k: "k \<le> 31" and q: "q < 2 ^ (31 - k)"
  then have "(q + 1) * 2 ^ Suc k \<le> 2 ^ (31 - k) * 2 ^ Suc k" by (intro mult_right_mono) simp_all
  also have "\<dots> = (2 :: nat) ^ 32" using k by (simp flip: power_add)
  finally have "q * 2 ^ Suc k + 2 ^ Suc k \<le> (2 :: nat) ^ 32" by simp
  moreover have "(2 :: nat) ^ k - 1 < 2 ^ k" by simp
  then have "(2 :: nat) ^ k - 1 < 2 ^ Suc k" unfolding power_Suc by linarith
  ultimately show ?thesis unfolding node_at_eq by linarith
qed

lemma half_range: "k < 31 \<Longrightarrow> q < (2 :: nat) ^ (31 - k) \<Longrightarrow> q div 2 < 2 ^ (31 - Suc k)"
proof -
  assume k: "k < 31" and q: "q < (2 :: nat) ^ (31 - k)"
  have "(2 :: nat) ^ (31 - k) = 2 * 2 ^ (31 - Suc k)" using k by (simp add: Suc_diff_Suc flip: power_Suc)
  then show ?thesis using q by (simp add: less_mult_imp_div_less mult.commute)
qed

lemma climb_node:
  assumes "k < 31" "q < 2 ^ (31 - k)"
  shows "climb (node_at k q) = node_at (Suc k) (q div 2)"
proof -
  let ?x = "node_at k q"
  have "(?x OR u32_shl 1 k) XOR u32_shl (u32_shr ?x (k + 1) AND 1) (k + 1) = node_at (Suc k) (q div 2)"
    by (rule bit_compare [where k = "Suc k"]) (use assms in \<open>auto simp: node_bits\<close>)
  moreover have "q div 2 < 2 ^ (31 - Suc k)" by (rule half_range [OF assms])
  then have "node_at (Suc k) (q div 2) < 2 ^ 32" using assms by (intro node_at_u32_range) simp_all
  ultimately show ?thesis
    using assms node_at_u32_range [of k q]
    by (simp add: climb_def parent_def u32_new level_node_at Let_def inner_to_from)
qed

lemma climb_top: "climb (node_at 31 0) = node_at 1 (2 ^ 30 - 1)"
proof -
  have x: "node_at 31 0 = 2147483647" by (simp add: node_at_eq)
  have "(node_at 31 0 OR u32_shl 1 31) XOR u32_shl (u32_shr (node_at 31 0) 32 AND 1) 32 = (4294967294 :: nat)"
    by (simp add: x u32_shl_def u32_shr_def and_one_eq)
  then show ?thesis
    using u32_new [of "node_at 31 0"] level_node_at [of 31 0]
    by (simp add: climb_def parent_def x Let_def inner_to_tree_index_def inner_from_tree_index_def node_at_eq)
qed

text \<open>The indices that are not below the root of the tree of depth \<open>d\<close>.\<close>

definition outside :: "nat \<Rightarrow> u32 \<Rightarrow> bool" where
  "outside d x \<longleftrightarrow> (\<exists>k q. k \<le> 31 \<and> q < 2 ^ (31 - k) \<and> x = node_at k q \<and> (k \<le> d \<longrightarrow> 0 < q div 2 ^ (d - k)))"

lemma outside_not_root: "d \<le> 30 \<Longrightarrow> outside d x \<Longrightarrow> x \<noteq> node_at d 0"
proof
  assume d: "d \<le> 30" and out: "outside d x" and eq: "x = node_at d 0"
  then obtain k q where k: "k \<le> 31" "node_at k q = node_at d 0" "k \<le> d \<longrightarrow> 0 < q div 2 ^ (d - k)"
    by (auto simp: outside_def)
  then have "k = d" using level_node_at [of k q] level_node_at [of d 0] d by simp
  moreover have "q = 0" using k(2) \<open>k = d\<close> Suc_node_at [of d q] Suc_node_at [of d 0] by simp
  ultimately show False using k(3) by simp
qed

lemma outside_climb:
  assumes d: "0 < d" "d \<le> 30" and out: "outside d x"
  shows "outside d (climb x)"
proof -
  obtain k q where k: "k \<le> 31" "q < 2 ^ (31 - k)" "x = node_at k q" "k \<le> d \<longrightarrow> 0 < q div 2 ^ (d - k)"
    using out by (auto simp: outside_def)
  show ?thesis
  proof (cases "k < 31")
    case True
    have "q div 2 < 2 ^ (31 - Suc k)" by (rule half_range [OF True k(2)])
    moreover have "0 < q div 2 div 2 ^ (d - Suc k)" if "Suc k \<le> d"
      using that k(4) by (simp add: div_mult2_eq [symmetric] Suc_diff_Suc flip: power_Suc)
    ultimately show ?thesis unfolding outside_def using climb_node [of k q] True k
      by (intro exI [of _ "Suc k"] exI [of _ "q div 2"]) simp
  next
    case False
    then have "x = node_at 31 0" using k by simp
    moreover have "0 < (2 ^ 30 - 1 :: nat) div 2 ^ (d - 1)"
    proof -
      have "(2 :: nat) ^ (d - 1) \<le> 2 ^ 29" using d by (intro power_increasing) simp_all
      then show ?thesis by (simp add: div_greater_zero_iff)
    qed
    ultimately show ?thesis unfolding outside_def using climb_top
      by (intro exI [of _ 1] exI [of _ "2 ^ 30 - 1"]) simp
  qed
qed

lemma direct_path_loop_outside:
  "0 < d \<Longrightarrow> d \<le> 30 \<Longrightarrow> outside d x \<Longrightarrow> direct_path_loop fuel (node_at d 0) x = Hang"
proof (induction fuel arbitrary: x)
  case (Suc n)
  then show ?case using outside_not_root outside_climb by (subst direct_path_loop_climb) simp
qed (subst direct_path_loop_climb, simp add: outside_not_root)

lemma outside_leaf:
  assumes "0 < d" "d \<le> 30" "2 ^ d \<le> i" "i < 2 ^ 31"
  shows "outside d (tree_node_index_u32 (Leaf i))"
proof -
  have "0 < i div 2 ^ d" using assms by (simp add: div_greater_zero_iff)
  moreover have "tree_node_index_u32 (Leaf i) = node_at 0 i"
    using assms by (simp add: leaf_to_tree_index_def node_at_leaf)
  ultimately show ?thesis unfolding outside_def using assms by (intro exI [of _ 0] exI [of _ i]) simp
qed

lemma direct_path_outside:
  assumes "0 < d" "d \<le> 30" "2 ^ d \<le> i" "i < 2 ^ 31"
  shows "direct_path (Leaf i) (full_size d) = Hang"
proof -
  have "tree_node_index_u32 (root (full_size d)) = node_at d 0"
    using assms root_idx [of d] idx_u32 [of d d 0] by (simp add: in_tree_def)
  then show ?thesis unfolding direct_path_def
    using direct_path_loop_outside [OF assms(1,2) outside_leaf [OF assms], of 32] by simp
qed

end
