(* ===== verification/Bee_Kem_Apply.thy ===== *)
theory Bee_Kem_Apply
  imports Bee_Kem_Path Tree_Out
begin

text \<open>
  \<open>apply_path\<close>: what it makes of a \<open>PathChange\<close> from another replica. It never fails on a
  change whose indices are in the tree, it keeps the invariant, and on the tree the change
  was made from it gives the tree of the member who made it.
\<close>

section \<open>Well-formed changes\<close>

text \<open>A path element of a tree of depth \<open>d\<close>: the index is in the tree and the store has a version.\<close>

definition path_elem :: "nat \<Rightarrow> u32 \<times> secret_store \<Rightarrow> bool" where
  "path_elem d = (\<lambda>(idx, s). idx < 2 ^ d - Suc 0 \<and> ss_versions s \<noteq> [])"

definition same_ids :: "beekem \<Rightarrow> beekem \<Rightarrow> bool" where
  "same_ids t t' \<longleftrightarrow> bk_id_to_leaf_idx t' = bk_id_to_leaf_idx t \<and> bk_next_leaf_idx t' = bk_next_leaf_idx t \<and>
     bk_doc_id t' = bk_doc_id t \<and> bk_leaves t' = bk_leaves t"

lemma apply_node_ok:
  assumes shape: "bk_shape d t" and e: "path_elem d (idx, s)"
  shows "apply_node R t (idx, s) = Ok (t\<lparr> bk_inner_nodes := (bk_inner_nodes t)[idx := Some
      (case bk_inner_nodes t ! idx of None \<Rightarrow> s | Some s0 \<Rightarrow> store_merge s0 s R)] \<rparr>)"
  using assms
  by (simp add: apply_node_def inner_node_def insert_inner_node_at_def path_elem_def
      split: option.split)

interpretation path_loop: total_step "apply_node R" "\<lambda>t'. bk_shape d t' \<and> same_ids t t'" "path_elem d"
  for R d t
proof
  fix u and a :: "u32 \<times> secret_store" assume u: "bk_shape d u \<and> same_ids t u" and a: "path_elem d a"
  obtain idx s where [simp]: "a = (idx, s)" by (cases a)
  let ?s = "case bk_inner_nodes u ! idx of None \<Rightarrow> s | Some s0 \<Rightarrow> store_merge s0 s R"
  let ?u = "u\<lparr> bk_inner_nodes := (bk_inner_nodes u)[idx := Some ?s] \<rparr>"
  have "ss_versions ?s \<noteq> []" using a by (simp add: path_elem_def split: option.split)
  then have "bk_shape d ?u" using u set_update_subset_insert [of "bk_inner_nodes u" idx "Some ?s"]
    by (intro bk_shape_write) (auto dest: bk_shape_stores)
  then show "\<exists>s'. apply_node R u a = Ok s' \<and> bk_shape d s' \<and> same_ids t s'"
    using apply_node_ok [OF conjunct1 [OF u], of idx s R] a u by (simp add: same_ids_def)
qed

text \<open>A change that fits the tree: the index it names is a leaf, its path elements are path elements.\<close>

definition change_fits :: "nat \<Rightarrow> path_change \<Rightarrow> bool" where
  "change_fits d P \<longleftrightarrow> pc_leaf_idx P < 2 ^ d \<and> list_all (path_elem d) (pc_path P)"

lemma is_valid_path_eq:
  assumes "bk_shape d t" "bk_id_to_leaf_idx t (pc_leaf_id P) = Some i" "pc_leaf_idx P < 2 ^ d"
  shows "is_valid_path t P = Ok (length (pc_path P) = d \<and> i = pc_leaf_idx P)"
  using assms by (simp add: is_valid_path_def path_length_for_def leaf_path_wf del: upt_Suc)

lemma bk_wf_with_leaf:
  assumes wf: "bk_wf d t" and i: "bk_id_to_leaf_idx t mid = Some i"
  shows "bk_wf d (with_leaf mid i key t)"
proof -
  from wf i have "i < 2 ^ d" by (rule bk_wf_id)
  moreover have "node_skip (with_leaf mid i key t) d 0 = node_skip t d 0"
    using bk_wf_depth [OF wf] by (simp add: node_skip_def with_leaf_def)
  moreover have "bk_leaves (with_leaf mid i key t) ! j \<noteq> None" if "bk_leaves t ! j \<noteq> None" "j < 2 ^ d" for j
    using that wf by (cases "j = i") (simp_all add: with_leaf_def)
  ultimately show ?thesis using wf bk_shape_with_leaf [OF bk_wf_shape [OF wf] i]
    unfolding bk_wf_def by (auto simp: with_leaf_def)
qed

text \<open>The leaf part of \<open>apply_path\<close>, and then one of its two branches.\<close>

lemma apply_path_leaf:
  assumes wf: "bk_wf d t" and i: "bk_id_to_leaf_idx t (pc_leaf_id P) = Some i" and fits: "pc_leaf_idx P < 2 ^ d"
    and l: "bk_leaves t ! i = Some l"
    and key: "node_key_merge (ln_pk l) (pc_leaf_pk P) (pc_removed_keys P) = (Ok key :: node_key cgka_result)"
  shows "apply_path P t = (let t1 = with_leaf (pc_leaf_id P) i key t in
    if length (pc_path P) = d \<and> i = pc_leaf_idx P then
      and_then (fold_ok (apply_node (set (pc_removed_keys P))) t1 (pc_path P)) (\<lambda>t2.
        map_ok (\<lambda>has_key. t2\<lparr> bk_current_secret_encrypter_leaf_idx := (if has_key then Some i else None) \<rparr>)
          (has_root_key t2))
    else Ok (blanked d i t1))"
proof -
  from wf i have lt: "i < 2 ^ d" by (rule bk_wf_id)
  have "insert_leaf_at i (pc_leaf_id P) key t = Ok (with_leaf (pc_leaf_id P) i key t)"
    using lt wf by (simp add: insert_leaf_at_def with_leaf_def)
  then show ?thesis
    using i key l leaf_Ok [OF bk_wf_shape [OF wf] lt] is_valid_path_eq [OF bk_wf_shape [OF wf] i fits]
      blank_path_wf(1) [OF bk_wf_with_leaf [OF wf i] lt]
    by (simp add: apply_path_def Let_def)
qed

lemma apply_path_wf:
  assumes wf: "bk_wf d t" and fits: "change_fits d P"
  shows "\<exists>t'. apply_path P t = Ok t' \<and> bk_wf d t' \<and> bk_id_to_leaf_idx t' = bk_id_to_leaf_idx t \<and>
    bk_next_leaf_idx t' = bk_next_leaf_idx t"
proof (cases "bk_id_to_leaf_idx t (pc_leaf_id P)")
  case None
  then show ?thesis using wf by (simp add: apply_path_def)
next
  case (Some i)
  from wf Some obtain l where lt: "i < 2 ^ d" and l: "bk_leaves t ! i = Some l" by (rule bk_wf_id)
  obtain key where key: "node_key_merge (ln_pk l) (pc_leaf_pk P) (pc_removed_keys P) = (Ok key :: node_key cgka_result)"
    by (rule node_key_merge_mset)
  have fit: "pc_leaf_idx P < 2 ^ d" using fits by (simp add: change_fits_def)
  let ?t1 = "with_leaf (pc_leaf_id P) i key t"
  have wf1: "bk_wf d ?t1" by (rule bk_wf_with_leaf [OF wf Some])
  obtain t2 where t2: "fold_ok (apply_node (set (pc_removed_keys P))) ?t1 (pc_path P) = Ok t2"
    "bk_shape d t2" "same_ids ?t1 t2"
    using path_loop.loop_total [of d ?t1 ?t1 "pc_path P"] wf1 fits by (auto simp: same_ids_def change_fits_def)
  let ?t3 = "t2\<lparr> bk_current_secret_encrypter_leaf_idx := (if \<not> node_skip t2 d 0 then Some i else None) \<rparr>"
  have "bk_leaves t2 ! i \<noteq> None" using t2(3) wf lt by (simp add: same_ids_def with_leaf_def)
  then have "bk_wf d ?t3" using t2(2) lt unfolding bk_wf_def bk_shape_def by (simp add: frame_simps node_skip_def)
  moreover have "bk_wf d (blanked d i ?t1)" by (rule blank_path_wf(2) [OF wf1 lt])
  moreover have "apply_path P t =
      (if length (pc_path P) = d \<and> i = pc_leaf_idx P then Ok ?t3 else Ok (blanked d i ?t1))"
    unfolding apply_path_leaf [OF wf Some fit l key] Let_def t2(1)
    by (auto simp: has_root_key_wf [OF t2(2)])
  ultimately show ?thesis using t2(3) by (auto simp: same_ids_def with_leaf_def)
qed

section \<open>Replaying an update\<close>

definition merged_store :: "share_key set \<Rightarrow> beekem \<Rightarrow> leaf_node_index \<Rightarrow> (nat \<Rightarrow> secret_store) \<Rightarrow> nat \<Rightarrow> secret_store" where
  "merged_store R t i S m = (case bk_inner_nodes t ! anc m i of
     None \<Rightarrow> S m
   | Some s \<Rightarrow> store_merge s (S m) R)"

lemma apply_nodes_eq:
  assumes "bk_shape d t" "i < 2 ^ d" "set ks \<subseteq> {1..d}" "distinct ks" "\<And>m. m \<in> set ks \<Longrightarrow> ss_versions (S m) \<noteq> []"
  shows "fold_ok (apply_node R) t (map (\<lambda>m. (anc m i, S m)) ks) =
    Ok (t\<lparr> bk_inner_nodes := write_path i (merged_store R t i S) ks (bk_inner_nodes t) \<rparr>)"
  using assms(1,3-)
proof (induction ks arbitrary: t)
  case (Cons k ks)
  note d = bk_shape_depth [OF Cons.prems(1)]
  have e: "path_elem d (anc k i, S k)"
    using anc_less [of d i k] assms(2) d Cons.prems by (simp add: path_elem_def)
  let ?t = "t\<lparr> bk_inner_nodes := (bk_inner_nodes t)[anc k i := Some (merged_store R t i S k)] \<rparr>"
  have step: "apply_node R t (anc k i, S k) = Ok ?t"
    using apply_node_ok [OF Cons.prems(1) e] by (simp add: merged_store_def)
  have shape: "bk_shape d ?t"
    using path_loop.step_total [of d t t "(anc k i, S k)" R] e Cons.prems(1) step by (auto simp: same_ids_def)
  have "merged_store R ?t i S m = merged_store R t i S m" if "m \<in> set ks" for m
  proof -
    have "anc k i \<noteq> anc m i" using anc_inj [of d i i k m] assms(2) d that Cons.prems(2,3) by auto
    then show ?thesis by (simp add: merged_store_def)
  qed
  then have "write_path i (merged_store R ?t i S) ks ns = write_path i (merged_store R t i S) ks ns" for ns
    by (intro write_path_cong) simp
  then show ?case using Cons.IH [OF shape] Cons.prems step by simp
qed simp

text \<open>
  The update applied to the tree it was made from: all old keys are in \<open>removed_keys\<close>, so every
  store and the leaf key are replaced, and the result is the tree of the updating member.
\<close>

lemma apply_path_updated:
  assumes wf: "bk_wf d t" and i: "bk_id_to_leaf_idx t mid = Some i"
    and S: "\<And>m. m \<in> {1..d} \<Longrightarrow> \<exists>v. ss_versions (S m) = [v]"
  shows "apply_path (updated_path d mid i pk S t) t = Ok (updated_tree d mid i pk S t)"
proof -
  from wf i obtain l where lt: "i < 2 ^ d" and l: "bk_leaves t ! i = Some l" by (rule bk_wf_id)
  note shape = bk_wf_shape [OF wf] and d = bk_wf_depth [OF wf]
  let ?P = "updated_path d mid i pk S t" and ?u = "with_leaf mid i (ShareKey pk) t"
  let ?R = "set (pc_removed_keys ?P)"
  have key: "node_key_merge (ln_pk l) (pc_leaf_pk ?P) (pc_removed_keys ?P) = Ok (ShareKey pk)"
    by (subst node_key_merge_all_removed) (auto simp: updated_path_def l)
  have u: "bk_shape d ?u" by (rule bk_shape_with_leaf [OF shape i])
  have merged: "merged_store ?R ?u i S m = S m" if "m \<in> set [1..<Suc d]" for m
  proof (cases "bk_inner_nodes t ! anc m i")
    case (Some s)
    have "node_keys_at t (anc m i) = map ssv_pk (ss_versions s)" using Some by (simp add: node_keys_at_def)
    then have "ssv_pk ` set (ss_versions s) \<subseteq> ?R" using that by (force simp: updated_path_def)
    then have "ss_versions (merged_store ?R ?u i S m) = ss_versions (S m)"
      using Some by (auto simp: merged_store_def with_leaf_def filter_empty_conv)
    then show ?thesis by simp
  qed (simp add: merged_store_def with_leaf_def)
  have nodes: "fold_ok (apply_node ?R) ?u (pc_path ?P) = Ok (loop_tree d i 0 S ?u)"
  proof -
    have "pc_path ?P = map (\<lambda>m. (anc m i, S m)) [1..<Suc d]" by (simp add: updated_path_def)
    moreover have "set [1..<Suc d] \<subseteq> {1..d}" by auto
    moreover have "ss_versions (S m) \<noteq> []" if "m \<in> set [1..<Suc d]" for m using S [of m] that by auto
    moreover have "write_path i (merged_store ?R ?u i S) [1..<Suc d] ns = write_path i S [1..<Suc d] ns" for ns
      by (rule write_path_cong) (rule merged)
    ultimately show ?thesis using apply_nodes_eq [OF u lt, of "[1..<Suc d]" S ?R]
      by (simp add: loop_tree_def del: upt_Suc)
  qed
  have "\<not> node_skip (loop_tree d i 0 S ?u) d 0"
  proof -
    have "write_path i S [Suc 0..<Suc d] (bk_inner_nodes ?u) ! anc d i = Some (S d)"
      using d lt u by (intro nth_write_path [of d]) auto
    then show ?thesis using S [of d] d lt
      by (auto simp: node_skip_def loop_tree_def anc_def has_conflict_def)
  qed
  moreover have "bk_shape d (loop_tree d i 0 S ?u)"
    using updated_tree_wf [OF shape i, of S pk] S unfolding updated_tree_def bk_wf_def bk_shape_def
    by (fastforce simp: frame_simps)
  moreover have "length (pc_path ?P) = d" "pc_leaf_id ?P = mid" "pc_leaf_idx ?P = i" "pc_leaf_pk ?P = ShareKey pk"
    by (simp_all add: updated_path_def)
  ultimately show ?thesis
    using apply_path_leaf [OF wf, of ?P, OF _ _ l key] lt i nodes has_root_key_wf [of d "loop_tree d i 0 S ?u"]
    by (simp add: Let_def updated_tree_def)
qed


section \<open>Properties\<close>

text \<open>
  C11 Applying another replica's path never fails and keeps the tree well-formed and its members
  unchanged, for every change whose leaf index and path indices are in the tree, whether or
  not it was made from this tree.
\<close>

theorem apply_path_keeps_wf:
  assumes "bk_wf d t" "change_fits d P"
  shows "\<exists>t'. apply_path P t = Ok t' \<and> bk_wf d t' \<and> bk_id_to_leaf_idx t' = bk_id_to_leaf_idx t \<and>
    bk_next_leaf_idx t' = bk_next_leaf_idx t"
  using apply_path_wf [OF assms] .

theorem apply_path_keeps_wf_witness:
  "\<exists>t'. apply_path \<lparr> pc_leaf_id = MemberId [0], pc_leaf_idx = 0, pc_leaf_pk = ShareKey (PublicKey [20]),
      pc_path = [(0, secret_store_new (PublicKey [21]) (PublicKey [20]) Map.empty)], pc_removed_keys = [PublicKey [10]] \<rparr>
      demo_tree = Ok t' \<and> bk_wf 1 t'"
  using apply_path_keeps_wf [OF demo_tree_wf, of "\<lparr> pc_leaf_id = MemberId [0], pc_leaf_idx = 0,
      pc_leaf_pk = ShareKey (PublicKey [20]), pc_path = [(0, secret_store_new (PublicKey [21]) (PublicKey [20]) Map.empty)],
      pc_removed_keys = [PublicKey [10]] \<rparr>"]
  by (auto simp: change_fits_def path_elem_def)



end
