(* ===== verification/Bee_Kem_Agree.thy ===== *)
theory Bee_Kem_Agree
  imports Bee_Kem_Apply
begin

text \<open>
  Agreement on the root secret. \<open>keyed C d sec t\<close> states that \<open>sec\<close> gives the secret key of
  every node of \<open>t\<close> that holds one, and that every stored secret is encrypted for the nodes
  that must read it. In such a tree every member decrypts the same root secret; an update
  by a member makes such a tree, and applying the update on another replica gives it too.
\<close>

section \<open>Trees with known secrets\<close>

definition store_written ::
    "('r, 'm) crypto_scheme \<Rightarrow> (nat \<Rightarrow> nat \<Rightarrow> share_secret_key) \<Rightarrow> beekem \<Rightarrow> nat \<Rightarrow> nat \<Rightarrow> bool" where
  "store_written C sec t k c \<longleftrightarrow> \<not> node_skip t k c \<and>
     sec (Suc k) (c div 2) = ratchet_forward C (sec k c) \<and>
     (\<exists>smap. bk_inner_nodes t ! inner_at (Suc k) (c div 2) =
         Some (secret_store_new (share_key C (sec (Suc k) (c div 2))) (share_key C (sec k c)) smap) \<and>
       map_ok_for C t k c (sec k c) (sec (Suc k) (c div 2)) smap)"

lemma store_writtenI:
  assumes "\<not> node_skip t k c" "sec (Suc k) (c div 2) = ratchet_forward C (sec k c)"
    and "bk_inner_nodes t ! inner_at (Suc k) (c div 2) =
      Some (secret_store_new (share_key C (sec (Suc k) (c div 2))) (share_key C (sec k c)) smap)"
    and "map_ok_for C t k c (sec k c) (sec (Suc k) (c div 2)) smap"
  shows "store_written C sec t k c"
  unfolding store_written_def by (intro conjI exI [of _ smap] assms)

definition path_chained ::
    "('r, 'm) crypto_scheme \<Rightarrow> nat \<Rightarrow> (nat \<Rightarrow> nat \<Rightarrow> share_secret_key) \<Rightarrow> beekem \<Rightarrow> leaf_node_index \<Rightarrow> bool" where
  "path_chained C d sec t i \<longleftrightarrow> (\<forall>k \<le> d. \<not> node_skip t k (i div 2 ^ k)) \<and>
     (\<forall>k \<le> d. sec k (i div 2 ^ k) = ratchet_n_forward C k (sec 0 i))"

definition keyed_nodes ::
    "('r, 'm) crypto_scheme \<Rightarrow> nat \<Rightarrow> (nat \<Rightarrow> nat \<Rightarrow> share_secret_key) \<Rightarrow> beekem \<Rightarrow> bool" where
  "keyed_nodes C d sec t \<longleftrightarrow>
     (\<forall>k q. in_tree d k q \<and> \<not> node_skip t k q \<longrightarrow> node_pk t k q = share_key C (sec k q)) \<and>
     (\<forall>k q. in_tree d (Suc k) q \<and> \<not> node_skip t (Suc k) q \<longrightarrow> (\<exists>c. c div 2 = q \<and> store_written C sec t k c))"

definition keyed ::
    "('r, 'm) crypto_scheme \<Rightarrow> nat \<Rightarrow> (nat \<Rightarrow> nat \<Rightarrow> share_secret_key) \<Rightarrow> beekem \<Rightarrow> bool" where
  "keyed C d sec t \<longleftrightarrow> bk_wf d t \<and> leaf_single t \<and> keyed_nodes C d sec t \<and>
     (\<forall>i. bk_current_secret_encrypter_leaf_idx t = Some i \<longrightarrow> path_chained C d sec t i)"

text \<open>Public keys in use belong to one secret.\<close>

definition distinct_keys ::
    "('r, 'm) crypto_scheme \<Rightarrow> nat \<Rightarrow> (nat \<Rightarrow> nat \<Rightarrow> share_secret_key) \<Rightarrow> beekem \<Rightarrow> bool" where
  "distinct_keys C d sec t \<longleftrightarrow> (\<forall>k q k' q'. in_tree d k q \<and> \<not> node_skip t k q \<and> in_tree d k' q' \<and> \<not> node_skip t k' q' \<and>
     share_key C (sec k q) = share_key C (sec k' q') \<longrightarrow> sec k q = sec k' q')"

text \<open>The key map of a member has no wrong secret under a public key in use.\<close>

definition sound_keys ::
    "('r, 'm) crypto_scheme \<Rightarrow> nat \<Rightarrow> (nat \<Rightarrow> nat \<Rightarrow> share_secret_key) \<Rightarrow> beekem \<Rightarrow> share_key_map \<Rightarrow> bool" where
  "sound_keys C d sec t sks \<longleftrightarrow> (\<forall>k q. in_tree d k q \<and> \<not> node_skip t k q \<longrightarrow>
     sks (share_key C (sec k q)) = None \<or> sks (share_key C (sec k q)) = Some (sec k q))"

lemma sound_keysD:
  "sound_keys C d sec t sks \<Longrightarrow> in_tree d k q \<Longrightarrow> \<not> node_skip t k q \<Longrightarrow> sks (share_key C (sec k q)) = Some s \<Longrightarrow>
    s = sec k q"
  by (fastforce simp: sound_keys_def)

lemma sound_keys_insert:
  assumes "sound_keys C d sec t sks" "distinct_keys C d sec t" "in_tree d k q" "\<not> node_skip t k q"
  shows "sound_keys C d sec t (sks(share_key C (sec k q) \<mapsto> sec k q))"
  using assms unfolding sound_keys_def distinct_keys_def by simp

lemma keyedD:
  assumes "keyed C d sec t"
  shows "bk_wf d t" "bk_shape d t" "leaf_single t"
    "in_tree d k q \<Longrightarrow> \<not> node_skip t k q \<Longrightarrow> node_pk t k q = share_key C (sec k q)"
    "bk_current_secret_encrypter_leaf_idx t = Some i \<Longrightarrow> path_chained C d sec t i" "keyed_nodes C d sec t"
  using assms by (simp_all add: keyed_def keyed_nodes_def)

lemma keyed_store:
  assumes "keyed_nodes C d sec t" "in_tree d (Suc k) q" "\<not> node_skip t (Suc k) q"
  obtains c where "c div 2 = q" "store_written C sec t k c"
  using assms unfolding keyed_nodes_def by blast

section \<open>Reading the secret of the next parent\<close>

text \<open>
  The reader \<open>(m, p)\<close> is the last node with a key on the way from leaf \<open>j\<close> to \<open>(Suc k, q)\<close>: it
  is the child that wrote the store, or in the resolution of that child's sibling.
\<close>

lemma reader_in_resolution:
  assumes "m \<le> k" "\<not> node_skip t m (j div 2 ^ m)" "\<forall>n. m < n \<and> n \<le> k \<longrightarrow> node_skip t n (j div 2 ^ n)"
  shows "(m, j div 2 ^ m) \<in> set (resolution t k (j div 2 ^ k))"
  using assms div_pow_add [of j m] by (auto simp: in_resolution_iff)

lemma sib_cases: "x div 2 = c div 2 \<Longrightarrow> x \<noteq> c \<Longrightarrow> x = sib c"
  unfolding sib_def by presburger

lemma sib_sib [simp]: "sib (sib c) = c"
  by (auto simp: sib_def elim!: evenE oddE)

lemma version_readable:
  assumes C: "crypto_laws C" and K: "keyed C d sec t" and dk: "distinct_keys C d sec t"
    and j: "j < 2 ^ d" "k < d" "m \<le> k" "\<not> node_skip t m (j div 2 ^ m)"
    and above: "\<forall>n. m < n \<and> n \<le> k \<longrightarrow> node_skip t n (j div 2 ^ n)"
    and c: "c div 2 = j div 2 ^ Suc k" "store_written C sec t k c"
    and sks: "sks (share_key C (sec m (j div 2 ^ m))) = Some (sec m (j div 2 ^ m))"
    and seen: "seen \<noteq> []" "last seen = node_idx m (j div 2 ^ m)"
    and smap: "map_ok_for C t k c (sec k c) (sec (Suc k) (c div 2)) smap"
  shows "version_decrypt_secret C \<lparr> ssv_pk = pk, ssv_sk = smap, ssv_encrypter_pk = share_key C (sec k c) \<rparr>
    (ShareKey (share_key C (sec m (j div 2 ^ m)))) sks seen = Ok (sec (Suc k) (c div 2))"
proof -
  let ?p = "j div 2 ^ m" and ?v = "\<lparr> ssv_pk = pk, ssv_sk = smap, ssv_encrypter_pk = share_key C (sec k c) \<rparr>"
  let ?doc = "tree_id_bytes (bk_doc_id t)" and ?new = "sec (Suc k) (c div 2)"
  have len: "length (secret_bytes ?new) = 32" using c(2) C by (simp add: store_written_def)
  have d: "d \<le> 30" using bk_wf_depth [OF keyedD(1) [OF K]] by simp
  have tree: "in_tree d m ?p" "in_tree d k (j div 2 ^ k)" using in_tree_anc [of d j] d j by simp_all
  show ?thesis
  proof (cases "j div 2 ^ k = c")
    case True
    then have "\<not> node_skip t k (j div 2 ^ k)" using c(2) by (simp add: store_written_def)
    then have m: "m = k" using above j(3) by (cases "m = k") auto
    obtain pk' es where "smap (node_idx k c) = Some es" "encrypt_secret C ?doc ?new (sec k c) pk' = Ok es"
      using smap unfolding map_ok_for_def by blast
    then show ?thesis using m True sks seen len
      by (intro decrypt_as_encrypter [OF C]) simp_all
  next
    case False
    moreover have "j div 2 ^ k div 2 = c div 2" using c(1) by (simp only: div_pow_Suc)
    ultimately have sib: "j div 2 ^ k = sib c" by (rule sib_cases [rotated])
    have "(m, ?p) \<in> set (resolution t k (sib c))"
      using reader_in_resolution [OF j(3,4) above] sib by simp
    then obtain es where es: "smap (node_idx m ?p) = Some es"
      "encrypt_secret C ?doc ?new (sec k c) (node_pk t m ?p) = Ok es"
      using smap unfolding map_ok_for_def by blast
    have pk: "node_pk t m ?p = share_key C (sec m ?p)" by (rule keyedD(4) [OF K tree(1) j(4)])
    have "in_tree d k (sib (j div 2 ^ k))" using in_tree_sibling [OF tree(2) j(2)] by (simp add: sib_def)
    then have ck: "in_tree d k c" "\<not> node_skip t k c" using c(2) sib by (simp_all add: store_written_def)
    show ?thesis
    proof (cases "share_key C (sec k c) = share_key C (sec m ?p)")
      case True
      then have "sec k c = sec m ?p" using dk ck tree(1) j(4) unfolding distinct_keys_def by blast
      then show ?thesis using es pk sks seen len by (intro decrypt_as_encrypter [OF C]) simp_all
    next
      case False
      then show ?thesis using es pk sks seen len by (intro decrypt_as_partner [OF C]) simp_all
    qed
  qed
qed


lemma decrypt_parent:
  assumes C: "crypto_laws C" and K: "keyed C d sec t" and dk: "distinct_keys C d sec t"
    and j: "j < 2 ^ d" "k < d" "m \<le> k" "\<not> node_skip t m (j div 2 ^ m)"
    and above: "\<forall>n. m < n \<and> n \<le> k \<longrightarrow> node_skip t n (j div 2 ^ n)"
    and top: "\<not> node_skip t (Suc k) (j div 2 ^ Suc k)"
    and sks: "sound_keys C d sec t sks" "sks (share_key C (sec m (j div 2 ^ m))) = Some (sec m (j div 2 ^ m))"
    and seen: "seen \<noteq> []" "last seen = node_idx m (j div 2 ^ m)"
  shows "\<exists>sks'. maybe_decrypt_parent_key C t (node_idx k (j div 2 ^ k))
      (ShareKey (share_key C (sec m (j div 2 ^ m)))) seen sks = (Ok (Some (sec (Suc k) (j div 2 ^ Suc k))), sks') \<and>
    sound_keys C d sec t sks' \<and>
    sks' (share_key C (sec (Suc k) (j div 2 ^ Suc k))) = Some (sec (Suc k) (j div 2 ^ Suc k))"
proof -
  let ?q = "j div 2 ^ Suc k"
  have d: "d \<le> 30" using bk_wf_depth [OF keyedD(1) [OF K]] by simp
  have tree: "in_tree d k (j div 2 ^ k)" "in_tree d (Suc k) ?q"
    using in_tree_anc [of d j k] in_tree_anc [of d j "Suc k"] d j by simp_all
  obtain c where c: "c div 2 = ?q" "store_written C sec t k c" by (rule keyed_store [OF keyedD(6) [OF K] tree(2) top])
  then obtain smap where st: "bk_inner_nodes t ! inner_at (Suc k) ?q =
      Some (secret_store_new (share_key C (sec (Suc k) ?q)) (share_key C (sec k c)) smap)"
    and smap: "map_ok_for C t k c (sec k c) (sec (Suc k) (c div 2)) smap"
    unfolding store_written_def by auto
  have half: "j div 2 ^ k div 2 = ?q" by (rule div_pow_Suc)
  have p: "inner_node t (parent (node_idx k (j div 2 ^ k))) =
      Ok (Some (secret_store_new (share_key C (sec (Suc k) ?q)) (share_key C (sec k c)) smap))"
    using inner_node_Ok [OF keyedD(2) [OF K] tree(2)] st parent_idx [OF tree(1) j(2)] half by simp
  let ?pk = "share_key C (sec (Suc k) ?q)"
  show ?thesis
  proof (cases "sks ?pk")
    case None
    have "version_decrypt_secret C \<lparr> ssv_pk = ?pk, ssv_sk = smap, ssv_encrypter_pk = share_key C (sec k c) \<rparr>
      (ShareKey (share_key C (sec m (j div 2 ^ m)))) sks seen = Ok (sec (Suc k) (c div 2))"
      using version_readable [of C d sec t j k m c sks seen smap ?pk] C K dk j above c sks(2) seen smap by blast
    then have "store_decrypt_secret C (secret_store_new ?pk (share_key C (sec k c)) smap)
        (ShareKey (share_key C (sec m (j div 2 ^ m)))) sks seen = Ok (sec (Suc k) ?q)"
      using c(1) by (simp add: store_decrypt_secret_def vec_get_def)
    then show ?thesis
      using None p sound_keys_insert [OF sks(1) dk tree(2) top]
      by (simp add: maybe_decrypt_parent_key_def store_node_key_def share_key_map_contains_def
          share_key_map_insert_def)
  next
    case (Some s)
    then have "s = sec (Suc k) ?q" by (rule sound_keysD [OF sks(1) tree(2) top])
    then show ?thesis using Some p sks(1)
      by (simp add: maybe_decrypt_parent_key_def store_node_key_def share_key_map_contains_def)
  qed
qed

text \<open>The inner loop finds the lowest node with a key above \<open>(m, p)\<close>.\<close>

lemma next_parent_eq:
  assumes shape: "bk_shape d t" and j: "j < 2 ^ d" "n < d" "m \<le> n" "n - m \<le> fuel"
    and above: "\<forall>l. m < l \<and> l \<le> n \<longrightarrow> node_skip t l (j div 2 ^ l)"
    and top: "\<not> node_skip t (Suc n) (j div 2 ^ Suc n)"
  shows "next_parent_loop fuel t (node_idx m (j div 2 ^ m)) (Inner (anc (Suc m) j)) =
    Ok (node_idx n (j div 2 ^ n), Inner (anc (Suc n) j))"
  using j(3,4) above
proof (induction fuel arbitrary: m)
  case 0
  then have "m = n" by simp
  have d: "d \<le> 30" using bk_shape_depth [OF shape] by simp
  have "in_tree d (Suc n) (j div 2 ^ Suc n)" using in_tree_anc [of d j "Suc n"] d j by simp
  then show ?case using \<open>m = n\<close> top should_skip_idx [OF shape, of "Suc n" "j div 2 ^ Suc n"]
    by (subst next_parent_loop.simps) (simp add: anc_def)
next
  case (Suc fuel)
  have d: "d \<le> 30" using bk_shape_depth [OF shape] by simp
  have tr: "in_tree d (Suc m) (j div 2 ^ Suc m)" using in_tree_anc [of d j "Suc m"] d j Suc.prems by simp
  have skip: "should_skip_for_resolution t (Inner (anc (Suc m) j)) = Ok (node_skip t (Suc m) (j div 2 ^ Suc m))"
    using should_skip_idx [OF shape tr] by (simp add: anc_def)
  show ?case
  proof (cases "m = n")
    case True
    then show ?thesis using top skip by (subst next_parent_loop.simps) simp
  next
    case False
    then have m: "Suc m \<le> n" using Suc.prems by simp
    have half: "j div 2 ^ Suc m div 2 = j div 2 ^ Suc (Suc m)" by (rule div_pow_Suc)
    have "parent (Inner (anc (Suc m) j)) = anc (Suc (Suc m)) j"
      using parent_idx [OF tr] m j half by (simp add: anc_def)
    moreover have "node_skip t (Suc m) (j div 2 ^ Suc m)" using Suc.prems m by blast
    moreover have "next_parent_loop fuel t (node_idx (Suc m) (j div 2 ^ Suc m)) (Inner (anc (Suc (Suc m)) j)) =
        Ok (node_idx n (j div 2 ^ n), Inner (anc (Suc n) j))"
      using Suc.prems m by (intro Suc.IH) auto
    ultimately show ?thesis using skip by (subst next_parent_loop.simps) (simp add: anc_def)
  qed
qed


lemma next_keyed_level:
  fixes m L :: nat
  assumes "m < L" "\<not> P L"
  obtains n where "m \<le> n" "n < L" "\<not> P (Suc n)" "\<forall>l. m < l \<and> l \<le> n \<longrightarrow> P l"
proof -
  define n where "n = (LEAST n. m < n \<and> \<not> P n)"
  have n: "m < n \<and> \<not> P n" unfolding n_def by (rule LeastI [of _ L]) (use assms in simp)
  have least: "P l" if "m < l" "l < n" for l using not_less_Least [of l] that unfolding n_def by blast
  have "n \<le> L" unfolding n_def by (rule Least_le) (use assms in simp)
  then show ?thesis using n least by (intro that [of "n - 1"]) auto
qed

lemma decrypt_loop_eq:
  assumes C: "crypto_laws C" and K: "keyed C d sec t" and dk: "distinct_keys C d sec t"
    and j: "j < 2 ^ d" "L \<le> d" and top: "\<not> node_skip t L (j div 2 ^ L)"
    and root: "ratchet_n_forward C (d - L) (sec L (j div 2 ^ L)) = sec d 0"
    and m: "m < L" "L - m \<le> fuel" "\<not> node_skip t m (j div 2 ^ m)"
    and sks: "sound_keys C d sec t sks" "sks (share_key C (sec m (j div 2 ^ m))) = Some (sec m (j div 2 ^ m))"
    and seen: "seen \<noteq> []" "last seen = node_idx m (j div 2 ^ m)"
  shows "\<exists>sks'. decrypt_loop fuel C t (anc L j) (node_idx m (j div 2 ^ m)) (Inner (anc (Suc m) j)) seen
      (ShareKey (share_key C (sec m (j div 2 ^ m)))) ls sks = (Ok (sec d 0), sks') \<and> sound_keys C d sec t sks'"
  using m sks seen
proof (induction fuel arbitrary: m seen ls sks)
  case (Suc fuel)
  note shape = keyedD(2) [OF K]
  have d: "d \<le> 30" using bk_shape_depth [OF shape] by simp
  obtain n where n: "m \<le> n" "n < L" "\<not> node_skip t (Suc n) (j div 2 ^ Suc n)"
    and above: "\<forall>l. m < l \<and> l \<le> n \<longrightarrow> node_skip t l (j div 2 ^ l)"
    by (rule next_keyed_level [OF Suc.prems(1), of "\<lambda>l. node_skip t l (j div 2 ^ l)"]) (use top in auto)
  let ?p = "j div 2 ^ m" and ?q = "j div 2 ^ Suc n"
  have tree: "in_tree d m ?p" "in_tree d (Suc n) ?q"
    using in_tree_anc [of d j m] in_tree_anc [of d j "Suc n"] d j n Suc.prems by simp_all
  obtain sks' where dec: "maybe_decrypt_parent_key C t (node_idx n (j div 2 ^ n))
      (ShareKey (share_key C (sec m ?p))) seen sks = (Ok (Some (sec (Suc n) ?q)), sks')"
    and sks': "sound_keys C d sec t sks'" "sks' (share_key C (sec (Suc n) ?q)) = Some (sec (Suc n) ?q)"
    using decrypt_parent [of C d sec t j n m sks seen] C K dk j n Suc.prems(3-7) above by auto
  have nroot: "\<not> is_root t (node_idx m ?p)" using is_root_idx [OF shape tree(1)] Suc.prems j by simp
  have nxt: "next_parent_loop 32 t (node_idx m ?p) (Inner (anc (Suc m) j)) =
      Ok (node_idx n (j div 2 ^ n), Inner (anc (Suc n) j))"
    using n j d by (intro next_parent_eq [OF shape j(1) _ n(1) _ above n(3)]) auto
  have lca: "anc (Suc n) j = anc L j \<longleftrightarrow> Suc n = L"
    using anc_inj [of d j j "Suc n" L] n d j by auto
  show ?case
  proof (cases "Suc n = L")
    case True
    then have "direct_path (Inner (anc L j)) (bk_tree_size t) =
        (Ok (map (\<lambda>i. inner_at i (j div 2 ^ L div 2 ^ (i - L))) [Suc L..<Suc d]) :: inner_node_index list cgka_result)"
      using direct_path_idx [OF tree(2)] bk_shape_size [OF shape] by (simp add: Inner_anc del: upt_Suc)
    then show ?thesis using True nroot nxt dec sks' root n(2)
      by (subst decrypt_loop.simps) (simp del: upt_Suc)
  next
    case False
    then have lt: "Suc n < L" using n by simp
    have "node_key_for_index t (node_idx (Suc n) ?q) = Ok (ShareKey (share_key C (sec (Suc n) ?q)))"
      using node_key_nonskip [OF shape keyedD(3) [OF K] tree(2) n(3)] keyedD(4) [OF K tree(2) n(3)] by simp
    moreover have "parent (Inner (anc (Suc n) j)) = anc (Suc (Suc n)) j"
      using parent_idx [OF tree(2)] lt j by (simp add: anc_def div_pow_Suc del: power_Suc)
    moreover have "\<exists>sks''. decrypt_loop fuel C t (anc L j) (node_idx (Suc n) ?q) (Inner (anc (Suc (Suc n)) j))
        (seen @ [Inner (anc (Suc n) j)]) (ShareKey (share_key C (sec (Suc n) ?q))) (Some (sec (Suc n) ?q)) sks' =
        (Ok (sec d 0), sks'') \<and> sound_keys C d sec t sks''"
      using Suc.prems n lt sks' by (intro Suc.IH) (auto simp: anc_def)
    ultimately show ?thesis using nroot nxt dec lca False
      by (subst decrypt_loop.simps) (simp add: anc_def del: power_Suc)
  qed
qed simp


section \<open>Every member reads the root secret\<close>

lemma keyed_leaf:
  assumes K: "keyed C d sec t" and j: "bk_id_to_leaf_idx t mid = Some j"
  obtains l where "j < 2 ^ d" "bk_leaves t ! j = Some l" "ln_pk l = ShareKey (share_key C (sec 0 j))"
    "\<not> node_skip t 0 j"
proof -
  from keyedD(1) [OF K] j obtain l where l: "j < 2 ^ d" "bk_leaves t ! j = Some l" by (rule bk_wf_id)
  then have ns: "\<not> node_skip t 0 j" by (simp add: node_skip_def)
  obtain l' where l': "bk_leaves t ! j = Some l'" "ln_pk l' = ShareKey (node_pk t 0 j)"
    by (rule nonskip_leaf [OF keyedD(2,3) [OF K] l(1) ns])
  have "d \<le> 30" using bk_wf_depth [OF keyedD(1) [OF K]] by simp
  then have "in_tree d 0 j" using l(1) by (simp add: in_tree_def)
  then show ?thesis using l l' ns keyedD(4) [OF K, of 0 j] by (intro that) simp_all
qed

lemma decrypt_tree_secret_eq:
  assumes C: "crypto_laws C" and K: "keyed C d sec t" and dk: "distinct_keys C d sec t"
    and j: "bk_id_to_leaf_idx t mid = Some j" and root: "\<not> node_skip t d 0"
    and sks: "sound_keys C d sec t sks" "sks (share_key C (sec 0 j)) = Some (sec 0 j)"
  shows "\<exists>sks'. decrypt_tree_secret C t mid sks = (Ok (sec d 0), sks') \<and> sound_keys C d sec t sks'"
proof -
  note wf = keyedD(1) [OF K] and shape = keyedD(2) [OF K]
  have d: "0 < d" "d \<le> 30" using bk_wf_depth [OF wf] by simp_all
  obtain l where l: "j < 2 ^ d" "bk_leaves t ! j = Some l" "ln_pk l = ShareKey (share_key C (sec 0 j))"
    and ns: "\<not> node_skip t 0 j" by (rule keyed_leaf [OF K j])
  obtain i where i: "i < 2 ^ d" "bk_current_secret_encrypter_leaf_idx t = Some i"
    using bk_wf_root [OF wf root] by blast
  have chain: "path_chained C d sec t i" by (rule keyedD(5) [OF K i(2)])
  have lf: "leaf t j = Ok (Some l)" "has_root_key t = Ok True" "leaf_index_for_id t mid = Ok j"
    using leaf_Ok [OF shape l(1)] l(2) has_root_key_wf [OF shape] root j by (simp_all add: leaf_index_for_id_def)
  have top: "sec d 0 = ratchet_n_forward C d (sec 0 i)" using chain i(1) by (auto simp: path_chained_def)
  show ?thesis
  proof (cases "j = i")
    case True
    then show ?thesis using lf l(3) sks i(2) top leaf_path_wf [OF shape l(1), where 'a = cgka_error]
      by (simp add: decrypt_tree_secret_def del: upt_Suc)
  next
    case False
    let ?L = "lca_level j i"
    have L: "lowest_common_ancestor j i = anc ?L j" "0 < ?L" "?L \<le> d"
      using lca_idx [OF l(1) i(1) d(2) False] by simp_all
    have same: "j div 2 ^ ?L = i div 2 ^ ?L" by (rule lca_level_same)
    have "ratchet_n_forward C (d - ?L) (sec ?L (j div 2 ^ ?L)) = sec d 0"
      using chain L(3) top ratchet_add [of C "d - ?L" ?L "sec 0 i"] by (simp add: same path_chained_def)
    moreover have "\<not> node_skip t ?L (j div 2 ^ ?L)" using chain L(3) by (simp add: same path_chained_def)
    ultimately have "\<exists>sks'. decrypt_loop 32 C t (anc ?L j) (node_idx 0 (j div 2 ^ 0)) (Inner (anc (Suc 0) j)) [Leaf j]
      (ShareKey (share_key C (sec 0 (j div 2 ^ 0)))) None sks = (Ok (sec d 0), sks') \<and> sound_keys C d sec t sks'"
      using L d ns sks by (intro decrypt_loop_eq [OF C K dk l(1)]) simp_all
    then show ?thesis using lf l(3) i(2) False L(1) parent_leaf [OF d(2) l(1) d(1)]
      by (simp add: decrypt_tree_secret_def)
  qed
qed


section \<open>Operations keep the secrets known\<close>

text \<open>Below \<open>(k, q)\<close> nothing changed: neither the nodes nor the secrets in use.\<close>

definition kept ::
    "(nat \<Rightarrow> nat \<Rightarrow> share_secret_key) \<Rightarrow> (nat \<Rightarrow> nat \<Rightarrow> share_secret_key) \<Rightarrow> beekem \<Rightarrow> beekem \<Rightarrow> nat \<Rightarrow> nat \<Rightarrow> bool" where
  "kept sec sec' t t' k q \<longleftrightarrow> same_under t t' k q \<and>
     (\<forall>m p. m \<le> k \<and> p div 2 ^ (k - m) = q \<and> \<not> node_skip t m p \<longrightarrow> sec' m p = sec m p)"

lemma map_ok_for_same:
  assumes "same_under t t' k (sib c)" "bk_doc_id t' = bk_doc_id t"
  shows "map_ok_for C t' k c csk nsk smap = map_ok_for C t k c csk nsk smap"
proof -
  have res: "resolution t' k (sib c) = resolution t k (sib c)"
    by (rule resolution_cong) (rule same_under_skip [OF assms(1)])
  have "node_pk t' m p = node_pk t m p" if "(m, p) \<in> set (resolution t k (sib c))" for m p
    using that assms(1) by (intro node_val_pk) (simp add: in_resolution_iff same_under_def)
  then have eq: "\<forall>x \<in> set (resolution t k (sib c)). node_pk t' (fst x) (snd x) = node_pk t (fst x) (snd x)"
    by auto
  show ?thesis unfolding map_ok_for_def res assms(2) by (simp add: case_prod_unfold eq cong: ball_cong bex_cong)
qed

lemma store_written_kept:
  assumes K: "kept sec sec' t t' (Suc k) (c div 2)" and doc: "bk_doc_id t' = bk_doc_id t"
    and st: "store_written C sec t k c"
  shows "store_written C sec' t' k c"
proof -
  have same: "same_under t t' (Suc k) (c div 2)"
    and secs: "\<And>m p. m \<le> Suc k \<Longrightarrow> p div 2 ^ (Suc k - m) = c div 2 \<Longrightarrow> \<not> node_skip t m p \<Longrightarrow> sec' m p = sec m p"
    using K unfolding kept_def by blast+
  have sub: "same_under t t' k c" "same_under t t' k (sib c)"
    using same_under_child [OF same] by (simp_all add: sib_div)
  have skip: "node_skip t' k c = node_skip t k c" using same_under_skip [OF sub(1)] by simp
  have ns: "\<not> node_skip t k c" using st by (simp add: store_written_def)
  obtain smap where s: "bk_inner_nodes t ! inner_at (Suc k) (c div 2) =
      Some (secret_store_new (share_key C (sec (Suc k) (c div 2))) (share_key C (sec k c)) smap)"
    and smap: "map_ok_for C t k c (sec k c) (sec (Suc k) (c div 2)) smap"
    using st unfolding store_written_def by blast
  have "\<not> node_skip t (Suc k) (c div 2)" using s by (simp add: node_skip_def)
  then have secs': "sec' (Suc k) (c div 2) = sec (Suc k) (c div 2)" "sec' k c = sec k c"
    using secs [of "Suc k"] secs [of k c] ns by (simp_all add: Suc_diff_le)
  have "node_val t' (Suc k) (c div 2) = node_val t (Suc k) (c div 2)" using same by (simp add: same_under_def)
  then have "bk_inner_nodes t' ! inner_at (Suc k) (c div 2) = bk_inner_nodes t ! inner_at (Suc k) (c div 2)"
    by (simp add: node_val_def)
  moreover have "map_ok_for C t' k c (sec k c) (sec (Suc k) (c div 2)) smap"
    using smap by (simp only: map_ok_for_same [OF sub(2) doc])
  moreover have "sec (Suc k) (c div 2) = ratchet_forward C (sec k c)" using st by (simp add: store_written_def)
  ultimately show ?thesis using ns s by (intro store_writtenI [where smap = smap]) (simp_all only: secs' skip simp_thms)
qed

lemma keyed_nodes_transfer:
  assumes K: "keyed_nodes C d sec t" and doc: "bk_doc_id t' = bk_doc_id t"
    and inner: "\<And>k q. in_tree d' (Suc k) q \<Longrightarrow> \<not> node_skip t' (Suc k) q \<Longrightarrow>
      in_tree d (Suc k) q \<and> kept sec sec' t t' (Suc k) q \<or> (\<exists>c. c div 2 = q \<and> store_written C sec' t' k c)"
    and leaves: "\<And>q. in_tree d' 0 q \<Longrightarrow> \<not> node_skip t' 0 q \<Longrightarrow> node_pk t' 0 q = share_key C (sec' 0 q)"
  shows "keyed_nodes C d' sec' t'"
proof -
  have written: "\<exists>c. c div 2 = q \<and> store_written C sec' t' k c" if q: "in_tree d' (Suc k) q" "\<not> node_skip t' (Suc k) q" for k q
    using inner [OF q]
  proof
    assume kept': "in_tree d (Suc k) q \<and> kept sec sec' t t' (Suc k) q"
    then have kept: "kept sec sec' t t' (Suc k) q" by simp
    then have "\<not> node_skip t (Suc k) q" using same_under_skip [of t t' "Suc k" q "Suc k" q] q by (simp add: kept_def)
    then obtain c where "c div 2 = q" "store_written C sec t k c" by (rule keyed_store [OF K conjunct1 [OF kept']])
    then show ?thesis using store_written_kept [OF _ doc] kept by blast
  qed
  have "node_pk t' k q = share_key C (sec' k q)" if "in_tree d' k q" "\<not> node_skip t' k q" for k q
  proof (cases k)
    case (Suc m)
    then show ?thesis using that written [of m q] by (auto simp: store_written_def node_pk_def)
  qed (use that leaves in simp)
  then show ?thesis using written by (simp add: keyed_nodes_def)
qed

section \<open>An update\<close>

definition updated_secrets ::
    "('r, 'm) crypto_scheme \<Rightarrow> leaf_node_index \<Rightarrow> share_secret_key \<Rightarrow> (nat \<Rightarrow> nat \<Rightarrow> share_secret_key) \<Rightarrow>
     nat \<Rightarrow> nat \<Rightarrow> share_secret_key" where
  "updated_secrets C i sk sec = (\<lambda>k q. if q = i div 2 ^ k then ratchet_n_forward C k sk else sec k q)"

lemma off_path_descendant:
  fixes i :: nat
  assumes "m \<le> k" "p div 2 ^ (k - m) = q" "q \<noteq> i div 2 ^ k"
  shows "p \<noteq> i div 2 ^ m"
  using assms div_pow_add [of i m "k - m"] by auto

lemma same_off_updated:
  assumes "d \<le> 30" "i < 2 ^ d"
  shows "same_off d i t (updated_tree d mid i pk S t)"
proof (rule same_offI [OF assms])
  fix n assume "n \<notin> (\<lambda>m. anc m i) ` {1..d}"
  then have "n \<notin> (\<lambda>m. anc m i) ` set [Suc 0..<Suc d]" by (auto simp del: upt_Suc)
  then show "bk_inner_nodes (updated_tree d mid i pk S t) ! n = bk_inner_nodes t ! n"
    by (simp add: updated_tree_def loop_tree_def with_leaf_def nth_write_path_other del: upt_Suc)
qed (simp_all add: updated_tree_def loop_tree_def with_leaf_def)

lemma kept_off_path:
  assumes "same_off d i t t'" "in_tree d k q" "q \<noteq> i div 2 ^ k"
  shows "kept sec (updated_secrets C i sk sec) t t' k q"
proof -
  have "in_tree d m p \<and> p \<noteq> i div 2 ^ m" if "m \<le> k" "p div 2 ^ (k - m) = q" for m p
    using in_tree_descendant [OF assms(2) that] off_path_descendant [OF that assms(3)] by simp
  then show ?thesis using assms(1) by (simp add: kept_def same_under_def same_off_def updated_secrets_def)
qed


lemma nth_updated:
  assumes "d \<le> 30" "i < 2 ^ d" "0 < k" "k \<le> d" "length (bk_inner_nodes t) = 2 ^ d - Suc 0"
  shows "bk_inner_nodes (updated_tree d mid i pk S t) ! anc k i = Some (S k)"
proof -
  have "set [Suc 0..<Suc d] \<subseteq> {1..d}" by auto
  then show ?thesis using assms nth_write_path [of d i "[Suc 0..<Suc d]" k "bk_inner_nodes t" S]
    by (simp add: updated_tree_def loop_tree_def with_leaf_def del: upt_Suc)
qed

lemma path_store_written:
  assumes d: "d \<le> 30" "i < 2 ^ d" "k < d" and S: "path_store_ok C t i 0 sk k (S (Suc k))"
    and len: "length (bk_inner_nodes t) = 2 ^ d - Suc 0"
    and skip: "\<not> node_skip (updated_tree d mid i pk S t) k (i div 2 ^ k)"
  shows "store_written C (updated_secrets C i sk sec) (updated_tree d mid i pk S t) k (i div 2 ^ k)"
proof -
  let ?t = "updated_tree d mid i pk S t" and ?sec = "updated_secrets C i sk sec"
  obtain smap where s: "S (Suc k) = secret_store_new (share_key C (ratchet_n_forward C (Suc k) sk))
      (share_key C (ratchet_n_forward C k sk)) smap"
    and smap: "map_ok_for C t k (i div 2 ^ k) (ratchet_n_forward C k sk) (ratchet_n_forward C (Suc k) sk) smap"
    using S by (auto simp: path_store_ok_def)
  have "map_ok_for C ?t k (i div 2 ^ k) (ratchet_n_forward C k sk) (ratchet_n_forward C (Suc k) sk) smap"
    using in_tree_anc [of d i k] d smap by (simp add: same_off_map_ok [OF same_off_updated [OF d(1,2)]])
  moreover have "bk_inner_nodes ?t ! inner_at (Suc k) (i div 2 ^ Suc k) = Some (S (Suc k))"
    using nth_updated [OF d(1,2), of "Suc k"] d len by (simp add: anc_def del: power_Suc)
  moreover have "?sec k (i div 2 ^ k) = ratchet_n_forward C k sk"
    "?sec (Suc k) (i div 2 ^ Suc k) = ratchet_n_forward C (Suc k) sk" by (simp_all add: updated_secrets_def)
  ultimately show ?thesis using skip s
    by (intro store_writtenI [where smap = smap]) (simp_all add: div_pow_Suc ratchet_Suc del: power_Suc)
qed

lemma path_store_single: "path_store_ok C t i k sk m s \<Longrightarrow> \<exists>v. ss_versions s = [v]"
  by (auto simp: path_store_ok_def)

lemma updated_path_keyed:
  assumes d: "d \<le> 30" "i < 2 ^ d" and S: "\<And>m. m < d \<Longrightarrow> path_store_ok C t i 0 sk m (S (Suc m))"
    and len: "length (bk_inner_nodes t) = 2 ^ d - Suc 0" "length (bk_leaves t) = 2 ^ d" and k: "k \<le> d"
  shows "\<not> node_skip (updated_tree d mid i pk S t) k (i div 2 ^ k)"
proof (cases k)
  case 0
  then show ?thesis using d len by (simp add: node_skip_def updated_tree_def loop_tree_def with_leaf_def)
next
  case (Suc m)
  have "bk_inner_nodes (updated_tree d mid i pk S t) ! anc k i = Some (S k)"
    using nth_updated [OF d, of k] len Suc k by simp
  then show ?thesis using path_store_single [OF S [of m]] Suc k
    by (auto simp: node_skip_def anc_def has_conflict_def)
qed

lemma keyed_updated:
  assumes K: "keyed_nodes C d sec t" and shape: "bk_shape d t" and single: "others_single i t"
    and i: "bk_id_to_leaf_idx t mid = Some i"
    and S: "\<And>m. m < d \<Longrightarrow> path_store_ok C t i 0 sk m (S (Suc m))"
  shows "keyed C d (updated_secrets C i sk sec) (updated_tree d mid i (share_key C sk) S t)"
proof -
  let ?t = "updated_tree d mid i (share_key C sk) S t" and ?sec = "updated_secrets C i sk sec"
  have d: "d \<le> 30" using bk_shape_depth [OF shape] by simp
  from shape i have lt: "i < 2 ^ d" by (rule bk_shape_id)
  have S1: "\<exists>v. ss_versions (S m) = [v]" if "m \<in> {1..d}" for m
    using that path_store_single [OF S, of "m - 1"] by (cases m) auto
  have nskip: "\<not> node_skip ?t k (i div 2 ^ k)" if "k \<le> d" for k
    using that shape S by (intro updated_path_keyed [OF d lt]) simp_all
  have off: "same_off d i t ?t" by (rule same_off_updated [OF d lt])
  have "keyed_nodes C d ?sec ?t"
  proof (rule keyed_nodes_transfer [OF K])
    show "bk_doc_id ?t = bk_doc_id t" using off by (simp add: same_off_def)
    fix k q assume q: "in_tree d (Suc k) q" "\<not> node_skip ?t (Suc k) q"
    show "in_tree d (Suc k) q \<and> kept sec ?sec t ?t (Suc k) q \<or> (\<exists>c. c div 2 = q \<and> store_written C ?sec ?t k c)"
    proof (cases "q = i div 2 ^ Suc k")
      case True
      have "k < d" using q by (simp add: in_tree_def)
      then have "store_written C ?sec ?t k (i div 2 ^ k)"
        using nskip shape S by (intro path_store_written [OF d lt]) simp_all
      then show ?thesis using True div_pow_Suc [of i k] by blast
    qed (use kept_off_path [OF off q(1)] q(1) in blast)
  next
    fix q assume q: "in_tree d 0 q" "\<not> node_skip ?t 0 q"
    show "node_pk ?t 0 q = share_key C (?sec 0 q)"
    proof (cases "q = i")
      case True
      then show ?thesis using lt shape
        by (simp add: node_pk_def updated_tree_def loop_tree_def with_leaf_def updated_secrets_def)
    next
      case False
      then have eq: "node_val ?t 0 q = node_val t 0 q" using off q(1) by (simp add: same_off_def)
      have "\<not> node_skip t 0 q" using q(2) node_val_skip [OF eq] by simp
      then have "node_pk t 0 q = share_key C (sec 0 q)" using K q(1) by (simp add: keyed_nodes_def)
      then show ?thesis using node_val_pk [OF eq] False by (simp add: updated_secrets_def)
    qed
  qed
  moreover have "bk_wf d ?t" using S1 by (intro updated_tree_wf [OF shape i]) force
  moreover have "leaf_single ?t"
    using leaf_single_with_leaf [OF single] by (simp add: leaf_single_def updated_tree_def loop_tree_def)
  moreover have "path_chained C d ?sec ?t i" using nskip by (simp add: path_chained_def updated_secrets_def)
  moreover have "bk_current_secret_encrypter_leaf_idx ?t = Some i" by (simp add: updated_tree_def)
  ultimately show ?thesis by (simp add: keyed_def)
qed


lemma keyed_others_single: "leaf_single t \<Longrightarrow> others_single i t"
  unfolding leaf_single_def others_single_def by (metis nth_mem)

text \<open>The two-member tree with the demonstration primitives, for the witnesses.\<close>

definition demo_sec :: "nat \<Rightarrow> nat \<Rightarrow> share_secret_key" where
  "demo_sec = (\<lambda>k q. ShareSecretKey [if q = 0 then 10 else 11])"

lemma demo_share_key [simp]: "share_key demo_crypto sk = PublicKey (secret_bytes sk)"
  by (simp add: share_key_def demo_crypto_def)

lemma demo_keys_eq: "share_key demo_crypto a = share_key demo_crypto b \<longleftrightarrow> a = b"
  by (cases a; cases b) simp

lemma demo_distinct_keys: "distinct_keys demo_crypto d sec t"
  by (simp add: distinct_keys_def demo_keys_eq del: demo_share_key)

lemma demo_sound_keys: "sound_keys demo_crypto d sec t [share_key demo_crypto sk \<mapsto> sk]"
  by (auto simp: sound_keys_def demo_keys_eq simp del: demo_share_key)

lemma demo_tree_nodes: "bk_leaves demo_tree = [Some \<lparr> ln_id = MemberId [0], ln_pk = ShareKey (PublicKey [10]) \<rparr>,
    Some \<lparr> ln_id = MemberId [1], ln_pk = ShareKey (PublicKey [11]) \<rparr>]" "bk_inner_nodes demo_tree = [None]"
  by (simp_all add: demo_tree_def pushed_def empty_tree_def pad_def grown_depth_def blank_ancs_def anc_def inner_at_def)

lemma demo_tree_keyed: "keyed demo_crypto 1 demo_sec demo_tree"
proof -
  have "node_skip demo_tree (Suc k) q" if "in_tree 1 (Suc k) q" for k q
    using that by (simp add: node_skip_def in_tree_def demo_tree_nodes inner_at_def)
  moreover have "node_pk demo_tree 0 q = share_key demo_crypto (demo_sec 0 q)" if "in_tree 1 0 q" for q
  proof -
    have "q = 0 \<or> q = 1" using that by (auto simp: in_tree_def)
    then show ?thesis by (auto simp: node_pk_def demo_tree_nodes demo_sec_def)
  qed
  ultimately have "keyed_nodes demo_crypto 1 demo_sec demo_tree"
    unfolding keyed_nodes_def by (metis not0_implies_Suc)
  moreover have "bk_current_secret_encrypter_leaf_idx demo_tree = None" by (simp add: demo_tree_def pushed_def)
  ultimately show ?thesis using demo_tree_wf by (auto simp: keyed_def leaf_single_def demo_tree_nodes)
qed

section \<open>Properties\<close>

text \<open>
  C1 Agreement. When a member updates its key in a tree whose secrets are known, the path it
  publishes, applied by any other replica of that tree, gives exactly the updating member's
  tree; in it every member that holds its own leaf secret, and no wrong secret under a key in
  use, decrypts the root secret that the updating member put into its \<open>PcsKey\<close>. The only
  leaf secret that changed is the updating member's.
\<close>

theorem update_agreement:
  assumes C: "crypto_laws C" and K: "keyed C d sec t" and i: "bk_id_to_leaf_idx t mid = Some i"
    and sk: "sks (share_key C sk) = Some sk"
  shows "\<exists>root P t' r' sec'.
    encrypt_path C mid (share_key C sk) sks (t, r) = (Ok (Some (PcsKey root, P)), (t', r')) \<and>
    apply_path P t = Ok t' \<and> keyed C d sec' t' \<and> sec' 0 i = sk \<and> (\<forall>j. j \<noteq> i \<longrightarrow> sec' 0 j = sec 0 j) \<and>
    bk_id_to_leaf_idx t' = bk_id_to_leaf_idx t \<and>
    (\<forall>other j osks. bk_id_to_leaf_idx t other = Some j \<and> osks (share_key C (sec' 0 j)) = Some (sec' 0 j) \<and>
      sound_keys C d sec' t' osks \<and> distinct_keys C d sec' t' \<longrightarrow>
      fst (decrypt_tree_secret C t' other osks) = Ok root)"
proof -
  note shape = keyedD(2) [OF K] and single = keyed_others_single [OF keyedD(3) [OF K], of i]
  obtain S r' where enc: "encrypt_path C mid (share_key C sk) sks (t, r) =
      (Ok (Some (PcsKey (ratchet_n_forward C d sk), updated_path d mid i (share_key C sk) S t)),
       (updated_tree d mid i (share_key C sk) S t, r'))"
    and S: "\<And>m. m < d \<Longrightarrow> path_store_ok C t i 0 sk m (S (Suc m))"
    using encrypt_path_eq [OF C shape single i, of sks sk r] sk by blast
  let ?t = "updated_tree d mid i (share_key C sk) S t" and ?sec = "updated_secrets C i sk sec"
  have S1: "\<exists>v. ss_versions (S m) = [v]" if "m \<in> {1..d}" for m
    using that path_store_single [OF S, of "m - 1"] by (cases m) auto
  have K': "keyed C d ?sec ?t" using S by (intro keyed_updated [OF keyedD(6) [OF K] shape single i])
  have app: "apply_path (updated_path d mid i (share_key C sk) S t) t = Ok ?t"
    using S1 by (rule apply_path_updated [OF keyedD(1) [OF K] i])
  from shape i have lt: "i < 2 ^ d" by (rule bk_shape_id)
  have ids: "bk_id_to_leaf_idx ?t = bk_id_to_leaf_idx t"
    by (simp add: updated_tree_def loop_tree_def with_leaf_def)
  have "path_chained C d ?sec ?t i" by (rule keyedD(5) [OF K']) (simp add: updated_tree_def)
  then have "\<not> node_skip ?t d 0" "?sec d 0 = ratchet_n_forward C d sk"
    using lt by (auto simp: path_chained_def updated_secrets_def)
  then have "fst (decrypt_tree_secret C ?t other osks) = Ok (ratchet_n_forward C d sk)"
    if "bk_id_to_leaf_idx t other = Some j" "osks (share_key C (?sec 0 j)) = Some (?sec 0 j)"
      "sound_keys C d ?sec ?t osks" "distinct_keys C d ?sec ?t" for other j osks
    using decrypt_tree_secret_eq [OF C K' that(4), of other j osks] that ids by auto
  moreover have "?sec 0 i = sk" "\<forall>j. j \<noteq> i \<longrightarrow> ?sec 0 j = sec 0 j" by (simp_all add: updated_secrets_def)
  ultimately show ?thesis using enc app K' ids by blast
qed


theorem update_agreement_witness:
  "\<exists>root P t' r'. encrypt_path demo_crypto (MemberId [0]) (PublicKey [20])
      [PublicKey [20] \<mapsto> ShareSecretKey [20]] (demo_tree, 5) = (Ok (Some (PcsKey root, P)), (t', r')) \<and>
    apply_path P demo_tree = Ok t' \<and>
    fst (decrypt_tree_secret demo_crypto t' (MemberId [1]) [PublicKey [11] \<mapsto> ShareSecretKey [11]]) = Ok root"
proof -
  obtain root P t' r' sec' where *: "encrypt_path demo_crypto (MemberId [0]) (share_key demo_crypto (ShareSecretKey [20]))
      [PublicKey [20] \<mapsto> ShareSecretKey [20]] (demo_tree, 5) = (Ok (Some (PcsKey root, P)), (t', r'))"
    "apply_path P demo_tree = Ok t'" "\<forall>j. j \<noteq> 0 \<longrightarrow> sec' 0 j = demo_sec 0 j"
    "\<forall>other j osks. bk_id_to_leaf_idx demo_tree other = Some j \<and>
      osks (share_key demo_crypto (sec' 0 j)) = Some (sec' 0 j) \<and> sound_keys demo_crypto 1 sec' t' osks \<and>
      distinct_keys demo_crypto 1 sec' t' \<longrightarrow> fst (decrypt_tree_secret demo_crypto t' other osks) = Ok root"
    using update_agreement [OF demo_crypto_laws demo_tree_keyed, of "MemberId [0]" 0
        "[PublicKey [20] \<mapsto> ShareSecretKey [20]]" "ShareSecretKey [20]" 5] by (auto simp: demo_tree_ids)
  have "sec' 0 1 = ShareSecretKey [11]" using *(3) by (simp add: demo_sec_def)
  then have "fst (decrypt_tree_secret demo_crypto t' (MemberId [1]) [PublicKey [11] \<mapsto> ShareSecretKey [11]]) = Ok root"
    using demo_sound_keys [of 1 sec' t' "ShareSecretKey [11]"] demo_distinct_keys [of 1 sec' t']
      *(4) [rule_format, of "MemberId [1]" 1 "[PublicKey [11] \<mapsto> ShareSecretKey [11]]"] by (simp add: demo_tree_ids)
  then show ?thesis using *(1,2) by auto
qed

end
