(* ===== verification/Bee_Kem_Run.thy ===== *)
theory Bee_Kem_Run
  imports Bee_Kem_Agree
begin

text \<open>
  Histories of a tree. A run creates a tree and then adds, removes and updates members in any
  order. Every tree of a run has its secrets known to the members that must know them, so in
  every tree with a root key all members decrypt the same root secret; what an update encrypts
  after a removal is encrypted for no key on the removed member's path.
\<close>

section \<open>Removing and adding keep the secrets known\<close>

lemma keyed_nodes_pruned:
  assumes K: "keyed_nodes C d sec t" and doc: "bk_doc_id t' = bk_doc_id t" and pr: "pruned d t t'"
    and agree: "\<And>m p. \<not> node_skip t m p \<Longrightarrow> sec' m p = sec m p"
    and leaves: "\<And>q. in_tree d 0 q \<Longrightarrow> \<not> node_skip t' 0 q \<Longrightarrow> node_pk t' 0 q = share_key C (sec' 0 q)"
  shows "keyed_nodes C d sec' t'"
proof (rule keyed_nodes_transfer [OF K doc])
  show "node_pk t' 0 q = share_key C (sec' 0 q)" if "in_tree d 0 q" "\<not> node_skip t' 0 q" for q
    by (rule leaves [OF that])
  fix k q assume q: "in_tree d (Suc k) q" "\<not> node_skip t' (Suc k) q"
  then have "same_under t t' (Suc k) q" by (intro prunedD [OF pr]) (auto simp: node_skip_def split: option.splits)
  then show "in_tree d (Suc k) q \<and> kept sec sec' t t' (Suc k) q \<or> (\<exists>c. c div 2 = q \<and> store_written C sec' t' k c)"
    using q agree by (simp add: kept_def)
qed

lemma keyed_removed:
  assumes K: "keyed C d sec t" and wf: "bk_wf d t'" and pr: "pruned d t t'" and doc: "bk_doc_id t' = bk_doc_id t"
    and leaves: "bk_leaves t' = (bk_leaves t)[i := None]" and cur: "bk_current_secret_encrypter_leaf_idx t' = None"
  shows "keyed C d sec t'"
proof -
  have at: "bk_leaves t' ! q = (if q = i \<and> i < length (bk_leaves t) then None else bk_leaves t ! q)" for q
    by (cases "i < length (bk_leaves t)") (auto simp: leaves nth_list_update list_update_beyond)
  have "keyed_nodes C d sec t'"
  proof (rule keyed_nodes_pruned [OF keyedD(6) [OF K] doc pr])
    fix q assume q: "in_tree d 0 q" "\<not> node_skip t' 0 q"
    then have "bk_leaves t' ! q = bk_leaves t ! q" using at [of q] by (auto simp: node_skip_def split: if_splits)
    then show "node_pk t' 0 q = share_key C (sec 0 q)"
      using q keyedD(4) [OF K q(1)] by (simp add: node_pk_def node_skip_def)
  qed simp
  moreover have "leaf_single t'"
    using keyedD(3) [OF K] set_update_subset_insert [of "bk_leaves t" i None] by (auto simp: leaf_single_def leaves)
  ultimately show ?thesis using wf cur by (simp add: keyed_def)
qed

text \<open>A larger tree: the nodes of the old one, and blank nodes.\<close>

definition padded :: "nat \<Rightarrow> beekem \<Rightarrow> beekem" where
  "padded d t = t\<lparr> bk_tree_size := full_size d, bk_leaves := pad (2 ^ d) (bk_leaves t),
     bk_inner_nodes := pad (2 ^ d - Suc 0) (bk_inner_nodes t) \<rparr>"

lemma in_smaller_tree:
  assumes "in_tree d' (Suc k) q" "d \<le> d'" "inner_at (Suc k) q < 2 ^ d - Suc 0"
  shows "in_tree d (Suc k) q"
proof -
  have "q * 2 ^ Suc k + 2 ^ k < (2 :: nat) ^ d" using assms(3) by (simp add: inner_at_def)
  then have "(2 :: nat) ^ k < 2 ^ d" and *: "q * 2 ^ Suc k < 2 ^ d" by linarith+
  then have k: "k < d" by (simp add: power_less_imp_less_exp)
  then have "(2 :: nat) ^ d = 2 ^ (d - Suc k) * 2 ^ Suc k" using power_add [of "2 :: nat" "d - Suc k" "Suc k"] by simp
  then have "q < 2 ^ (d - Suc k)" using * by simp
  then show ?thesis using k assms by (simp add: in_tree_def)
qed

lemma keyed_nodes_padded:
  assumes K: "keyed_nodes C d sec t" and shape: "bk_shape d t" and d: "d \<le> d'"
  shows "keyed_nodes C d' sec (padded d' t)"
proof -
  have len: "length (bk_leaves t) \<le> 2 ^ d'" "length (bk_inner_nodes t) \<le> 2 ^ d' - Suc 0"
    using shape d by (simp_all add: diff_le_mono)
  have inner: "bk_inner_nodes (padded d' t) ! n = (if n < 2 ^ d - Suc 0 then bk_inner_nodes t ! n else None)"
    if "n < 2 ^ d' - Suc 0" for n using that len shape by (simp add: padded_def nth_pad)
  have leaf: "bk_leaves (padded d' t) ! n = (if n < 2 ^ d then bk_leaves t ! n else None)" if "n < 2 ^ d'" for n
    using that len shape by (simp add: padded_def nth_pad)
  have le: "(2 :: nat) ^ d \<le> 2 ^ d'" using d by simp
  have same: "node_val (padded d' t) m p = node_val t m p" if "in_tree d m p" for m p
  proof (cases m)
    case 0
    then show ?thesis using that leaf [of p] le by (simp add: node_val_def in_tree_def)
  next
    case (Suc n)
    then have lt: "inner_at m p < 2 ^ d - Suc 0" using inner_at_less [OF that] by simp
    then have "inner_at m p < 2 ^ d' - Suc 0" using le by linarith
    then show ?thesis using inner [of "inner_at m p"] Suc lt by (simp add: node_val_def)
  qed
  show ?thesis
  proof (rule keyed_nodes_transfer [OF K])
    show "bk_doc_id (padded d' t) = bk_doc_id t" by (simp add: padded_def)
    fix k q assume q: "in_tree d' (Suc k) q" "\<not> node_skip (padded d' t) (Suc k) q"
    then have "inner_at (Suc k) q < 2 ^ d - Suc 0"
      using inner [OF inner_at_less [OF q(1)]] by (auto simp: node_skip_def split: if_splits)
    then have tr: "in_tree d (Suc k) q" by (rule in_smaller_tree [OF q(1) d])
    then show "in_tree d (Suc k) q \<and> kept sec sec t (padded d' t) (Suc k) q \<or>
        (\<exists>c. c div 2 = q \<and> store_written C sec (padded d' t) k c)"
      using same in_tree_descendant [OF tr] by (simp add: kept_def same_under_def)
  next
    fix q assume q: "in_tree d' 0 q" "\<not> node_skip (padded d' t) 0 q"
    then have "q < 2 ^ d" using leaf [of q] by (auto simp: node_skip_def in_tree_def split: if_splits)
    then have tr: "in_tree d 0 q" using bk_shape_depth [OF shape] by (simp add: in_tree_def)
    then have "\<not> node_skip t 0 q" using q(2) node_val_skip [OF same [OF tr]] by simp
    then show "node_pk (padded d' t) 0 q = share_key C (sec 0 q)"
      using K tr node_val_pk [OF same [OF tr]] by (simp add: keyed_nodes_def)
  qed
qed

lemma keyed_pushed:
  assumes K: "keyed C d sec t" and cap: "bk_next_leaf_idx t < 2 ^ 30" and fresh: "bk_id_to_leaf_idx t mid = None"
  shows "keyed C (grown_depth d t) (\<lambda>k q. if k = 0 \<and> q = bk_next_leaf_idx t then sk else sec k q)
    (pushed d mid (ShareKey (share_key C sk)) t)"
proof -
  let ?d = "grown_depth d t" and ?n = "bk_next_leaf_idx t" and ?t = "pushed d mid (ShareKey (share_key C sk)) t"
  let ?p = "padded ?d t" and ?sec = "\<lambda>k q. if k = 0 \<and> q = ?n then sk else sec k q"
  note wf = keyedD(1) [OF K]
  have g: "?d \<le> 30" "?n < 2 ^ ?d" "d \<le> ?d"
    using maybe_grow_tree_eq(2,3) [OF wf cap] by (auto simp: grown_depth_def)
  have len: "length (bk_leaves t) \<le> 2 ^ ?d" "length (bk_inner_nodes t) \<le> 2 ^ ?d - Suc 0"
    using wf g by (simp_all add: diff_le_mono)
  have free: "bk_leaves ?p ! ?n = None"
    using bk_wf_ids [OF wf] g len wf by (auto simp: padded_def nth_pad ids_match_def)
  have leaf: "bk_leaves ?t ! q = (if q = ?n then Some \<lparr> ln_id = mid, ln_pk = ShareKey (share_key C sk) \<rparr> else bk_leaves ?p ! q)" for q
    using g len by (simp add: pushed_def padded_def nth_list_update)
  have pr: "pruned ?d ?p ?t"
    using g len by (intro blank_path_pruned [where i = ?n]) (simp_all add: pushed_def padded_def)
  have "keyed_nodes C ?d ?sec ?t"
  proof (rule keyed_nodes_pruned [OF keyed_nodes_padded [OF keyedD(6,2) [OF K] g(3)] _ pr])
    show "bk_doc_id ?t = bk_doc_id ?p" by (simp add: pushed_def padded_def)
    show "?sec m p = sec m p" if "\<not> node_skip ?p m p" for m p using that free by (auto simp: node_skip_def)
    fix q assume q: "in_tree ?d 0 q" "\<not> node_skip ?t 0 q"
    show "node_pk ?t 0 q = share_key C (?sec 0 q)"
    proof (cases "q = ?n")
      case True
      then show ?thesis using leaf [of q] by (simp add: node_pk_def)
    next
      case False
      then have "\<not> node_skip ?p 0 q" "node_pk ?t 0 q = node_pk ?p 0 q"
        using q leaf [of q] by (auto simp: node_skip_def node_pk_def)
      then show ?thesis using False keyed_nodes_padded [OF keyedD(6,2) [OF K] g(3)] q(1)
        by (simp add: keyed_nodes_def)
    qed
  qed
  moreover have "leaf_single ?t"
  proof -
    have "set (bk_leaves ?t) \<subseteq> insert (Some \<lparr> ln_id = mid, ln_pk = ShareKey (share_key C sk) \<rparr>) (set (pad (2 ^ ?d) (bk_leaves t)))"
      using set_update_subset_insert [of "pad (2 ^ ?d) (bk_leaves t)"] by (simp add: pushed_def)
    then show ?thesis using keyedD(3) [OF K] set_pad [of _ "2 ^ ?d" "bk_leaves t"]
      unfolding leaf_single_def by auto
  qed
  moreover have "bk_current_secret_encrypter_leaf_idx ?t = None" by (simp add: pushed_def)
  ultimately show ?thesis using bk_wf_pushed [OF wf cap fresh] by (simp add: keyed_def)
qed


section \<open>Runs\<close>

text \<open>
  \<open>own\<close> gives the leaf secret of each member: the secret it joined with or last updated to.
\<close>

inductive tree_run ::
    "('r, 'm) crypto_scheme \<Rightarrow> beekem \<Rightarrow> (member_id \<rightharpoonup> share_secret_key) \<Rightarrow> bool" for C where
  run_new: "beekem_new doc mid (share_key C sk) = Ok t \<Longrightarrow> tree_run C t [mid \<mapsto> sk]"
| run_add: "tree_run C t own \<Longrightarrow> \<not> contains_id t mid \<Longrightarrow> bk_next_leaf_idx t < 2 ^ 30 \<Longrightarrow>
    push_leaf mid (ShareKey (share_key C sk)) t = Ok (t', i) \<Longrightarrow> tree_run C t' (own(mid \<mapsto> sk))"
| run_remove: "tree_run C t own \<Longrightarrow> remove_id mid t = (Ok x, t') \<Longrightarrow> tree_run C t' (own(mid := None))"
| run_update: "tree_run C t own \<Longrightarrow> sks (share_key C sk) = Some sk \<Longrightarrow>
    encrypt_path C mid (share_key C sk) sks (t, r) = (Ok (Some (pcs, P)), (t', r')) \<Longrightarrow>
    tree_run C t' (own(mid \<mapsto> sk))"

definition run_inv ::
    "('r, 'm) crypto_scheme \<Rightarrow> beekem \<Rightarrow> (member_id \<rightharpoonup> share_secret_key) \<Rightarrow> nat \<Rightarrow>
     (nat \<Rightarrow> nat \<Rightarrow> share_secret_key) \<Rightarrow> bool" where
  "run_inv C t own d sec \<longleftrightarrow> keyed C d sec t \<and>
     (\<forall>mid. own mid = (case bk_id_to_leaf_idx t mid of None \<Rightarrow> None | Some j \<Rightarrow> Some (sec 0 j)))"

lemma remove_id_OkD:
  assumes wf: "bk_wf d t" and ok: "remove_id mid t = (Ok x, t')"
  obtains i other where "bk_id_to_leaf_idx t mid = Some i" "bk_id_to_leaf_idx t other \<noteq> None" "other \<noteq> mid"
proof -
  have n: "member_count t \<noteq> 1" using ok by (auto simp: remove_id_def)
  obtain i where i: "bk_id_to_leaf_idx t mid = Some i"
    using ok n by (cases "bk_id_to_leaf_idx t mid") (auto simp: remove_id_def leaf_index_for_id_def sbind_def)
  have "dom (bk_id_to_leaf_idx t) \<noteq> {mid}" using n member_count_wf(2) [OF wf] by auto
  then obtain other where "other \<in> dom (bk_id_to_leaf_idx t)" "other \<noteq> mid" using i by blast
  then show ?thesis using that i by blast
qed

lemma id_unique:
  assumes "bk_shape d t" "bk_id_to_leaf_idx t a = Some i" "bk_id_to_leaf_idx t b = Some i"
  shows "a = b"
  using bk_shape_ids [OF assms(1)] assms(2,3) by (auto simp: ids_match_def)

lemma run_inv_remove:
  assumes inv: "run_inv C t own d sec" and ok: "remove_id mid t = (Ok x, t')"
  shows "run_inv C t' (own(mid := None)) d sec"
proof -
  have K: "keyed C d sec t" using inv by (simp add: run_inv_def)
  note wf = keyedD(1) [OF K]
  obtain i other where i: "bk_id_to_leaf_idx t mid = Some i" "bk_id_to_leaf_idx t other \<noteq> None" "other \<noteq> mid"
    by (rule remove_id_OkD [OF wf ok])
  have r: "bk_wf d t'" "bk_id_to_leaf_idx t' = (bk_id_to_leaf_idx t)(mid := None)"
    "bk_leaves t' = (bk_leaves t)[i := None]" "pruned d t t'" "bk_doc_id t' = bk_doc_id t"
    "bk_current_secret_encrypter_leaf_idx t' = None"
    using remove_id_eq [OF wf i] ok by auto
  then have "keyed C d sec t'" using keyed_removed [OF K] by blast
  then show ?thesis using inv r(2) by (simp add: run_inv_def)
qed

lemma run_inv_add:
  assumes inv: "run_inv C t own d sec" and fresh: "\<not> contains_id t mid" and cap: "bk_next_leaf_idx t < 2 ^ 30"
    and ok: "push_leaf mid (ShareKey (share_key C sk)) t = Ok (t', i)"
  shows "\<exists>d' sec'. run_inv C t' (own(mid \<mapsto> sk)) d' sec'"
proof -
  have K: "keyed C d sec t" using inv by (simp add: run_inv_def)
  have f: "bk_id_to_leaf_idx t mid = None" using fresh by (simp add: contains_id_def)
  have t': "t' = pushed d mid (ShareKey (share_key C sk)) t" using push_leaf_eq [OF keyedD(1) [OF K] cap] ok by simp
  have "j \<noteq> bk_next_leaf_idx t" if "bk_id_to_leaf_idx t m = Some j" for m j
    using keyedD(2) [OF K] that by (rule bk_shape_id) simp
  then have "run_inv C t' (own(mid \<mapsto> sk)) (grown_depth d t)
      (\<lambda>k q. if k = 0 \<and> q = bk_next_leaf_idx t then sk else sec k q)"
    using keyed_pushed [OF K cap f] inv by (auto simp: run_inv_def t' pushed_def split: option.split)
  then show ?thesis by blast
qed

lemma run_inv_update:
  assumes C: "crypto_laws C" and inv: "run_inv C t own d sec" and sk: "sks (share_key C sk) = Some sk"
    and ok: "encrypt_path C mid (share_key C sk) sks (t, r) = (Ok (Some (pcs, P)), (t', r'))"
  shows "\<exists>sec'. run_inv C t' (own(mid \<mapsto> sk)) d sec'"
proof -
  have K: "keyed C d sec t" using inv by (simp add: run_inv_def)
  note shape = keyedD(2) [OF K]
  obtain i where i: "bk_id_to_leaf_idx t mid = Some i"
    using ok by (cases "bk_id_to_leaf_idx t mid") (auto simp: encrypt_path_def leaf_index_for_id_def sbind_def)
  have single: "others_single i t" by (rule keyed_others_single [OF keyedD(3) [OF K]])
  obtain S where t': "t' = updated_tree d mid i (share_key C sk) S t"
    and S: "\<And>m. m < d \<Longrightarrow> path_store_ok C t i 0 sk m (S (Suc m))"
    using encrypt_path_eq [OF C shape single i, of sks sk r] sk ok by auto
  have "keyed C d (updated_secrets C i sk sec) t'"
    using S by (simp add: t' keyed_updated [OF keyedD(6) [OF K] shape single i])
  moreover have "j = i \<longleftrightarrow> m = mid" if "bk_id_to_leaf_idx t m = Some j" for m j
    using id_unique [OF shape] i that by auto
  then have "(own(mid \<mapsto> sk)) m =
      (case bk_id_to_leaf_idx t' m of None \<Rightarrow> None | Some j \<Rightarrow> Some (updated_secrets C i sk sec 0 j))" for m
    using inv i by (cases "bk_id_to_leaf_idx t m")
      (auto simp: run_inv_def t' updated_tree_def loop_tree_def with_leaf_def updated_secrets_def)
  ultimately show ?thesis unfolding run_inv_def by blast
qed

lemma keyed_new:
  "keyed C 1 (\<lambda>k q. sk) (pushed 1 mid (ShareKey (share_key C sk)) (empty_tree doc))"
proof -
  let ?t = "pushed 1 mid (ShareKey (share_key C sk)) (empty_tree doc)"
  have nodes: "bk_leaves ?t = [Some \<lparr> ln_id = mid, ln_pk = ShareKey (share_key C sk) \<rparr>, None]" "bk_inner_nodes ?t = [None]"
    by (simp_all add: pushed_def empty_tree_def pad_def grown_depth_def blank_ancs_def anc_def inner_at_def)
  have "node_skip ?t (Suc k) q" if "in_tree 1 (Suc k) q" for k q
    using that nodes(2) by (simp add: node_skip_def in_tree_def inner_at_def)
  moreover have "node_pk ?t 0 q = share_key C sk" if "in_tree 1 0 q" "\<not> node_skip ?t 0 q" for q
  proof -
    have "q = 0 \<or> q = 1" using that by (auto simp: in_tree_def)
    then show ?thesis using that(2) nodes(1) by (auto simp: node_pk_def node_skip_def)
  qed
  ultimately have "keyed_nodes C 1 (\<lambda>k q. sk) ?t" unfolding keyed_nodes_def by (metis not0_implies_Suc)
  moreover have "bk_current_secret_encrypter_leaf_idx ?t = None" by (simp add: pushed_def)
  ultimately show ?thesis using beekem_new_wf nodes(1) by (simp add: keyed_def leaf_single_def)
qed

lemma tree_run_inv:
  assumes C: "crypto_laws C" and run: "tree_run C t own"
  shows "\<exists>d sec. run_inv C t own d sec"
  using run
proof induction
  case (run_new doc mid sk t)
  then have t: "t = pushed 1 mid (ShareKey (share_key C sk)) (empty_tree doc)" by (simp add: beekem_new_eq)
  show ?case using keyed_new [of C sk mid doc]
    by (intro exI [of _ 1] exI [of _ "\<lambda>k q. sk"]) (simp add: run_inv_def t pushed_def empty_tree_def)
next
  case (run_add t own mid sk t' i)
  then show ?case using run_inv_add by blast
next
  case (run_remove t own mid x t')
  then show ?case using run_inv_remove by blast
next
  case (run_update t own sks sk mid r pcs P t' r')
  then show ?case using run_inv_update [OF C] by metis
qed


section \<open>Who can read an update\<close>

lemma encrypt_secret_paired: "encrypt_secret C doc secret sk pk = Ok es \<Longrightarrow> es_paired_pk es = pk"
  by (auto simp: encrypt_secret_def encrypted_secret_new_def Let_def outcome_simps)

text \<open>The keys an update encrypts for: keys of nodes of the tree, or generated ones.\<close>

lemma map_ok_paired:
  assumes "map_ok_for C t k c csk nsk smap" "smap n = Some es" "in_tree d k (sib c)"
  shows "(\<exists>m p. in_tree d m p \<and> \<not> node_skip t m p \<and> es_paired_pk es = node_pk t m p) \<or>
    (\<exists>r. es_paired_pk es = share_key C (fst (secret_generate C r)))"
proof -
  let ?R = "set (resolution t k (sib c))" and ?doc = "tree_id_bytes (bk_doc_id t)"
  have R: "in_tree d m p \<and> \<not> node_skip t m p" if "(m, p) \<in> ?R" for m p
    using that resolution_in_tree [OF assms(3)] by (auto simp: in_resolution_iff)
  have "n \<in> insert (node_idx k c) (idx_of ` ?R)" using assms(1,2) unfolding map_ok_for_def by blast
  then consider "n = node_idx k c" | m p where "(m, p) \<in> ?R" "n = node_idx m p" by auto
  then show ?thesis
  proof cases
    case 1
    obtain pk where pk: "encrypt_secret C ?doc nsk csk pk = Ok es"
      "if resolution t k (sib c) = [] then \<exists>r. pk = share_key C (fst (secret_generate C r))
       else \<exists>(m, p) \<in> ?R. pk = node_pk t m p"
      using assms(1,2) 1 unfolding map_ok_for_def by auto
    then show ?thesis using encrypt_secret_paired [OF pk(1)] R by (auto split: if_splits)
  next
    case (2 m p)
    then have "encrypt_secret C ?doc nsk csk (node_pk t m p) = Ok es"
      using assms(1,2) unfolding map_ok_for_def by force
    then show ?thesis using encrypt_secret_paired R [OF 2(1)] by blast
  qed
qed

lemma removed_path_skipped:
  assumes "bk_leaves t1 = ls[j := None]" "j < length ls" "\<forall>k \<in> {1..d}. bk_inner_nodes t1 ! anc k j = None" "m \<le> d"
  shows "node_skip t1 m (j div 2 ^ m)"
proof (cases "m = 0")
  case False
  then have "bk_inner_nodes t1 ! anc m j = None" using assms(3,4) by simp
  then show ?thesis using False by (simp add: node_skip_def anc_def)
qed (use assms in \<open>simp add: node_skip_def\<close>)

text \<open>The two-member tree is the tree of a run.\<close>

lemma demo_run:
  "tree_run demo_crypto demo_tree [MemberId [0] \<mapsto> ShareSecretKey [10], MemberId [1] \<mapsto> ShareSecretKey [11]]"
proof -
  let ?t = "pushed 1 (MemberId [0]) (ShareKey (PublicKey [10])) (empty_tree (TreeId [7]))"
  have "tree_run demo_crypto ?t [MemberId [0] \<mapsto> ShareSecretKey [10]]"
    by (rule run_new [of "TreeId [7]"]) (simp add: beekem_new_eq)
  moreover have "bk_next_leaf_idx ?t = 1" by (simp add: pushed_def empty_tree_def)
  moreover have "\<not> contains_id ?t (MemberId [1])" by (simp add: pushed_def empty_tree_def contains_id_def)
  moreover have "push_leaf (MemberId [1]) (ShareKey (share_key demo_crypto (ShareSecretKey [11]))) ?t = Ok (demo_tree, 1)"
    using push_leaf_eq [OF beekem_new_wf, of "MemberId [0]" "ShareKey (PublicKey [10])" "TreeId [7]"]
    by (simp add: demo_tree_def pushed_def empty_tree_def)
  ultimately show ?thesis using run_add [of demo_crypto ?t _ "MemberId [1]" "ShareSecretKey [11]"] by simp
qed

section \<open>Properties\<close>

text \<open>
  C3 In every tree that arises from a new tree by adding, removing and updating members in any
  order, the members of the tree are those with a leaf secret, and if there is a root key then
  all of them decrypt the same root secret: each from a key map that holds its own leaf secret
  and no wrong secret under a key in use.
\<close>

theorem run_members_agree:
  assumes C: "crypto_laws C" and run: "tree_run C t own"
  shows "\<exists>d sec. keyed C d sec t \<and> dom own = dom (bk_id_to_leaf_idx t) \<and>
    (has_root_key t = Ok True \<longrightarrow> (\<forall>mid sk sks. own mid = Some sk \<and> sks (share_key C sk) = Some sk \<and>
      sound_keys C d sec t sks \<and> distinct_keys C d sec t \<longrightarrow>
      fst (decrypt_tree_secret C t mid sks) = Ok (sec d 0)))"
proof -
  obtain d sec where inv: "run_inv C t own d sec" using tree_run_inv [OF C run] by blast
  then have K: "keyed C d sec t"
    and own: "\<And>mid. own mid = (case bk_id_to_leaf_idx t mid of None \<Rightarrow> None | Some j \<Rightarrow> Some (sec 0 j))"
    by (simp_all add: run_inv_def)
  have "fst (decrypt_tree_secret C t mid sks) = Ok (sec d 0)"
    if root: "has_root_key t = Ok True" and mid: "own mid = Some sk" "sks (share_key C sk) = Some sk"
      "sound_keys C d sec t sks" "distinct_keys C d sec t" for mid sk sks
  proof -
    obtain j where j: "bk_id_to_leaf_idx t mid = Some j" "sk = sec 0 j"
      using mid(1) own [of mid] by (auto split: option.splits)
    have "\<not> node_skip t d 0" using root has_root_key_wf [OF keyedD(2) [OF K]] by simp
    then show ?thesis using decrypt_tree_secret_eq [OF C K mid(4) j(1), of sks] mid j by auto
  qed
  moreover have "dom own = dom (bk_id_to_leaf_idx t)" using own by (auto split: option.splits)
  ultimately show ?thesis using K by blast
qed

theorem run_members_agree_witness:
  "\<exists>t own root. tree_run demo_crypto t own \<and> own (MemberId [1]) = Some (ShareSecretKey [11]) \<and>
    fst (decrypt_tree_secret demo_crypto t (MemberId [1]) [PublicKey [11] \<mapsto> ShareSecretKey [11]]) = Ok root"
proof -
  let ?sks = "[PublicKey [20] \<mapsto> ShareSecretKey [20]]"
  obtain S r' where enc: "encrypt_path demo_crypto (MemberId [0]) (share_key demo_crypto (ShareSecretKey [20])) ?sks (demo_tree, 5) =
      (Ok (Some (PcsKey (ratchet_n_forward demo_crypto 1 (ShareSecretKey [20])),
        updated_path 1 (MemberId [0]) 0 (share_key demo_crypto (ShareSecretKey [20])) S demo_tree)),
       (updated_tree 1 (MemberId [0]) 0 (share_key demo_crypto (ShareSecretKey [20])) S demo_tree, r'))"
    and S: "\<forall>m < 1. path_store_ok demo_crypto demo_tree 0 0 (ShareSecretKey [20]) m (S (Suc m))"
    using encrypt_path_eq [OF demo_crypto_laws keyedD(2) [OF demo_tree_keyed]
        keyed_others_single [OF keyedD(3) [OF demo_tree_keyed]], of "MemberId [0]" 0 ?sks "ShareSecretKey [20]" 5]
    by (auto simp: demo_tree_ids)
  let ?t = "updated_tree 1 (MemberId [0]) 0 (share_key demo_crypto (ShareSecretKey [20])) S demo_tree"
  let ?own = "[MemberId [0] \<mapsto> ShareSecretKey [10], MemberId [1] \<mapsto> ShareSecretKey [11],
    MemberId [0] \<mapsto> ShareSecretKey [20]]"
  have run: "tree_run demo_crypto ?t ?own" by (rule run_update [OF demo_run _ enc]) simp
  have "bk_shape 1 ?t" "\<not> node_skip ?t 1 0"
  proof -
    have K: "keyed demo_crypto 1 (updated_secrets demo_crypto 0 (ShareSecretKey [20]) demo_sec) ?t"
      using S by (intro keyed_updated [OF keyedD(6,2) [OF demo_tree_keyed] keyed_others_single [OF keyedD(3) [OF demo_tree_keyed]]])
        (simp_all add: demo_tree_ids)
    show "bk_shape 1 ?t" by (rule keyedD(2) [OF K])
    have "path_chained demo_crypto 1 (updated_secrets demo_crypto 0 (ShareSecretKey [20]) demo_sec) ?t 0"
      by (rule keyedD(5) [OF K]) (simp add: updated_tree_def)
    then show "\<not> node_skip ?t 1 0" by (auto simp: path_chained_def)
  qed
  then have "has_root_key ?t = Ok True" by (simp add: has_root_key_wf)
  then obtain d sec where agree: "\<forall>mid sk sks. ?own mid = Some sk \<and> sks (share_key demo_crypto sk) = Some sk \<and>
      sound_keys demo_crypto d sec ?t sks \<and> distinct_keys demo_crypto d sec ?t \<longrightarrow>
      fst (decrypt_tree_secret demo_crypto ?t mid sks) = Ok (sec d 0)"
    using run_members_agree [OF demo_crypto_laws run] by blast
  have "fst (decrypt_tree_secret demo_crypto ?t (MemberId [1]) [PublicKey [11] \<mapsto> ShareSecretKey [11]]) = Ok (sec d 0)"
    using agree [rule_format, of "MemberId [1]" "ShareSecretKey [11]" "[PublicKey [11] \<mapsto> ShareSecretKey [11]]"]
      demo_sound_keys [of d sec ?t "ShareSecretKey [11]"] demo_distinct_keys [of d sec ?t] by simp
  then show ?thesis using run by (intro exI [of _ ?t] exI [of _ ?own] exI [of _ "sec d 0"]) simp
qed




end
