(* ===== verification/Bee_Kem_Own.thy ===== *)
theory Bee_Kem_Own
  imports Bee_Kem_Run
begin

text \<open>
  The tree of the member that makes an update and the tree of a replica that applies the path it
  publishes are the same whenever \<open>encrypt_path\<close> succeeds, without any assumption on the keys in
  the tree. The replay of the operation graph relies on this.
\<close>

lemma new_store_single:
  assumes "encrypt_new_secret_store_for_parent C u child cpk csk npk nsk r = (Ok s, r')"
  shows "\<exists>v. ss_versions s = [v]"
  using assms unfolding encrypt_new_secret_store_for_parent_def
  by (auto simp: outcome_simps split: if_splits prod.splits)

lemma encrypt_key_for_parent_OkD:
  assumes "encrypt_key_for_parent C child cpk csk npk nsk (u, r) = (Ok x, (u', r'))"
  obtains s where "u' = u\<lparr> bk_inner_nodes := (bk_inner_nodes u)[parent child := Some s] \<rparr>"
    "parent child < length (bk_inner_nodes u)" "\<exists>v. ss_versions s = [v]"
  using assms new_store_single unfolding encrypt_key_for_parent_def
  by (fastforce simp: outcome_simps insert_inner_node_at_def vec_set_def split: if_splits prod.splits)

lemma encrypt_path_loop_OkD:
  assumes i: "i < 2 ^ d" and "bk_shape d u" "k \<le> d" "k < d \<longrightarrow> pidx = anc (Suc k) i"
    and "encrypt_path_loop fuel C (node_idx k (i div 2 ^ k)) pk sk pidx np (u, r) = (Ok (x, np'), (u', r'))"
  shows "\<exists>S. np' = loop_path d i u k S np \<and> u' = loop_tree d i k S u \<and> (\<forall>m \<in> {Suc k..d}. \<exists>v. ss_versions (S m) = [v])"
  using assms(2-)
proof (induction "d - k" arbitrary: k u pk sk pidx np r fuel)
  case 0
  then have k: "k = d" by simp
  have "in_tree d d (i div 2 ^ d)" using i bk_shape_depth [OF 0(2)] by (simp add: in_tree_def)
  then have "np' = np" "u' = u"
    using 0(5) is_root_idx [OF 0(2)] unfolding k by (subst (asm) encrypt_path_loop.simps, simp)+
  then show ?case unfolding k loop_path_def loop_tree_def by auto
next
  case (Suc l)
  note shape = Suc.prems(1)
  have k: "k < d" using Suc by simp
  have d: "0 < d" "d \<le> 30" using bk_shape_depth [OF shape] by simp_all
  have pidx: "pidx = anc (Suc k) i" using Suc k by simp
  have tr: "in_tree d k (i div 2 ^ k)" using in_tree_anc [of d i k] d i k by simp
  have lt: "anc (Suc k) i < 2 ^ d - Suc 0" using anc_less [of d i "Suc k"] d i k by simp
  have par: "parent (node_idx k (i div 2 ^ k)) = anc (Suc k) i" using parent_idx [OF tr k] by (simp add: anc_def div_pow_Suc)
  have keys: "and_then (inner_node u (anc (Suc k) i)) (\<lambda>x. case x of
      Some store \<Rightarrow> map_ok node_key_keys (store_node_key store) | None \<Rightarrow> Ok []) = Ok (node_keys_at u (anc (Suc k) i))"
    using store_keys_wf [OF shape lt, of "\<lambda>x. x"] by simp
  have root: "\<not> is_root u (node_idx k (i div 2 ^ k))" using is_root_idx [OF shape tr] k by simp
  let ?nsk = "ratchet_forward C sk" and ?nd = "node_idx k (i div 2 ^ k)"
  let ?np = "\<lambda>s. np\<lparr> pc_path := pc_path np @ [(anc (Suc k) i, s)],
    pc_removed_keys := pc_removed_keys np @ node_keys_at u (anc (Suc k) i) \<rparr>"
  obtain n where n: "fuel = Suc n" using Suc.prems(4) root by (cases fuel) (simp_all add: encrypt_path_loop.simps [of 0])
  have step: "encrypt_path_loop fuel C ?nd pk sk pidx np (u, r) =
      sbind (encrypt_key_for_parent C ?nd pk sk (share_key C ?nsk) ?nsk) (\<lambda>_. sbind get_st (\<lambda>(t', _).
      sbind (lift_st (and_then (inner_node t' (anc (Suc k) i)) expect)) (\<lambda>s.
      encrypt_path_loop n C (Inner (anc (Suc k) i)) (share_key C ?nsk) ?nsk (parent (Inner (anc (Suc k) i))) (?np s)))) (u, r)"
    using root keys by (subst encrypt_path_loop.simps) (simp add: n pidx Let_def)
  obtain y u1 r1 s' where key: "encrypt_key_for_parent C ?nd pk sk (share_key C ?nsk) ?nsk (u, r) = (Ok y, (u1, r1))"
    and s': "and_then (inner_node u1 (anc (Suc k) i)) expect = (Ok s' :: secret_store cgka_result)"
    and run': "encrypt_path_loop n C (Inner (anc (Suc k) i)) (share_key C ?nsk) ?nsk (parent (Inner (anc (Suc k) i))) (?np s') (u1, r1) =
      (Ok (x, np'), (u', r'))"
    using Suc.prems(4) unfolding step sbind_eq_Ok by (auto simp: sbind_eq_Ok)
  obtain s where u1: "u1 = u\<lparr> bk_inner_nodes := (bk_inner_nodes u)[anc (Suc k) i := Some s] \<rparr>" "\<exists>v. ss_versions s = [v]"
    using key par by (metis encrypt_key_for_parent_OkD)
  have "s' = s" using s' lt shape by (simp add: u1(1) inner_node_def)
  note run = run' [unfolded this]
  have shape1: "bk_shape d u1"
    unfolding u1(1) using shape bk_shape_stores [OF shape] u1(2)
    by (intro bk_shape_write) (auto dest: set_update_subset_insert [THEN subsetD])
  have up: "Suc k < d \<longrightarrow> parent (Inner (anc (Suc k) i)) = anc (Suc (Suc k)) i"
    using parent_anc [of d i "Suc k"] d i by simp
  have idx: "Inner (anc (Suc k) i) = node_idx (Suc k) (i div 2 ^ Suc k)" by (simp add: anc_def)
  have "l = d - Suc k" "Suc k \<le> d" using Suc.hyps(2) k by simp_all
  then obtain S where S: "np' = loop_path d i u1 (Suc k) S (np\<lparr> pc_path := pc_path np @ [(anc (Suc k) i, s)],
      pc_removed_keys := pc_removed_keys np @ node_keys_at u (anc (Suc k) i) \<rparr>)" "u' = loop_tree d i (Suc k) S u1"
    "\<forall>m \<in> {Suc (Suc k)..d}. \<exists>v. ss_versions (S m) = [v]"
    using Suc.hyps(1) [OF _ shape1 _ up [unfolded idx] run [unfolded idx]] by blast
  have "np' = loop_path d i u k (S(Suc k := s)) np" "u' = loop_tree d i k (S(Suc k := s)) u"
    unfolding S(1,2) u1(1) using d i k shape by (intro loop_path_step; simp)+
  moreover have "\<forall>m \<in> {Suc k..d}. \<exists>v. ss_versions ((S(Suc k := s)) m) = [v]" using S(3) u1(2) by auto
  ultimately show ?case by blast
qed

lemma encrypt_path_applies:
  assumes wf: "bk_wf d t" and ok: "encrypt_path C mid pk sks (t, r) = (Ok (Some (pcs, P)), (t', r'))"
  shows "apply_path P t = Ok t'"
proof -
  note shape = bk_wf_shape [OF wf]
  obtain i where i: "bk_id_to_leaf_idx t mid = Some i"
    using ok by (cases "bk_id_to_leaf_idx t mid") (auto simp: encrypt_path_def leaf_index_for_id_def sbind_def)
  from shape i obtain l where l: "i < 2 ^ d" "bk_leaves t ! i = Some l" by (rule bk_shape_id)
  have d: "0 < d" "d \<le> 30" using bk_shape_depth [OF shape] by simp_all
  let ?u = "with_leaf mid i (ShareKey pk) t"
  let ?np = "\<lparr> pc_leaf_id = mid, pc_leaf_idx = i, pc_leaf_pk = ShareKey pk, pc_path = [],
    pc_removed_keys = node_key_keys (ln_pk l) \<rparr>"
  have nk: "node_key_for_id t mid = Ok (ln_pk l)"
    using i l leaf_Ok [OF shape l(1)] by (simp add: node_key_for_id_def leaf_index_for_id_def node_key_for_index_def)
  have ins: "insert_leaf_at i mid (ShareKey pk) t = Ok ?u"
    using l shape by (simp add: insert_leaf_at_def with_leaf_def)
  obtain sk root u' where loop: "encrypt_path_loop 32 C (Leaf i) pk sk (parent (Leaf i)) ?np (?u, r) = (Ok (root, P), (u', r'))"
    and t': "t' = u'\<lparr> bk_current_secret_encrypter_leaf_idx := Some i \<rparr>"
    using ok i nk ins unfolding encrypt_path_def
    by (auto simp: outcome_simps leaf_index_for_id_def Let_def split: prod.splits)
  obtain S where S: "P = loop_path d i ?u 0 S ?np" "u' = loop_tree d i 0 S ?u" "\<forall>m \<in> {Suc 0..d}. \<exists>v. ss_versions (S m) = [v]"
    using encrypt_path_loop_OkD [of i d ?u 0 "parent (Leaf i)" 32 C pk sk ?np r root P u' r'] loop l(1) d
      bk_shape_with_leaf [OF shape i] parent_leaf [of d i] by auto
  have "P = updated_path d mid i pk S t" "t' = updated_tree d mid i pk S t"
    unfolding S(1,2) t' using l by (simp_all add: loop_path_def updated_path_def updated_tree_def del: upt_Suc)
  then show ?thesis using apply_path_updated [OF wf i, of S pk] S(3) by simp
qed

end
