(* ===== verification/Cgka.thy ===== *)
theory Cgka
  imports Op_Epochs Bee_Kem_Own
begin

text \<open>
  The CGKA state machine (\<open>beekem/src/cgka.rs\<close>): the tree, the operation graph, the secrets of
  the owner and the PCS keys, with the local operations, the merge of remote operations and the
  replay of the graph. A method on \<open>&mut self\<close> is a state transformer, so that what a failing
  method has already changed is visible.

  The argument \<open>V\<close> collects what is not in the repository: the cryptographic primitives, the
  encodings of \<open>bincode\<close>, and the iteration order of the hash sets.
\<close>

section \<open>Data\<close>

record ('r, 'cr) cgka_env =
  env_crypto :: "'r crypto"
  env_bincode :: "'cr bincode"
  env_ser_op :: "cgka_operation \<Rightarrow> bytes option"
  env_ser_signed :: "signed_op \<Rightarrow> bytes"
  env_ser_refs :: "'cr list \<Rightarrow> bytes"
  env_iter :: "digest set \<Rightarrow> digest list"

definition op_hash :: "('r, 'cr) cgka_env \<Rightarrow> signed_op \<Rightarrow> digest" where
  "op_hash V op = signed_digest (env_crypto V) (env_ser_signed V) op"

definition pcs_hash :: "('r, 'cr) cgka_env \<Rightarrow> pcs_key \<Rightarrow> digest" where
  "pcs_hash V k = digest_hash (env_crypto V) (ser_pcs_key (env_bincode V) k)"

record cgka =
  cg_doc_id :: tree_id
  cg_owner_id :: member_id
  cg_owner_sks :: share_key_map
  cg_tree :: beekem
  cg_ops_graph :: op_graph
  cg_pending_ops_for_structural_change :: bool
  cg_pcs_keys :: "pcs_key ca_map"
  cg_pcs_key_ops :: "digest \<rightharpoonup> digest"
  cg_original_member :: "member_id \<times> share_key"
  cg_init_add_op :: signed_op

text \<open>Running an operation of a field: the tree, the secret keys, the graph.\<close>

definition at_tree :: "(beekem, 'e, 'a) st \<Rightarrow> (cgka, 'e, 'a) st" where
  "at_tree m c = (case m (cg_tree c) of (r, t) \<Rightarrow> (r, c\<lparr> cg_tree := t \<rparr>))"

definition at_sks :: "(share_key_map, 'e, 'a) st \<Rightarrow> (cgka, 'e, 'a) st" where
  "at_sks m c = (case m (cg_owner_sks c) of (r, sks) \<Rightarrow> (r, c\<lparr> cg_owner_sks := sks \<rparr>))"

definition at_graph :: "(op_graph \<Rightarrow> ('e, op_graph) outcome) \<Rightarrow> (cgka, 'e, unit) st" where
  "at_graph f = modify_st (\<lambda>c. map_ok (\<lambda>g. c\<lparr> cg_ops_graph := g \<rparr>) (f (cg_ops_graph c)))"

text \<open>\<open>try_sign_async(..).await?\<close>: every signing error becomes \<open>CgkaError::SigningError\<close>.\<close>

definition sign_op :: "('r, 'cr) cgka_env \<Rightarrow> signer \<Rightarrow> cgka_operation \<Rightarrow> signed_op cgka_result" where
  "sign_op V sg op = (case try_sign_async (env_ser_op V) sg op of
     Ok s \<Rightarrow> Ok s | Err _ \<Rightarrow> Err SigningError | Panic \<Rightarrow> Panic | Hang \<Rightarrow> Hang)"

section \<open>Construction\<close>

definition new_from_init_add ::
    "('r, 'cr) cgka_env \<Rightarrow> tree_id \<Rightarrow> member_id \<Rightarrow> share_key \<Rightarrow> signed_op \<Rightarrow> cgka cgka_result" where
  "new_from_init_add V doc owner_id owner_pk init =
     and_then (beekem_new doc owner_id owner_pk) (\<lambda>tree.
     let cgka = \<lparr> cg_doc_id = doc, cg_owner_id = owner_id, cg_owner_sks = share_key_map_new, cg_tree = tree,
           cg_ops_graph = graph_new, cg_pending_ops_for_structural_change = False, cg_pcs_keys = ca_new,
           cg_pcs_key_ops = Map.empty, cg_original_member = (owner_id, owner_pk), cg_init_add_op = init \<rparr> in
     map_ok (\<lambda>g. cgka\<lparr> cg_ops_graph := g \<rparr>) (add_local_op (op_hash V) init (cg_ops_graph cgka)))"

definition cgka_new ::
    "('r, 'cr) cgka_env \<Rightarrow> tree_id \<Rightarrow> member_id \<Rightarrow> share_key \<Rightarrow> signer \<Rightarrow> cgka cgka_result" where
  "cgka_new V doc owner_id owner_pk sg =
     and_then (sign_op V sg (init_add doc owner_id owner_pk)) (new_from_init_add V doc owner_id owner_pk)"

definition with_new_owner :: "member_id \<Rightarrow> share_key_map \<Rightarrow> cgka \<Rightarrow> cgka cgka_result" where
  "with_new_owner my_id owner_sks c = Ok (c\<lparr> cg_owner_id := my_id, cg_owner_sks := owner_sks \<rparr>)"

definition ops_count :: "cgka \<Rightarrow> nat" where
  "ops_count c = ca_len (cgka_ops (cg_ops_graph c))"

definition group_size :: "cgka \<Rightarrow> u32" where
  "group_size c = member_count (cg_tree c)"

definition cgka_conflict_node_count :: "cgka \<Rightarrow> nat" where
  "cgka_conflict_node_count c = conflict_node_count (cg_tree c)"

definition has_pcs_key :: "cgka \<Rightarrow> bool cgka_result" where
  "has_pcs_key c = map_ok (\<lambda>root_key. root_key \<and> has_single_head (cg_ops_graph c) \<and> card (add_heads (cg_ops_graph c)) < 2)
     (has_root_key (cg_tree c))"

definition cgka_ops_epochs :: "('r, 'cr) cgka_env \<Rightarrow> cgka \<Rightarrow> cgka_epoch list cgka_result" where
  "cgka_ops_epochs V c = topsort_graph (env_iter V) (cg_ops_graph c)"

definition cgka_contains_predecessors :: "cgka \<Rightarrow> digest set \<Rightarrow> bool" where
  "cgka_contains_predecessors c ps = contains_predecessors (cg_ops_graph c) ps"

definition insert_pcs_key :: "('r, 'cr) cgka_env \<Rightarrow> pcs_key \<Rightarrow> digest \<Rightarrow> cgka \<Rightarrow> cgka" where
  "insert_pcs_key V pcs_key hash c =
     (let digest = pcs_hash V pcs_key in
      c\<lparr> cg_pcs_key_ops := (cg_pcs_key_ops c)(digest \<mapsto> hash),
         cg_pcs_keys := snd (ca_insert (pcs_hash V) pcs_key (cg_pcs_keys c)) \<rparr>)"

definition should_replay :: "cgka \<Rightarrow> bool" where
  "should_replay c \<longleftrightarrow> cgka_op_heads (cg_ops_graph c) \<noteq> {} \<and>
     (cg_pending_ops_for_structural_change c \<or> \<not> has_single_head (cg_ops_graph c))"

definition pcs_key_from_tree_root :: "('r, 'cr) cgka_env \<Rightarrow> (cgka, cgka_error, pcs_key) st" where
  "pcs_key_from_tree_root V = sbind get_st (\<lambda>c.
     sbind (at_sks (decrypt_tree_secret (env_crypto V) (cg_tree c) (cg_owner_id c))) (\<lambda>key. ret (PcsKey key)))"

section \<open>Applying operations\<close>

definition tree_apply :: "cgka_operation \<Rightarrow> (beekem, cgka_error, unit) st" where
  "tree_apply op = (case op of
     Add mid pk _ _ _ _ \<Rightarrow> modify_st (\<lambda>t. map_ok fst (push_leaf mid (ShareKey pk) t))
   | Remove mid _ _ _ _ \<Rightarrow> sbind (remove_id mid) (\<lambda>_. ret ())
   | Update _ path _ _ \<Rightarrow> modify_st (apply_path path))"

definition apply_operation :: "('r, 'cr) cgka_env \<Rightarrow> signed_op \<Rightarrow> (cgka, cgka_error, unit) st" where
  "apply_operation V op = sbind get_st (\<lambda>c.
     if contains_op_hash (cg_ops_graph c) (op_hash V op) then ret ()
     else sbind (at_tree (tree_apply (sg_payload op))) (\<lambda>_.
       at_graph (add_op (op_hash V) op (predecessors (sg_payload op)))))"

definition apply_epoch :: "('r, 'cr) cgka_env \<Rightarrow> cgka_epoch \<Rightarrow> (cgka, cgka_error, unit) st" where
  "apply_epoch V epoch =
     (if length epoch = 1 then apply_operation V (epoch ! 0)
      else if list_all (\<lambda>op. is_Update (sg_payload op)) epoch then for_st (apply_operation V) epoch
      else
        (let added_ids = {added_id (sg_payload op) | op. op \<in> set epoch \<and> is_Add (sg_payload op)};
             removed_ids = {(removed_id (sg_payload op), removed_leaf_idx (sg_payload op)) | op.
               op \<in> set epoch \<and> is_Remove (sg_payload op)} in
         sbind (for_st (apply_operation V) epoch) (\<lambda>_.
         at_tree (modify_st (sort_leaves_and_blank_paths added_ids removed_ids)))))"

definition apply_epochs :: "('r, 'cr) cgka_env \<Rightarrow> cgka_epoch list \<Rightarrow> (cgka, cgka_error, unit) st" where
  "apply_epochs V epochs = for_st (apply_epoch V) epochs"

section \<open>Replay\<close>

text \<open>A local variable that a sequence of \<open>?\<close> statements changes and returns.\<close>

definition run_st :: "('s, 'e, 'a) st \<Rightarrow> 's \<Rightarrow> ('e, 's) outcome" where
  "run_st m s = (case m s of (Ok _, s') \<Rightarrow> Ok s' | (Err e, _) \<Rightarrow> Err e | (Panic, _) \<Rightarrow> Panic | (Hang, _) \<Rightarrow> Hang)"

definition eval_st :: "('s, 'e, 'a) st \<Rightarrow> 's \<Rightarrow> ('e, 'a) outcome" where
  "eval_st m s = fst (m s)"

definition fresh_cgka :: "('r, 'cr) cgka_env \<Rightarrow> cgka \<Rightarrow> cgka cgka_result" where
  "fresh_cgka V c =
     and_then (new_from_init_add V (cg_doc_id c) (fst (cg_original_member c)) (snd (cg_original_member c)) (cg_init_add_op c))
       (with_new_owner (cg_owner_id c) (cg_owner_sks c))"

definition rebuild_cgka :: "('r, 'cr) cgka_env \<Rightarrow> cgka \<Rightarrow> cgka_epoch list \<Rightarrow> cgka cgka_result" where
  "rebuild_cgka V c epochs =
     and_then (fresh_cgka V c) (run_st (sbind (apply_epochs V epochs) (\<lambda>_.
       sbind get_st (\<lambda>rebuilt. sbind (lift_st (has_pcs_key rebuilt)) (\<lambda>has_key.
       if has_key then
         sbind (pcs_key_from_tree_root V) (\<lambda>pcs_key.
         modify_st (\<lambda>rebuilt. Ok (insert_pcs_key V pcs_key (op_hash V (last epochs ! 0)) rebuilt)))
       else ret ())))))"

definition update_cgka_from :: "cgka \<Rightarrow> cgka \<Rightarrow> cgka" where
  "update_cgka_from other c = c\<lparr>
     cg_tree := cg_tree other,
     cg_owner_sks := share_key_map_extend (cg_owner_sks c) (cg_owner_sks other),
     cg_pcs_keys := cg_pcs_keys c ++ cg_pcs_keys other,
     cg_pcs_key_ops := cg_pcs_key_ops c ++ cg_pcs_key_ops other,
     cg_pending_ops_for_structural_change := cg_pending_ops_for_structural_change other \<rparr>"

definition replay_ops_graph :: "('r, 'cr) cgka_env \<Rightarrow> (cgka, cgka_error, unit) st" where
  "replay_ops_graph V = sbind get_st (\<lambda>c.
     sbind (lift_st (topsort_graph (env_iter V) (cg_ops_graph c))) (\<lambda>ordered_ops.
     sbind (lift_st (rebuild_cgka V c ordered_ops)) (\<lambda>rebuilt.
     put_st ((update_cgka_from rebuilt c)\<lparr> cg_pending_ops_for_structural_change := False \<rparr>))))"

definition maybe_replay :: "('r, 'cr) cgka_env \<Rightarrow> (cgka, cgka_error, unit) st" where
  "maybe_replay V = sbind get_st (\<lambda>c. if should_replay c then replay_ops_graph V else ret ())"

definition rebuild_pcs_key :: "('r, 'cr) cgka_env \<Rightarrow> cgka_epoch list \<Rightarrow> (cgka, cgka_error, pcs_key) st" where
  "rebuild_pcs_key V epochs = sbind get_st (\<lambda>c.
     sbind (lift_st (and_then (fresh_cgka V c)
       (eval_st (sbind (apply_epochs V epochs) (\<lambda>_. pcs_key_from_tree_root V))))) (\<lambda>pcs_key.
     sbind (put_st (insert_pcs_key V pcs_key (op_hash V (last epochs ! 0)) c)) (\<lambda>_. ret pcs_key)))"

definition derive_pcs_key_for_op :: "('r, 'cr) cgka_env \<Rightarrow> digest \<Rightarrow> (cgka, cgka_error, pcs_key) st" where
  "derive_pcs_key_for_op V hash = sbind get_st (\<lambda>c.
     if \<not> contains_op_hash (cg_ops_graph c) hash then raise UnknownPcsKey
     else sbind (lift_st (topsort_for_heads (env_iter V) (cg_ops_graph c) {hash})) (rebuild_pcs_key V))"

definition pcs_key_from_hashes :: "('r, 'cr) cgka_env \<Rightarrow> digest \<Rightarrow> digest \<Rightarrow> (cgka, cgka_error, pcs_key) st" where
  "pcs_key_from_hashes V pcs_key_hash update_op_hash = sbind get_st (\<lambda>c.
     case ca_get (cg_pcs_keys c) pcs_key_hash of
       Some pcs_key \<Rightarrow> ret pcs_key
     | None \<Rightarrow> sbind (lift_st (has_pcs_key c)) (\<lambda>has_key.
         if has_key then
           sbind (pcs_key_from_tree_root V) (\<lambda>pcs_key.
           if pcs_hash V pcs_key = pcs_key_hash then ret pcs_key else derive_pcs_key_for_op V update_op_hash)
         else derive_pcs_key_for_op V update_op_hash))"

section \<open>Local operations\<close>

definition cgka_add :: "('r, 'cr) cgka_env \<Rightarrow> signer \<Rightarrow> member_id \<Rightarrow> share_key \<Rightarrow> (cgka, cgka_error, signed_op option) st" where
  "cgka_add V sg mid pk = sbind get_st (\<lambda>c.
     if contains_id (cg_tree c) mid then ret None
     else sbind (maybe_replay V) (\<lambda>_.
       sbind (at_tree (\<lambda>t. case push_leaf mid (ShareKey pk) t of
           Ok (t', i) \<Rightarrow> (Ok i, t') | Err e \<Rightarrow> (Err e, t) | Panic \<Rightarrow> (Panic, t) | Hang \<Rightarrow> (Hang, t))) (\<lambda>leaf_index.
       sbind get_st (\<lambda>c.
       let op = Add mid pk leaf_index (env_iter V (cgka_op_heads (cg_ops_graph c)))
             (env_iter V (add_heads (cg_ops_graph c))) (cg_doc_id c) in
       sbind (lift_st (sign_op V sg op)) (\<lambda>signed_op.
       sbind (at_graph (add_local_op (op_hash V) signed_op)) (\<lambda>_.
       ret (Some signed_op)))))))"

fun add_multiple :: "('r, 'cr) cgka_env \<Rightarrow> signer \<Rightarrow> (member_id \<times> share_key) list \<Rightarrow> (cgka, cgka_error, signed_op list) st" where
  "add_multiple V sg [] = ret []"
| "add_multiple V sg (m # members) =
     sbind (cgka_add V sg (fst m) (snd m)) (\<lambda>op.
     sbind (add_multiple V sg members) (\<lambda>ops.
     ret (case op of Some op \<Rightarrow> op # ops | None \<Rightarrow> ops)))"

definition cgka_remove :: "('r, 'cr) cgka_env \<Rightarrow> signer \<Rightarrow> member_id \<Rightarrow> (cgka, cgka_error, signed_op option) st" where
  "cgka_remove V sg mid = sbind get_st (\<lambda>c.
     if \<not> contains_id (cg_tree c) mid then ret None
     else sbind (maybe_replay V) (\<lambda>_.
       sbind get_st (\<lambda>c.
       if group_size c = 1 then raise RemoveLastMember
       else sbind (at_tree (remove_id mid)) (\<lambda>(leaf_idx, keys).
         sbind get_st (\<lambda>c.
         let op = Remove mid leaf_idx keys (env_iter V (cgka_op_heads (cg_ops_graph c))) (cg_doc_id c) in
         sbind (lift_st (sign_op V sg op)) (\<lambda>signed_op.
         sbind (at_graph (add_local_op (op_hash V) signed_op)) (\<lambda>_.
         ret (Some signed_op))))))))"

text \<open>The operations that draw randomness run on the state and the generator.\<close>

definition with_rng :: "('s, 'e, 'a) st \<Rightarrow> ('s \<times> 'r, 'e, 'a) st" where
  "with_rng m = (\<lambda>(s, r). case m s of (x, s') \<Rightarrow> (x, (s', r)))"

definition encrypt_own_path ::
    "('r, 'cr) cgka_env \<Rightarrow> share_key \<Rightarrow> (cgka \<times> 'r, cgka_error, (pcs_key \<times> path_change) option) st" where
  "encrypt_own_path V new_pk = (\<lambda>(c, r).
     case encrypt_path (env_crypto V) (cg_owner_id c) new_pk (cg_owner_sks c) (cg_tree c, r) of
       (x, (t, r')) \<Rightarrow> (x, (c\<lparr> cg_tree := t \<rparr>, r')))"

definition cgka_update ::
    "('r, 'cr) cgka_env \<Rightarrow> signer \<Rightarrow> share_key \<Rightarrow> share_secret_key \<Rightarrow> (cgka \<times> 'r, cgka_error, pcs_key \<times> signed_op) st" where
  "cgka_update V sg new_pk new_sk =
     sbind (with_rng (maybe_replay V)) (\<lambda>_.
     sbind (with_rng (modify_st (\<lambda>c. Ok (c\<lparr> cg_owner_sks := share_key_map_insert new_pk new_sk (cg_owner_sks c) \<rparr>)))) (\<lambda>_.
     sbind (encrypt_own_path V new_pk) (\<lambda>maybe_key_and_path.
     case maybe_key_and_path of
       None \<Rightarrow> raise IdentifierNotFound
     | Some (pcs_key, path) \<Rightarrow>
         with_rng (sbind get_st (\<lambda>c.
           let op = Update (cg_owner_id c) path (env_iter V (cgka_op_heads (cg_ops_graph c))) (cg_doc_id c) in
           sbind (lift_st (sign_op V sg op)) (\<lambda>signed_op.
           sbind (at_graph (add_local_op (op_hash V) signed_op)) (\<lambda>_.
           sbind (modify_st (\<lambda>c. Ok (insert_pcs_key V pcs_key (op_hash V signed_op) c))) (\<lambda>_.
           ret (pcs_key, signed_op)))))))))"

definition new_app_secret_for ::
    "('r, 'cr) cgka_env \<Rightarrow> signer \<Rightarrow> 'cr \<Rightarrow> bytes \<Rightarrow> 'cr list \<Rightarrow>
     (cgka \<times> 'r, cgka_error, 'cr application_secret \<times> signed_op option) st" where
  "new_app_secret_for V sg content_ref content pred_refs =
     sbind get_st (\<lambda>(c, _).
     sbind (lift_st (has_pcs_key c)) (\<lambda>has_key.
     sbind (if \<not> has_key then
         sbind (\<lambda>(c, r). case secret_generate (env_crypto V) r of (sk, r') \<Rightarrow> (Ok sk, (c, r'))) (\<lambda>new_share_secret_key.
         sbind (cgka_update V sg (share_key (env_crypto V) new_share_secret_key) new_share_secret_key) (\<lambda>(pcs_key, update_op).
         sbind (with_rng (modify_st (\<lambda>c. Ok (insert_pcs_key V pcs_key (op_hash V update_op) c)))) (\<lambda>_.
         ret (pcs_key, Some update_op))))
       else sbind (with_rng (pcs_key_from_tree_root V)) (\<lambda>pcs_key. ret (pcs_key, None))) (\<lambda>(current_pcs_key, op).
     sbind get_st (\<lambda>(c, _).
     let pcs_key_hash = pcs_hash V current_pcs_key;
         nonce = siv_new (env_crypto V) (pcs_to_symmetric_key (env_crypto V) current_pcs_key) content (tree_id_bytes (cg_doc_id c)) in
     sbind (lift_st (expect (cg_pcs_key_ops c pcs_key_hash))) (\<lambda>update_op_hash.
     ret (derive_application_secret (env_crypto V) (env_bincode V) current_pcs_key nonce content_ref
         (digest_hash (env_crypto V) (env_ser_refs V pred_refs)) update_op_hash, op))))))"

definition decryption_key_for :: "('r, 'cr) cgka_env \<Rightarrow> 'cr encrypted_content \<Rightarrow> (cgka, cgka_error, symmetric_key) st" where
  "decryption_key_for V encrypted =
     sbind (pcs_key_from_hashes V (ec_pcs_key_hash encrypted) (ec_pcs_update_op_hash encrypted)) (\<lambda>pcs_key.
     sbind (modify_st (\<lambda>c. Ok (if \<not> ca_contains_key (cg_pcs_keys c) (ec_pcs_key_hash encrypted)
         then insert_pcs_key V pcs_key (ec_pcs_update_op_hash encrypted) c else c))) (\<lambda>_.
     ret (as_key (derive_application_secret (env_crypto V) (env_bincode V) pcs_key (ec_nonce encrypted)
       (ec_content_ref encrypted) (ec_pred_refs encrypted) (ec_pcs_update_op_hash encrypted)))))"

section \<open>Remote operations\<close>

definition merge_concurrent_operation :: "('r, 'cr) cgka_env \<Rightarrow> signed_op \<Rightarrow> (cgka, cgka_error, bool) st" where
  "merge_concurrent_operation V op = sbind get_st (\<lambda>c.
     if contains_op_hash (cg_ops_graph c) (op_hash V op) then ret False
     else
       (let preds = predecessors (sg_payload op) in
        if \<not> contains_predecessors (cg_ops_graph c) preds then raise OutOfOrderOperation
        else
          (let is_concurrent = (\<not> heads_contained_in (cg_ops_graph c) preds) in
           sbind (if is_concurrent then
               if cg_pending_ops_for_structural_change c then at_graph (add_op (op_hash V) op preds)
               else if is_Add (sg_payload op) \<or> is_Remove (sg_payload op) then
                 sbind (put_st (c\<lparr> cg_pending_ops_for_structural_change := True \<rparr>)) (\<lambda>_.
                 at_graph (add_op (op_hash V) op preds))
               else apply_operation V op
             else sbind (maybe_replay V) (\<lambda>_. apply_operation V op))
           (\<lambda>_. ret True))))"

definition cgka_fork :: "cgka \<Rightarrow> cgka" where
  "cgka_fork c = c"

definition cgka_merge :: "('r, 'cr) cgka_env \<Rightarrow> cgka \<Rightarrow> cgka \<Rightarrow> cgka cgka_result" where
  "cgka_merge V fork c =
     (let c1 = c\<lparr> cg_owner_sks := share_key_map_merge (cg_owner_sks c) (cg_owner_sks fork),
           cg_ops_graph := graph_merge (cg_ops_graph c) (cg_ops_graph fork),
           cg_pcs_keys := ca_merge (cg_pcs_keys c) (cg_pcs_keys fork) \<rparr> in
      case run_st (replay_ops_graph V) c1 of Ok c2 \<Rightarrow> Ok c2 | Err _ \<Rightarrow> Panic | Panic \<Rightarrow> Panic | Hang \<Rightarrow> Hang)"

end
