(* ===== verification/Cgka_Sync.thy ===== *)
theory Cgka_Sync
  imports Cgka
begin

text \<open>
  Convergence of the CGKA. Applying operations only touches the tree and the operation graph, so
  a replay is a function of the first operation and the graph (\<open>replay_tree\<close>). The invariant
  \<open>synced\<close> says that the tree of a replica is that function of its operations unless a replay is
  due; every local and remote operation keeps it, so replicas with the same operations agree.
\<close>

section \<open>Operations on the tree and the graph\<close>

definition at_core :: "(beekem \<times> op_graph, 'e, 'a) st \<Rightarrow> (cgka, 'e, 'a) st" where
  "at_core m c = (case m (cg_tree c, cg_ops_graph c) of
     (r, (t, g)) \<Rightarrow> (r, c\<lparr> cg_tree := t, cg_ops_graph := g \<rparr>))"

definition on_fst :: "('s, 'e, 'a) st \<Rightarrow> ('s \<times> 'u, 'e, 'a) st" where
  "on_fst m = (\<lambda>(s, u). case m s of (r, s') \<Rightarrow> (r, (s', u)))"

definition core_op :: "('r, 'cr) cgka_env \<Rightarrow> signed_op \<Rightarrow> (beekem \<times> op_graph, cgka_error, unit) st" where
  "core_op V op = (\<lambda>(t, g).
     if contains_op_hash g (op_hash V op) then (Ok (), (t, g))
     else case tree_apply (sg_payload op) t of
       (Ok _, t') \<Rightarrow> (Ok (), (t', graph_added (op_hash V) op (preds op) (add_preds op) g))
     | (Err e, t') \<Rightarrow> (Err e, (t', g)) | (Panic, t') \<Rightarrow> (Panic, (t', g)) | (Hang, t') \<Rightarrow> (Hang, (t', g)))"

definition core_epoch :: "('r, 'cr) cgka_env \<Rightarrow> cgka_epoch \<Rightarrow> (beekem \<times> op_graph, cgka_error, unit) st" where
  "core_epoch V epoch =
     (if length epoch = 1 then core_op V (epoch ! 0)
      else if list_all (\<lambda>op. is_Update (sg_payload op)) epoch then for_st (core_op V) epoch
      else
        (let added_ids = {added_id (sg_payload op) | op. op \<in> set epoch \<and> is_Add (sg_payload op)};
             removed_ids = {(removed_id (sg_payload op), removed_leaf_idx (sg_payload op)) | op.
               op \<in> set epoch \<and> is_Remove (sg_payload op)} in
         sbind (for_st (core_op V) epoch) (\<lambda>_.
         on_fst (modify_st (sort_leaves_and_blank_paths added_ids removed_ids)))))"

definition core_epochs :: "('r, 'cr) cgka_env \<Rightarrow> cgka_epoch list \<Rightarrow> (beekem \<times> op_graph, cgka_error, unit) st" where
  "core_epochs V epochs = for_st (core_epoch V) epochs"

lemma sbind_at_core: "sbind (at_core m) (\<lambda>x. at_core (f x)) = at_core (sbind m f)"
  by (rule ext) (simp add: sbind_def at_core_def split: prod.split outcome.split)

lemma ret_at_core: "ret x = at_core (ret x)"
  by (rule ext) (simp add: at_core_def ret_def)

lemma for_st_at_core: "for_st (\<lambda>x. at_core (f x)) xs = at_core (for_st f xs)"
proof (induction xs)
  case Nil
  show ?case unfolding for_st.simps by (rule ret_at_core)
next
  case (Cons x xs)
  then show ?case unfolding for_st.simps by (simp only: sbind_at_core)
qed

lemma at_tree_at_core: "at_tree m = at_core (on_fst m)"
  by (rule ext) (simp add: at_tree_def at_core_def on_fst_def split: prod.split)

lemma apply_operation_core: "apply_operation V = (\<lambda>op. at_core (core_op V op))"
proof (rule ext, rule ext)
  fix op :: signed_op and c :: cgka
  obtain r t' where "tree_apply (sg_payload op) (cg_tree c) = (r, t')" by fastforce
  then show "apply_operation V op c = at_core (core_op V op) c"
    by (cases r) (simp_all add: apply_operation_def at_core_def core_op_def at_tree_def at_graph_def add_op_eq sbind_def
        get_st_def ret_def modify_st_def)
qed

lemma apply_epoch_core: "apply_epoch V = (\<lambda>ep. at_core (core_epoch V ep))"
  by (rule ext) (simp add: apply_epoch_def core_epoch_def apply_operation_core for_st_at_core at_tree_at_core sbind_at_core Let_def)

lemma apply_epochs_core: "apply_epochs V es = at_core (core_epochs V es)"
  by (simp add: apply_epochs_def core_epochs_def apply_epoch_core for_st_at_core)

section \<open>Replay as a function of the operations\<close>

definition replay_tree ::
    "('r, 'cr) cgka_env \<Rightarrow> tree_id \<Rightarrow> member_id \<times> share_key \<Rightarrow> signed_op \<Rightarrow> cgka_epoch list \<Rightarrow> beekem cgka_result" where
  "replay_tree V doc member init epochs =
     and_then (beekem_new doc (fst member) (snd member)) (\<lambda>t.
     and_then (add_local_op (op_hash V) init graph_new) (\<lambda>g.
     map_ok fst (run_st (core_epochs V epochs) (t, g))))"

lemma run_st_eq_Ok [outcome_simps]: "run_st m s = Ok s' \<longleftrightarrow> (\<exists>x. m s = (Ok x, s'))"
  by (auto simp: run_st_def split: prod.splits outcome.splits)

lemma at_core_eq_Ok: "at_core m c = (Ok x, c') \<longleftrightarrow>
    (\<exists>t g. m (cg_tree c, cg_ops_graph c) = (Ok x, (t, g)) \<and> c' = c\<lparr> cg_tree := t, cg_ops_graph := g \<rparr>)"
  by (auto simp: at_core_def split: prod.splits)

lemma pcs_key_from_tree_root_frame:
  assumes "pcs_key_from_tree_root V c = (x, c')"
  shows "\<exists>sks. c' = c\<lparr> cg_owner_sks := sks \<rparr>"
proof -
  obtain y sks where "decrypt_tree_secret (env_crypto V) (cg_tree c) (cg_owner_id c) (cg_owner_sks c) = (y, sks)" by fastforce
  then have "c' = c\<lparr> cg_owner_sks := sks \<rparr>"
    using assms by (cases y) (auto simp: pcs_key_from_tree_root_def at_sks_def sbind_def get_st_def ret_def)
  then show ?thesis by blast
qed

lemma fresh_cgka_core:
  assumes "fresh_cgka V c = Ok c0"
  shows "\<exists>t. beekem_new (cg_doc_id c) (fst (cg_original_member c)) (snd (cg_original_member c)) = Ok t \<and>
    cg_tree c0 = t \<and> add_local_op (op_hash V) (cg_init_add_op c) graph_new = Ok (cg_ops_graph c0)"
  using assms by (auto simp: fresh_cgka_def new_from_init_add_def with_new_owner_def outcome_simps Let_def)

lemma rebuild_cgka_tree:
  assumes "rebuild_cgka V c es = Ok rb"
  shows "replay_tree V (cg_doc_id c) (cg_original_member c) (cg_init_add_op c) es = Ok (cg_tree rb)"
proof -
  obtain c0 c1 where c0: "fresh_cgka V c = Ok c0" and c1: "apply_epochs V es c0 = (Ok (), c1)"
    and rest: "cg_tree rb = cg_tree c1"
    using assms unfolding rebuild_cgka_def
    by (auto simp: outcome_simps insert_pcs_key_def Let_def split: if_splits dest!: pcs_key_from_tree_root_frame)
  then show ?thesis using fresh_cgka_core [OF c0]
    by (auto simp: replay_tree_def apply_epochs_core at_core_eq_Ok run_st_def)
qed

lemma core_op_dom:
  assumes "core_op V op (t, g) = (Ok x, (t', g'))"
  shows "dom (cgka_ops g') \<subseteq> insert (op_hash V op) (dom (cgka_ops g))"
  using assms by (auto simp: core_op_def graph_added_def split: if_splits prod.splits outcome.splits)

lemma for_st_inv:
  assumes "for_st f xs s = (Ok u, s')" "P s" "\<And>x s s'. x \<in> set xs \<Longrightarrow> P s \<Longrightarrow> f x s = (Ok (), s') \<Longrightarrow> P s'"
  shows "P s'"
  using assms
proof (induction xs arbitrary: s)
  case (Cons x xs)
  then obtain s1 where "f x s = (Ok (), s1)" "for_st f xs s1 = (Ok u, s')" by (auto simp: outcome_simps)
  then show ?case using Cons by (meson list.set_intros)
qed simp

lemma core_epoch_dom:
  assumes "core_epoch V ep s = (Ok (), s')" "dom (cgka_ops (snd s)) \<subseteq> K" "op_hash V ` set ep \<subseteq> K" "ep \<noteq> []"
  shows "dom (cgka_ops (snd s')) \<subseteq> K"
proof -
  let ?P = "\<lambda>s. dom (cgka_ops (snd s)) \<subseteq> K"
  have step: "?P s'" if "op \<in> set ep" "?P s" "core_op V op s = (Ok (), s')" for op s s'
  proof -
    have "dom (cgka_ops (snd s')) \<subseteq> insert (op_hash V op) (dom (cgka_ops (snd s)))"
      using core_op_dom [of V op "fst s" "snd s" "()" "fst s'" "snd s'"] that(3) by simp
    then show ?thesis using that(1,2) assms(3) by blast
  qed
  have loop: "?P s'" if "for_st (core_op V) ep s = (Ok (), s')" for s'
    using for_st_inv [OF that, of ?P] assms(2) step by blast
  have fst: "snd s' = snd s" if "on_fst m s = (Ok (), s')" for m :: "(beekem, cgka_error, unit) st" and s s' :: "beekem \<times> op_graph"
    using that by (auto simp: on_fst_def split: prod.splits)
  show ?thesis
    using assms(1) step [of "ep ! 0"] loop assms(2,4) unfolding core_epoch_def
    by (auto simp: outcome_simps Let_def split: if_splits dest!: fst) (meson domI subsetD)
qed

lemma core_epochs_dom:
  assumes "core_epochs V es s = (Ok (), s')" "[] \<notin> set es"
  shows "dom (cgka_ops (snd s')) \<subseteq> dom (cgka_ops (snd s)) \<union> op_hash V ` set (concat es)"
proof -
  let ?P = "\<lambda>s'. dom (cgka_ops (snd s')) \<subseteq> dom (cgka_ops (snd s)) \<union> op_hash V ` set (concat es)"
  have "?P s2" if "ep \<in> set es" "?P s1" "core_epoch V ep s1 = (Ok (), s2)" for ep s1 s2
    using that(1,2) assms(2) by (intro core_epoch_dom [OF that(3)]) auto
  then show ?thesis using for_st_inv [OF assms(1) [unfolded core_epochs_def], of ?P] by blast
qed

section \<open>One more operation on top of the heads\<close>

lemma all_ancestors:
  assumes S: "causal_set h S" and g: "represents h S g" and heads: "cgka_op_heads g \<subseteq> hs" "hs \<subseteq> h ` S"
  shows "ancestors_of (cgka_ops_predecessors g) hs = h ` S"
proof
  note pm = represents_preds [OF S g] and d = represents_dom(2) [OF g]
  show "ancestors_of (cgka_ops_predecessors g) hs \<subseteq> h ` S"
    using ancestors_closed(1) [OF pm(1)] heads(2) d by simp
  have "finite (causes h S)" using causes_Range [OF S] causal_setD(1) [OF S] by (auto intro: finite_subset)
  then have wf: "wf ((causes h S)\<inverse>)" using causal_acyclic [OF S] by (rule finite_acyclic_wf_converse)
  have "\<exists>hd \<in> hs. (k, hd) \<in> (causes h S)\<^sup>*" if "k \<in> h ` S" for k
    using that
  proof (induction k rule: wf_induct_rule [OF wf])
    case (1 k)
    show ?case
    proof (cases "k \<in> \<Union> (preds ` S)")
      case True
      then obtain b where "b \<in> S" "(k, h b) \<in> causes h S" by (auto simp: causes_def)
      then show ?thesis using 1(1) [of "h b"] by (auto intro: converse_rtrancl_into_rtrancl)
    next
      case False
      then have "k \<in> cgka_op_heads g" using 1(2) by (simp add: representsD(3) [OF g])
      then show ?thesis using heads(1) by blast
    qed
  qed
  then show "h ` S \<subseteq> ancestors_of (cgka_ops_predecessors g) hs" by (auto simp: ancestors_of_def pm(2))
qed

lemma topsort_graph_eq:
  assumes it: "iterates iter" and S: "causal_set h S" "S \<noteq> {}" and g: "represents h S g" and root: "one_root S"
  shows "topsort_graph iter g = Ok (map (map (op_at g)) (epochs_from (h ` S) (causes h S) {} []))"
    "is_dag (h ` S) (causes h S)" "cgka_op_heads g \<noteq> {}"
proof -
  have sub: "cgka_op_heads g \<subseteq> h ` S" by (auto simp: representsD(3) [OF g])
  have A: "ancestors_of (cgka_ops_predecessors g) (cgka_op_heads g) = h ` S" by (rule all_ancestors [OF S(1) g order_refl sub])
  then show ne: "cgka_op_heads g \<noteq> {}" using S(2) by (auto simp: ancestors_of_def)
  have E: "{(p, k) \<in> causes h S. k \<in> h ` S} = causes h S" using causes_Range [OF S(1)] by auto
  show "topsort_graph iter g = Ok (map (map (op_at g)) (epochs_from (h ` S) (causes h S) {} []))"
    "is_dag (h ` S) (causes h S)"
    using topsort_represents(1,2) [OF it S(1) g root sub ne] unfolding A E topsort_graph_def by simp_all
qed

lemma causes_on_top:
  assumes S: "causal_set h S" and op: "preds op = h ` S - \<Union> (preds ` S)"
  shows "causes h (insert op S) = on_top (h ` S) (causes h S) (h op)"
proof -
  have "causes h S `` {k} = {} \<longleftrightarrow> k \<notin> \<Union> (preds ` S)" for k by (auto simp: causes_def)
  then show ?thesis unfolding causes_insert on_top_def op by auto
qed

lemma topsort_graph_on_top:
  assumes it: "iterates iter" and S: "causal_set h S" "S \<noteq> {}" and g: "represents h S g" and root: "one_root S"
    and op: "h op \<notin> h ` S" "preds op = cgka_op_heads g" "add_preds op \<subseteq> h ` S"
    and g': "represents h (insert op S) g'" and es: "topsort_graph iter g = Ok es"
  shows "topsort_graph iter g' = Ok (es @ [[op]])" "causal_set h (insert op S)" "one_root (insert op S)"
proof -
  note top = topsort_graph_eq [OF it S g root]
  have "preds op \<subseteq> h ` S" using op(2) by (auto simp: representsD(3) [OF g])
  then show S': "causal_set h (insert op S)" using S(1) op by (intro causal_insert) auto
  have "preds op \<noteq> {}" using top(3) op(2) by simp
  then show root': "one_root (insert op S)" using root by (auto simp: one_root_def)
  have "set (concat (epochs_from (h ` S) (causes h S) {} [])) = h ` S"
    using epochs_from_ordered [OF top(2), of "{}" "[]"] by (simp add: down_closed_def)
  moreover have "op_at g' k = op_at g k" if "k \<in> h ` S" for k
    using that represents_preds(5) [OF S(1) g] represents_preds(5) [OF S' g'] by auto
  ultimately have "map (map (op_at g')) (epochs_from (h ` S) (causes h S) {} []) =
      map (map (op_at g)) (epochs_from (h ` S) (causes h S) {} [])"
    by (intro list.map_cong0) auto
  moreover have "op_at g' (h op) = op" using represents_preds(5) [OF S' g'] by simp
  moreover have "causes h (insert op S) = on_top (h ` S) (causes h S) (h op)"
    using causes_on_top [OF S(1)] op(2) by (simp add: representsD(3) [OF g])
  moreover have "epochs_from (insert (h op) (h ` S)) (on_top (h ` S) (causes h S) (h op)) {} [] =
      epochs_from (h ` S) (causes h S) {} [] @ [[h op]]"
    by (rule epochs_from_on_top [OF top(2)]) (use op(1) in \<open>simp_all add: down_closed_def\<close>)
  ultimately show "topsort_graph iter g' = Ok (es @ [[op]])"
    using topsort_graph_eq(1) [OF it S' _ g' root'] top(1) es by simp
qed

section \<open>The invariant\<close>

definition in_sync :: "('r, 'cr) cgka_env \<Rightarrow> cgka \<Rightarrow> bool" where
  "in_sync V c \<longleftrightarrow> (\<exists>es. topsort_graph (env_iter V) (cg_ops_graph c) = Ok es \<and>
     replay_tree V (cg_doc_id c) (cg_original_member c) (cg_init_add_op c) es = Ok (cg_tree c))"

definition synced :: "('r, 'cr) cgka_env \<Rightarrow> signed_op set \<Rightarrow> cgka \<Rightarrow> bool" where
  "synced V S c \<longleftrightarrow> causal_set (op_hash V) S \<and> one_root S \<and> represents (op_hash V) S (cg_ops_graph c) \<and>
     cg_init_add_op c \<in> S \<and>
     sg_payload (cg_init_add_op c) = init_add (cg_doc_id c) (fst (cg_original_member c)) (snd (cg_original_member c)) \<and>
     (\<not> should_replay c \<longrightarrow> in_sync V c)"

text \<open>The fields that say which operations a replica was started with.\<close>

definition same_origin :: "cgka \<Rightarrow> cgka \<Rightarrow> bool" where
  "same_origin c c' \<longleftrightarrow> cg_doc_id c' = cg_doc_id c \<and> cg_original_member c' = cg_original_member c \<and>
     cg_init_add_op c' = cg_init_add_op c"

lemma same_origin_refl [simp]: "same_origin c c"
  by (simp add: same_origin_def)

lemma syncedD:
  assumes "synced V S c"
  shows "causal_set (op_hash V) S" "one_root S" "represents (op_hash V) S (cg_ops_graph c)" "cg_init_add_op c \<in> S"
    "sg_payload (cg_init_add_op c) = init_add (cg_doc_id c) (fst (cg_original_member c)) (snd (cg_original_member c))"
    "S \<noteq> {}" "\<not> should_replay c \<Longrightarrow> in_sync V c"
  using assms unfolding synced_def by blast+

lemma synced_frame:
  assumes "synced V S c" "same_origin c c'" "cg_ops_graph c' = cg_ops_graph c" "\<not> should_replay c' \<Longrightarrow> in_sync V c'"
  shows "synced V S c'"
  using assms unfolding synced_def same_origin_def by simp

lemma maybe_replay_sync:
  assumes inv: "synced V S c" and ok: "maybe_replay V c = (Ok x, c')"
  shows "in_sync V c'" "synced V S c'" "same_origin c c'" "cg_ops_graph c' = cg_ops_graph c" "cg_owner_id c' = cg_owner_id c"
proof -
  have "in_sync V c' \<and> same_origin c c' \<and> cg_ops_graph c' = cg_ops_graph c \<and> cg_owner_id c' = cg_owner_id c"
  proof (cases "should_replay c")
    case True
    then obtain es rb where es: "topsort_graph (env_iter V) (cg_ops_graph c) = Ok es" and rb: "rebuild_cgka V c es = Ok rb"
      and c': "c' = (update_cgka_from rb c)\<lparr> cg_pending_ops_for_structural_change := False \<rparr>"
      using ok by (auto simp: maybe_replay_def replay_ops_graph_def outcome_simps)
    then show ?thesis using rebuild_cgka_tree [OF rb]
      by (auto simp: in_sync_def same_origin_def update_cgka_from_def)
  next
    case False
    then have "c' = c" using ok by (simp add: maybe_replay_def)
    then show ?thesis using syncedD(7) [OF inv False] by simp
  qed
  then show "in_sync V c'" "same_origin c c'" "cg_ops_graph c' = cg_ops_graph c" "cg_owner_id c' = cg_owner_id c"
    by blast+
  then show "synced V S c'" using synced_frame [OF inv] by blast
qed

lemma for_st_append: "for_st f (xs @ ys) = sbind (for_st f xs) (\<lambda>_. for_st f ys)"
proof (induction xs)
  case Nil
  then show ?case by (rule ext) (simp add: sbind_def)
next
  case (Cons x xs)
  show ?case unfolding append_Cons for_st.simps Cons
    by (rule ext) (simp add: sbind_def split: prod.split outcome.split)
qed

lemma on_top_sync:
  assumes it: "iterates (env_iter V)" and inv: "synced V S c" and sync: "in_sync V c"
    and op: "op_hash V op \<notin> op_hash V ` S" "preds op = cgka_op_heads (cg_ops_graph c)" "add_preds op \<subseteq> op_hash V ` S"
    and t': "tree_apply (sg_payload op) (cg_tree c) = (Ok (), cg_tree c')"
    and g': "cg_ops_graph c' = graph_added (op_hash V) op (preds op) (add_preds op) (cg_ops_graph c)"
    and same: "same_origin c c'"
  shows "synced V (insert op S) c'" "in_sync V c'"
proof -
  note D = syncedD [OF inv]
  obtain es where es: "topsort_graph (env_iter V) (cg_ops_graph c) = Ok es"
    and replay: "replay_tree V (cg_doc_id c) (cg_original_member c) (cg_init_add_op c) es = Ok (cg_tree c)"
    using sync by (auto simp: in_sync_def)
  have sub: "preds op \<subseteq> op_hash V ` S" unfolding op(2) by (auto simp: representsD(3) [OF D(3)])
  have rep: "represents (op_hash V) (insert op S) (cg_ops_graph c')"
    unfolding g' by (rule represents_added [OF D(1,3) op(1) sub op(3)])
  note top = topsort_graph_on_top [OF it D(1,6,3,2) op rep es]
  obtain t0 g0 gX where new: "beekem_new (cg_doc_id c) (fst (cg_original_member c)) (snd (cg_original_member c)) = Ok t0"
    and g0: "add_local_op (op_hash V) (cg_init_add_op c) graph_new = Ok g0"
    and run: "core_epochs V es (t0, g0) = (Ok (), (cg_tree c, gX))"
    using replay by (auto simp: replay_tree_def outcome_simps)
  let ?E = "epochs_from (op_hash V ` S) (causes (op_hash V) S) {} []"
  note eq = topsort_graph_eq [OF it D(1,6,3,2)]
  have E: "set (concat ?E) = op_hash V ` S" "[] \<notin> set ?E"
    using epochs_from_ordered [OF eq(2), of "{}" "[]"] by (simp_all add: down_closed_def)
  have es': "set (concat es) \<subseteq> S" "[] \<notin> set es"
    using map_hash_epochs(2) [OF D(1,3), of ?E] E eq(1) es by auto
  have "dom (cgka_ops g0) \<subseteq> op_hash V ` S"
    using g0 D(4) by (auto simp: add_local_op_eq graph_added_def graph_new_def ca_new_def split: if_splits)
  then have "dom (cgka_ops gX) \<subseteq> op_hash V ` S" using core_epochs_dom [OF run es'(2)] image_mono [OF es'(1), of "op_hash V"]
    unfolding snd_conv by blast
  then have "\<not> contains_op_hash gX (op_hash V op)"
    using op(1) by (auto simp: contains_op_hash_def ca_contains_key_def)
  then obtain gY where "core_epochs V [[op]] (cg_tree c, gX) = (Ok (), (cg_tree c', gY))"
    using t' by (simp add: core_epochs_def core_epoch_def core_op_def sbind_def ret_def)
  then have "core_epochs V (es @ [[op]]) (t0, g0) = (Ok (), (cg_tree c', gY))"
    using run by (simp add: core_epochs_def for_st_append)
  then have "replay_tree V (cg_doc_id c) (cg_original_member c) (cg_init_add_op c) (es @ [[op]]) = Ok (cg_tree c')"
    using new g0 by (simp add: replay_tree_def run_st_def)
  then show sync': "in_sync V c'" unfolding in_sync_def using top(1) same by (simp add: same_origin_def)
  show "synced V (insert op S) c'" unfolding synced_def
    using top(2,3) rep D(4,5) same sync' by (simp add: same_origin_def)
qed

section \<open>Every operation keeps the invariant\<close>

text \<open>A remote operation whose predecessors are all concurrent, as every replica makes them.\<close>

definition irredundant :: "(signed_op \<Rightarrow> digest) \<Rightarrow> signed_op set \<Rightarrow> signed_op \<Rightarrow> bool" where
  "irredundant h S op \<longleftrightarrow> preds op \<noteq> {} \<and> (\<forall>p \<in> preds op. \<forall>q \<in> preds op. (p, q) \<notin> (causes h S)\<^sup>+)"

lemma irredundant_heads:
  assumes S: "causal_set h S" and g: "represents h S g" and op: "irredundant h S op" "preds op \<subseteq> h ` S"
    and heads: "heads_contained_in g (preds op)"
  shows "preds op = cgka_op_heads g"
proof
  show "cgka_op_heads g \<subseteq> preds op" using heads by (simp add: heads_contained_in_def)
  show "preds op \<subseteq> cgka_op_heads g"
  proof
    fix p assume p: "p \<in> preds op"
    have "cgka_op_heads g \<subseteq> h ` S" by (auto simp: representsD(3) [OF g])
    then have "p \<in> ancestors_of (cgka_ops_predecessors g) (cgka_op_heads g)"
      using all_ancestors [OF S g order_refl] p op(2) by blast
    then obtain hd where hd: "hd \<in> cgka_op_heads g" "(p, hd) \<in> (causes h S)\<^sup>*"
      by (auto simp: ancestors_of_def represents_preds(2) [OF S g])
    then have "hd \<in> preds op" using heads by (auto simp: heads_contained_in_def)
    then have "p = hd" using p hd(2) op(1) unfolding irredundant_def by (metis rtranclD)
    then show "p \<in> cgka_op_heads g" using hd(1) by simp
  qed
qed

lemma added_synced:
  assumes inv: "synced V S c" and op: "op_hash V op \<notin> op_hash V ` S" "preds op \<subseteq> op_hash V ` S"
    "add_preds op \<subseteq> op_hash V ` S" "preds op \<noteq> {}"
    and c': "cg_ops_graph c' = graph_added (op_hash V) op (preds op) (add_preds op) (cg_ops_graph c)" "same_origin c c'"
    "should_replay c'"
  shows "synced V (insert op S) c'"
proof -
  note D = syncedD [OF inv]
  have "represents (op_hash V) (insert op S) (cg_ops_graph c')"
    unfolding c'(1) by (rule represents_added [OF D(1,3) op(1-3)])
  moreover have "one_root (insert op S)" using D(2) op(4) by (auto simp: one_root_def)
  moreover have "causal_set (op_hash V) (insert op S)" using D(1) op by (intro causal_insert)
  ultimately show ?thesis using D(4,5) c'(2,3) unfolding synced_def by (simp add: same_origin_def)
qed

lemma apply_operation_OkD:
  assumes "apply_operation V op c = (Ok x, c')" "\<not> contains_op_hash (cg_ops_graph c) (op_hash V op)"
  shows "tree_apply (sg_payload op) (cg_tree c) = (Ok (), cg_tree c')"
    "cg_ops_graph c' = graph_added (op_hash V) op (preds op) (add_preds op) (cg_ops_graph c)" "same_origin c c'"
  using assms by (auto simp: apply_operation_core at_core_eq_Ok core_op_def same_origin_def split: prod.splits outcome.splits)

lemma concurrent_head_stays:
  assumes S: "causal_set h S" and g: "represents h S g" and op: "h op \<notin> h ` S" and conc: "\<not> heads_contained_in g (preds op)"
  shows "\<not> has_single_head (graph_added h op (preds op) aps g)"
proof -
  have fin: "finite (cgka_op_heads g)" "h op \<notin> cgka_op_heads g"
    using causal_setD(1) [OF S] op by (auto simp: representsD(3) [OF g])
  obtain k where "k \<in> cgka_op_heads g - preds op" using conc by (auto simp: heads_contained_in_def)
  then have "card (cgka_op_heads g - preds op) \<noteq> 0" using fin(1) by auto
  then have "card (insert (h op) (cgka_op_heads g - preds op)) \<noteq> 1" using fin by simp
  then show ?thesis by (simp add: has_single_head_def graph_added_def)
qed

lemma merge_sync:
  assumes it: "iterates (env_iter V)" and inv: "synced V S c" and ok: "merge_concurrent_operation V op c = (Ok b, c')"
    and op: "op_hash V op \<in> op_hash V ` S \<Longrightarrow> op \<in> S" "add_preds op \<subseteq> op_hash V ` S" "irredundant (op_hash V) S op"
  shows "synced V (insert op S) c'"
proof (cases "op_hash V op \<in> op_hash V ` S")
  case True
  then have "c' = c" using ok represents_contains(1) [OF syncedD(3) [OF inv]] by (simp add: merge_concurrent_operation_def)
  then show ?thesis using inv op(1) [OF True] by (simp add: insert_absorb)
next
  case new: False
  note D = syncedD [OF inv]
  note has = represents_contains [OF D(3)]
  have no: "\<not> contains_op_hash (cg_ops_graph c) (op_hash V op)" using new has(1) by simp
  have sub: "preds op \<subseteq> op_hash V ` S"
    using ok no has(2) by (auto simp: merge_concurrent_operation_def Let_def split: if_splits)
  have ne: "preds op \<noteq> {}" using op(3) by (simp add: irredundant_def)
  note conc_added = added_synced [OF inv new sub op(2) ne]
  show ?thesis
  proof (cases "heads_contained_in (cg_ops_graph c) (preds op)")
    case True
    obtain c1 where c1: "maybe_replay V c = (Ok (), c1)" "apply_operation V op c1 = (Ok (), c')"
      using ok no sub has(2) True by (auto simp: merge_concurrent_operation_def Let_def outcome_simps)
    note r = maybe_replay_sync [OF inv c1(1)]
    have no1: "\<not> contains_op_hash (cg_ops_graph c1) (op_hash V op)" using no r(4) by simp
    note a = apply_operation_OkD [OF c1(2) no1]
    have "preds op = cgka_op_heads (cg_ops_graph c1)"
      using irredundant_heads [OF D(1,3) op(3) sub True] r(4) by simp
    then show ?thesis by (rule on_top_sync(1) [OF it r(2,1) new _ op(2) a])
  next
    case conc: False
    let ?g = "graph_added (op_hash V) op (preds op) (add_preds op) (cg_ops_graph c)"
    have "cgka_op_heads ?g \<noteq> {}" by (simp add: graph_added_def)
    moreover have "\<not> has_single_head ?g" by (rule concurrent_head_stays [OF D(1,3) new conc])
    ultimately have "should_replay c'" if "cg_ops_graph c' = ?g" for c' using that by (simp add: should_replay_def)
    moreover have "cg_ops_graph c' = ?g \<and> same_origin c c'"
    proof (cases "cg_pending_ops_for_structural_change c \<or> is_Add (sg_payload op) \<or> is_Remove (sg_payload op)")
      case True
      then show ?thesis using ok no sub has(2) conc
        by (auto simp: merge_concurrent_operation_def Let_def outcome_simps at_graph_def add_op_eq same_origin_def split: if_splits)
    next
      case False
      then have "apply_operation V op c = (Ok (), c')"
        using ok no sub has(2) conc by (auto simp: merge_concurrent_operation_def Let_def outcome_simps split: if_splits)
      from apply_operation_OkD(2,3) [OF this no] show ?thesis by blast
    qed
    ultimately show ?thesis using conc_added by blast
  qed
qed

lemma sign_op_Ok: "sign_op V sg p = Ok op \<Longrightarrow> sg_payload op = p"
  by (auto simp: sign_op_def try_sign_async_Ok signed_new_def split: outcome.splits)

lemma represents_heads_finite:
  assumes "causal_set h S" "represents h S g"
  shows "finite (cgka_op_heads g)" "finite (add_heads g)" "add_heads g \<subseteq> h ` S"
  using causal_setD(1) [OF assms(1)] by (auto simp: representsD(3,4) [OF assms(2)])

text \<open>What a local operation does after the replay: it changes the tree and adds itself on top of the heads.\<close>

definition on_heads :: "(signed_op \<Rightarrow> digest) \<Rightarrow> signed_op set \<Rightarrow> signed_op \<Rightarrow> bool" where
  "on_heads h S op \<longleftrightarrow> preds op = h ` S - \<Union> (preds ` S) \<and> add_preds op \<subseteq> h ` S"

lemma local_sync:
  assumes it: "iterates (env_iter V)" and inv: "synced V S c" and sync: "in_sync V c"
    and op: "op_hash V op \<notin> op_hash V ` S" "preds op = set (env_iter V (cgka_op_heads (cg_ops_graph c)))"
    "is_Add (sg_payload op) \<Longrightarrow> add_preds op = set (env_iter V (add_heads (cg_ops_graph c)))"
    and t': "tree_apply (sg_payload op) (cg_tree c) = (Ok (), cg_tree c')"
    and g': "add_local_op (op_hash V) op (cg_ops_graph c) = (Ok (cg_ops_graph c') :: op_graph cgka_result)"
    and same: "same_origin c c'"
  shows "synced V (insert op S) c' \<and> on_heads (op_hash V) S op"
proof -
  note D = syncedD [OF inv] and fin = represents_heads_finite [OF syncedD(1,3) [OF inv]]
  have p: "preds op = cgka_op_heads (cg_ops_graph c)" "is_Add (sg_payload op) \<Longrightarrow> add_preds op = add_heads (cg_ops_graph c)"
    using op(2,3) fin(1,2) it by (simp_all add: iterates_def)
  have sub: "add_preds op \<subseteq> op_hash V ` S"
    using p(2) fin(3) by (cases "sg_payload op") (auto simp: add_predecessors_def)
  have "cg_ops_graph c' = graph_added (op_hash V) op (preds op) (add_preds op) (cg_ops_graph c)"
    using g' add_local_op_as_remote [OF p, of "op_hash V"] by (simp add: add_op_eq)
  from on_top_sync(1) [OF it inv sync op(1) p(1) sub t' this same] sub p(1) representsD(3) [OF D(3)]
  show ?thesis by (simp add: on_heads_def)
qed

lemma at_tree_eq_Ok: "at_tree m c = (Ok x, c') \<longleftrightarrow> (\<exists>t. m (cg_tree c) = (Ok x, t) \<and> c' = c\<lparr> cg_tree := t \<rparr>)"
  by (auto simp: at_tree_def split: prod.splits)

lemma at_push_eq_Ok:
  "(case y of Ok (t', i) \<Rightarrow> (Ok i, t') | Err e \<Rightarrow> (Err e, t) | Panic \<Rightarrow> (Panic, t) | Hang \<Rightarrow> (Hang, t)) = (Ok j, t2)
    \<longleftrightarrow> y = Ok (t2, j)"
  by (auto split: outcome.splits)

lemmas local_steps = outcome_simps at_tree_eq_Ok at_push_eq_Ok at_graph_def same_origin_def

lemma add_sync:
  assumes it: "iterates (env_iter V)" and inv: "synced V S c" and ok: "cgka_add V sg mid pk c = (Ok (Some op), c')"
    and new: "op_hash V op \<notin> op_hash V ` S"
  shows "synced V (insert op S) c' \<and> on_heads (op_hash V) S op"
proof -
  obtain c1 t i where c1: "maybe_replay V c = (Ok (), c1)" and t: "push_leaf mid (ShareKey pk) (cg_tree c1) = Ok (t, i)"
    and sign: "sign_op V sg (Add mid pk i (env_iter V (cgka_op_heads (cg_ops_graph c1)))
      (env_iter V (add_heads (cg_ops_graph c1))) (cg_doc_id c1)) = Ok op"
    and c': "add_local_op (op_hash V) op (cg_ops_graph c1) = (Ok (cg_ops_graph c') :: op_graph cgka_result)"
      "cg_tree c' = t" "same_origin c1 c'"
    using ok by (auto simp: cgka_add_def local_steps Let_def split: if_splits)
  have "tree_apply (sg_payload op) (cg_tree c1) = (Ok (), cg_tree c')"
    using t sign_op_Ok [OF sign] c'(2) by (simp add: tree_apply_def)
  then show ?thesis using maybe_replay_sync [OF inv c1] sign_op_Ok [OF sign] new c'
    by (intro local_sync [OF it]) (auto simp: add_predecessors_def)
qed

lemma remove_sync:
  assumes it: "iterates (env_iter V)" and inv: "synced V S c" and ok: "cgka_remove V sg mid c = (Ok (Some op), c')"
    and new: "op_hash V op \<notin> op_hash V ` S"
  shows "synced V (insert op S) c' \<and> on_heads (op_hash V) S op"
proof -
  obtain c1 t i ks where c1: "maybe_replay V c = (Ok (), c1)" and t: "remove_id mid (cg_tree c1) = (Ok (i, ks), t)"
    and sign: "sign_op V sg (Remove mid i ks (env_iter V (cgka_op_heads (cg_ops_graph c1))) (cg_doc_id c1)) = Ok op"
    and c': "add_local_op (op_hash V) op (cg_ops_graph c1) = (Ok (cg_ops_graph c') :: op_graph cgka_result)"
      "cg_tree c' = t" "same_origin c1 c'"
    using ok by (auto simp: cgka_remove_def local_steps Let_def split: if_splits)
  have "tree_apply (sg_payload op) (cg_tree c1) = (Ok (), cg_tree c')"
    using t sign_op_Ok [OF sign] c'(2) by (simp add: tree_apply_def)
  then show ?thesis using maybe_replay_sync [OF inv c1] sign_op_Ok [OF sign] new c'
    by (intro local_sync [OF it]) auto
qed

lemma with_rng_eq_Ok: "with_rng m (s, r) = (Ok x, (s', r')) \<longleftrightarrow> m s = (Ok x, s') \<and> r' = r"
  by (auto simp: with_rng_def split: prod.splits)

lemma update_sync:
  assumes it: "iterates (env_iter V)" and inv: "synced V S c"
    and ok: "cgka_update V sg pk sk (c, r) = (Ok (pcs, op), (c', r'))"
    and wf: "\<And>c1. maybe_replay V c = (Ok (), c1) \<Longrightarrow> \<exists>d. bk_wf d (cg_tree c1)"
    and new: "op_hash V op \<notin> op_hash V ` S"
  shows "synced V (insert op S) c' \<and> on_heads (op_hash V) S op"
proof -
  obtain c1 t P where c1: "maybe_replay V c = (Ok (), c1)"
    and t: "encrypt_path (env_crypto V) (cg_owner_id c1) pk (share_key_map_insert pk sk (cg_owner_sks c1)) (cg_tree c1, r) =
      (Ok (Some (pcs, P)), (t, r'))"
    and sign: "sign_op V sg (Update (cg_owner_id c1) P (env_iter V (cgka_op_heads (cg_ops_graph c1))) (cg_doc_id c1)) = Ok op"
    and c': "add_local_op (op_hash V) op (cg_ops_graph c1) = (Ok (cg_ops_graph c') :: op_graph cgka_result)"
      "cg_tree c' = t" "same_origin c1 c'"
    using ok unfolding cgka_update_def
    by (auto simp: local_steps with_rng_eq_Ok encrypt_own_path_def Let_def insert_pcs_key_def
        split: option.splits prod.splits)
  obtain d where "bk_wf d (cg_tree c1)" using wf [OF c1] by blast
  then have "tree_apply (sg_payload op) (cg_tree c1) = (Ok (), cg_tree c')"
    using encrypt_path_applies [OF _ t] sign_op_Ok [OF sign] c'(2) by (simp add: tree_apply_def)
  then show ?thesis using maybe_replay_sync [OF inv c1] sign_op_Ok [OF sign] new c'
    by (intro local_sync [OF it]) auto
qed

end
