(* ===== verification/Cgka_Run.thy ===== *)
theory Cgka_Run
  imports Cgka_Sync
begin

text \<open>
  Runs of a CGKA replica: what the methods of \<open>cgka.rs\<close> do in sequence, local operations, remote
  operations, decryption and encryption, and what replicas that know the same operations share.
\<close>

section \<open>Methods that only touch secrets\<close>

text \<open>The fields that the PCS key methods and a change of owner may change: the owner, the secrets and the known PCS keys.\<close>

definition secrets_only :: "cgka \<Rightarrow> cgka \<Rightarrow> bool" where
  "secrets_only c c' \<longleftrightarrow> same_origin c c' \<and> cg_tree c' = cg_tree c \<and>
     cg_ops_graph c' = cg_ops_graph c \<and>
     cg_pending_ops_for_structural_change c' = cg_pending_ops_for_structural_change c"

lemma secrets_only_refl [simp]: "secrets_only c c"
  by (simp add: secrets_only_def)

lemma secrets_only_trans [trans]: "secrets_only a b \<Longrightarrow> secrets_only b c \<Longrightarrow> secrets_only a c"
  by (simp add: secrets_only_def same_origin_def)

lemma secrets_only_sks [simp]: "secrets_only c (c\<lparr> cg_owner_sks := sks \<rparr>)"
  by (simp add: secrets_only_def same_origin_def)

lemma secrets_only_insert [simp]: "secrets_only c (insert_pcs_key V k h c)"
  by (simp add: secrets_only_def same_origin_def insert_pcs_key_def Let_def)

lemma secrets_only_synced:
  assumes "synced V S c" "secrets_only c c'"
  shows "synced V S c'"
proof -
  have eq: "same_origin c c'" "cg_ops_graph c' = cg_ops_graph c" "cg_tree c' = cg_tree c" "should_replay c' = should_replay c"
    using assms(2) by (auto simp: secrets_only_def same_origin_def should_replay_def)
  then show ?thesis using assms(1)
    by (intro synced_frame [OF assms(1)]) (auto simp: synced_def in_sync_def same_origin_def)
qed

lemma sbind_secrets_only:
  assumes "sbind m f c = (x, c')" "\<And>y c1. m c = (y, c1) \<Longrightarrow> secrets_only c c1"
    "\<And>y c1 x c2. m c = (Ok y, c1) \<Longrightarrow> f y c1 = (x, c2) \<Longrightarrow> secrets_only c1 c2"
  shows "secrets_only c c'"
proof -
  obtain y c1 where y: "m c = (y, c1)" by fastforce
  note one = assms(2) [OF y]
  show ?thesis
  proof (cases y)
    case (Ok v)
    then have "secrets_only c1 c'" using assms(1,3) y by (auto simp: sbind_def)
    with one show ?thesis by (rule secrets_only_trans)
  qed (use assms(1) one y in \<open>auto simp: sbind_def\<close>)
qed

lemma tree_root_secrets_only: "pcs_key_from_tree_root V c = (x, c') \<Longrightarrow> secrets_only c c'"
  by (auto dest!: pcs_key_from_tree_root_frame)

lemma derive_secrets_only:
  assumes "derive_pcs_key_for_op V h c = (x, c')"
  shows "secrets_only c c'"
  using assms unfolding derive_pcs_key_for_op_def rebuild_pcs_key_def
  by (auto simp: sbind_def get_st_def lift_st_def raise_def put_st_def ret_def split: if_splits outcome.splits prod.splits)

lemma from_hashes_secrets_only:
  assumes "pcs_key_from_hashes V kh oh c = (x, c')"
  shows "secrets_only c c'"
proof -
  have tail: "secrets_only c c'" if "(if b then sbind (pcs_key_from_tree_root V) (\<lambda>k.
      if pcs_hash V k = kh then ret k else derive_pcs_key_for_op V oh) else derive_pcs_key_for_op V oh) c = (x, c')" for b
    using that by (auto simp: ret_def split: if_splits elim!: sbind_secrets_only intro: tree_root_secrets_only derive_secrets_only)
  show ?thesis
    using assms unfolding pcs_key_from_hashes_def
    by (auto simp: sbind_def [of get_st] get_st_def sbind_def [of "lift_st _"] lift_st_def ret_def split: option.splits outcome.splits
        dest!: tail)
qed

lemma decryption_secrets_only:
  assumes "decryption_key_for V e c = (x, c')"
  shows "secrets_only c c'"
  using assms unfolding decryption_key_for_def
  by (elim sbind_secrets_only) (auto simp: ret_def modify_st_def intro: from_hashes_secrets_only)

section \<open>Steps of a replica\<close>

text \<open>The methods that create an operation. The tree an update starts from has to be well-formed.\<close>

inductive creates :: "('r, 'cr) cgka_env \<Rightarrow> cgka \<Rightarrow> signed_op \<Rightarrow> cgka \<Rightarrow> bool" for V where
  creates_add: "cgka_add V sg mid pk c = (Ok (Some op), c') \<Longrightarrow> creates V c op c'"
| creates_remove: "cgka_remove V sg mid c = (Ok (Some op), c') \<Longrightarrow> creates V c op c'"
| creates_update: "cgka_update V sg pk sk (c, r) = (Ok (pcs, op), (c', r')) \<Longrightarrow>
    (\<And>c1. maybe_replay V c = (Ok (), c1) \<Longrightarrow> \<exists>d. bk_wf d (cg_tree c1)) \<Longrightarrow> creates V c op c'"
| creates_secret: "new_app_secret_for V sg ref content refs (c, r) = (Ok (secret, Some op), (c', r')) \<Longrightarrow>
    (\<And>c1. maybe_replay V c = (Ok (), c1) \<Longrightarrow> \<exists>d. bk_wf d (cg_tree c1)) \<Longrightarrow> creates V c op c'"

text \<open>The methods that leave the tree and the graph as they are.\<close>

inductive keeps :: "('r, 'cr) cgka_env \<Rightarrow> cgka \<Rightarrow> cgka \<Rightarrow> bool" for V where
  keeps_owner: "with_new_owner mid sks c = Ok c' \<Longrightarrow> keeps V c c'"
| keeps_decrypt: "decryption_key_for V e c = (x, c') \<Longrightarrow> keeps V c c'"
| keeps_secret: "new_app_secret_for V sg ref content refs (c, r) = (Ok (secret, None), (c', r')) \<Longrightarrow> keeps V c c'"
| keeps_add: "cgka_add V sg mid pk c = (Ok None, c') \<Longrightarrow> keeps V c c'"
| keeps_remove: "cgka_remove V sg mid c = (Ok None, c') \<Longrightarrow> keeps V c c'"
| keeps_merge: "merge_concurrent_operation V op c = (Ok False, c') \<Longrightarrow> keeps V c c'"

lemma new_app_secret_update:
  assumes "new_app_secret_for V sg ref content refs (c, r) = (Ok (secret, Some op), (c', r'))"
  shows "\<exists>sk r1 pcs c1. cgka_update V sg (share_key (env_crypto V) sk) sk (c, r1) = (Ok (pcs, op), (c1, r')) \<and> secrets_only c1 c'"
  using assms unfolding new_app_secret_for_def
  by (auto simp: outcome_simps with_rng_eq_Ok Let_def split: if_splits prod.splits) (metis secrets_only_insert)

lemma creates_sync:
  assumes "creates V c op c'" "iterates (env_iter V)" "synced V S c" "op_hash V op \<notin> op_hash V ` S"
  shows "synced V (insert op S) c' \<and> on_heads (op_hash V) S op"
  using assms
proof cases
  case creates_add
  then show ?thesis using add_sync assms by blast
next
  case creates_remove
  then show ?thesis using remove_sync assms by blast
next
  case (creates_update sg pk sk r pcs r')
  then show ?thesis by (intro update_sync [OF assms(2,3) _ _ assms(4)])
next
  case (creates_secret sg ref content refs r secret r')
  obtain sk r1 pcs c1 where "cgka_update V sg (share_key (env_crypto V) sk) sk (c, r1) = (Ok (pcs, op), (c1, r'))" "secrets_only c1 c'"
    using new_app_secret_update [OF creates_secret(1)] by blast
  then show ?thesis using update_sync [OF assms(2,3) _ creates_secret(2) assms(4)] secrets_only_synced by blast
qed

lemma keeps_sync:
  assumes "keeps V c c'" "synced V S c"
  shows "synced V S c'"
proof (rule secrets_only_synced [OF assms(2)])
  show "secrets_only c c'"
    using assms(1)
  proof cases
    case keeps_owner
    then show ?thesis by (auto simp: with_new_owner_def secrets_only_def same_origin_def)
  next
    case keeps_decrypt
    then show ?thesis by (rule decryption_secrets_only)
  next
    case keeps_secret
    then show ?thesis unfolding new_app_secret_for_def
      by (auto simp: outcome_simps with_rng_eq_Ok Let_def split: if_splits prod.splits dest: tree_root_secrets_only)
  next
    case keeps_add
    then show ?thesis by (auto simp: cgka_add_def local_steps Let_def split: if_splits)
  next
    case keeps_remove
    then show ?thesis by (auto simp: cgka_remove_def local_steps Let_def split: if_splits)
  next
    case keeps_merge
    then show ?thesis by (auto simp: merge_concurrent_operation_def local_steps Let_def split: if_splits)
  qed
qed

lemma epochs_from_alone: "epochs_from {k} {} {} [] = [[k]]"
proof -
  have "ready_at {k} {} {} = {k}" "ready_at {k} {} {k} = {}" "open_at {} {k} = {k}"
    by (auto simp: ready_at_def open_at_def)
  then show ?thesis
    by (subst epochs_from.simps) (simp add: Let_def close_epoch_def epochs_from.simps [of "{k}" "{}" "{k}" "[]"])
qed

lemma new_sync:
  assumes it: "iterates (env_iter V)" and ok: "new_from_init_add V doc mid pk init = Ok c"
    and init: "sg_payload init = init_add doc mid pk"
  shows "synced V {init} c"
proof -
  let ?h = "op_hash V"
  have p: "preds init = {}" "add_preds init = {}" using init by (simp_all add: init_add_def add_predecessors_def)
  obtain t where t: "beekem_new doc mid pk = Ok t" and c: "cg_tree c = t" "cg_doc_id c = doc" "cg_original_member c = (mid, pk)"
      "cg_init_add_op c = init" "add_local_op ?h init graph_new = (Ok (cg_ops_graph c) :: op_graph cgka_result)"
    using ok by (auto simp: new_from_init_add_def outcome_simps Let_def)
  have S: "causal_set ?h {init}" using causal_insert [OF causal_empty, of ?h init] p by simp
  have g: "represents ?h {init} (cg_ops_graph c)"
    using represents_added [OF causal_empty represents_new, of ?h init] p c(5)
    by (simp add: add_local_op_eq graph_new_def)
  have root: "one_root {init}" by (simp add: one_root_def)
  have "topsort_graph (env_iter V) (cg_ops_graph c) = Ok [[init]]"
    using topsort_graph_eq(1) [OF it S _ g root] represents_preds(5) [OF S g] p
    by (simp add: causes_def epochs_from_alone)
  moreover have "core_epochs V [[init]] (t, cg_ops_graph c) = (Ok (), (t, cg_ops_graph c))"
    using represents_contains(1) [OF g] by (simp add: core_epochs_def core_epoch_def core_op_def sbind_def)
  ultimately have "in_sync V c"
    using t c by (simp add: in_sync_def replay_tree_def run_st_def)
  then show ?thesis using S g root init c by (simp add: synced_def)
qed

section \<open>A network of replicas\<close>

text \<open>
  The replicas of a group, each with the operations it knows, and all operations created so far.
  A replica is created from the first operation; it creates operations, uses its secrets, and
  merges any operation created anywhere in any order that \<open>merge_concurrent_operation\<close> accepts.
  Every replica has its own hash iteration order \<open>it i\<close>.
\<close>

abbreviation env_of :: "('r, 'cr) cgka_env \<Rightarrow> ('i \<Rightarrow> digest set \<Rightarrow> digest list) \<Rightarrow> 'i \<Rightarrow> ('r, 'cr) cgka_env" where
  "env_of V it i \<equiv> V\<lparr> env_iter := it i \<rparr>"

inductive network ::
    "('r, 'cr) cgka_env \<Rightarrow> ('i \<Rightarrow> digest set \<Rightarrow> digest list) \<Rightarrow> signed_op \<Rightarrow> ('i \<rightharpoonup> cgka \<times> signed_op set) \<Rightarrow> signed_op set \<Rightarrow> bool"
  for V it init where
  net_empty: "sg_payload init = init_add doc mid pk \<Longrightarrow> network V it init Map.empty {init}"
| net_join: "network V it init N G \<Longrightarrow> sg_payload init = init_add doc mid pk \<Longrightarrow>
    new_from_init_add (env_of V it i) doc mid pk init = Ok c \<Longrightarrow> network V it init (N(i \<mapsto> (c, {init}))) G"
| net_create: "network V it init N G \<Longrightarrow> N i = Some (c, S) \<Longrightarrow> creates (env_of V it i) c op c' \<Longrightarrow>
    op_hash V op \<notin> op_hash V ` G \<Longrightarrow> network V it init (N(i \<mapsto> (c', insert op S))) (insert op G)"
| net_keep: "network V it init N G \<Longrightarrow> N i = Some (c, S) \<Longrightarrow> keeps (env_of V it i) c c' \<Longrightarrow>
    network V it init (N(i \<mapsto> (c', S))) G"
| net_receive: "network V it init N G \<Longrightarrow> N i = Some (c, S) \<Longrightarrow> op \<in> G \<Longrightarrow>
    merge_concurrent_operation (env_of V it i) op c = (Ok b, c') \<Longrightarrow> network V it init (N(i \<mapsto> (c', insert op S))) G"

lemma op_hash_env [simp]: "op_hash (V\<lparr> env_iter := f \<rparr>) = op_hash V"
  by (rule ext) (simp add: op_hash_def)

lemma replay_tree_env [simp]: "replay_tree (V\<lparr> env_iter := f \<rparr>) = replay_tree V"
proof -
  have "core_op (V\<lparr> env_iter := f \<rparr>) = core_op V" by (rule ext) (unfold core_op_def op_hash_env, rule refl)
  then have "core_epoch (V\<lparr> env_iter := f \<rparr>) = core_epoch V" by (intro ext) (simp add: core_epoch_def)
  then have "core_epochs (V\<lparr> env_iter := f \<rparr>) = core_epochs V" by (intro ext) (simp add: core_epochs_def)
  then show ?thesis by (intro ext) (simp add: replay_tree_def)
qed

text \<open>What all operations ever created satisfy: each was created on top of the heads of some replica.\<close>

definition grown :: "(signed_op \<Rightarrow> digest) \<Rightarrow> signed_op \<Rightarrow> signed_op set \<Rightarrow> bool" where
  "grown h init G \<longleftrightarrow> causal_set h G \<and> init \<in> G \<and> preds init = {} \<and> one_root G \<and>
     (\<forall>op \<in> G. op \<noteq> init \<longrightarrow> irredundant h G op \<and> (\<forall>p \<in> add_preds op. (p, h op) \<in> (causes h G)\<^sup>+))"

lemma causes_mono: "S \<subseteq> G \<Longrightarrow> causes h S \<subseteq> causes h G"
  by (auto simp: causes_def)

lemma ancestors_stay:
  assumes G: "causal_set h G" and S: "causal_set h S" "S \<subseteq> G" and path: "(p, k) \<in> (causes h G)\<^sup>+" and k: "k \<in> h ` S"
  shows "(p, k) \<in> (causes h S)\<^sup>+"
  using path k
proof (induction rule: trancl.induct)
  case (r_into_trancl p k)
  then obtain a b where "a \<in> G" "b \<in> S" "k = h a" "k = h b" "p \<in> preds a" by (auto simp: causes_def)
  moreover then have "a = b" using causal_setD(2) [OF G] S(2) by (meson inj_onD subsetD)
  ultimately show ?case by (auto simp: causes_def)
next
  case (trancl_into_trancl p q k)
  then obtain a b where "a \<in> G" "b \<in> S" "k = h a" "k = h b" "q \<in> preds a" by (auto simp: causes_def)
  moreover then have "a = b" using causal_setD(2) [OF G] S(2) by (meson inj_onD subsetD)
  ultimately have "(q, k) \<in> causes h S" "q \<in> h ` S" using causal_setD(3) [OF S(1)] by (auto simp: causes_def)
  then show ?case using trancl_into_trancl.IH by (meson trancl.trancl_into_trancl)
qed

lemma old_paths:
  assumes G: "causal_set h G" and new: "h op \<notin> h ` G" and path: "(p, q) \<in> (causes h (insert op G))\<^sup>+" and q: "q \<noteq> h op"
  shows "(p, q) \<in> (causes h G)\<^sup>+"
  using path q
proof (induction rule: trancl.induct)
  case (r_into_trancl p q)
  then show ?case by (auto simp: causes_insert)
next
  case (trancl_into_trancl p q r)
  then have qr: "(q, r) \<in> causes h G" by (auto simp: causes_insert)
  then have "q \<noteq> h op" using causes_Range [OF G] new by auto
  then show ?case using trancl_into_trancl.IH qr by (meson trancl.trancl_into_trancl)
qed

lemma grown_create:
  assumes G: "grown h init G" and S: "causal_set h S" "S \<subseteq> G" "represents h S g" "S \<noteq> {}" and op: "on_heads h S op" "h op \<notin> h ` G"
  shows "grown h init (insert op G)"
proof -
  have D: "causal_set h G" "init \<in> G" "one_root G" "preds init = {}"
    and old: "\<And>a. a \<in> G \<Longrightarrow> a \<noteq> init \<Longrightarrow> irredundant h G a \<and> (\<forall>p \<in> add_preds a. (p, h a) \<in> (causes h G)\<^sup>+)"
    using G by (auto simp: grown_def)
  have p: "preds op = h ` S - \<Union> (preds ` S)" "add_preds op \<subseteq> h ` S" using op(1) by (auto simp: on_heads_def)
  have anc: "\<exists>q \<in> preds op. (k, q) \<in> (causes h S)\<^sup>*" if "k \<in> h ` S" for k
    using all_ancestors [OF S(1,3), of "preds op"] that p(1)
    by (auto simp: ancestors_of_def representsD(3) [OF S(3)] represents_preds(2) [OF S(1,3)])
  have sub: "preds op \<subseteq> h ` G" "add_preds op \<subseteq> h ` G" using p S(2) by blast+
  have ne: "preds op \<noteq> {}" using anc S(4) by blast
  have C: "causal_set h (insert op G)" by (rule causal_insert [OF D(1) op(2) sub])
  have mono: "(a, b) \<in> (causes h (insert op G))\<^sup>+" if "(a, b) \<in> (causes h G)\<^sup>+" for a b
    using that causes_mono [of G "insert op G" h] by (meson subset_insertI trancl_mono)
  have irr: "irredundant h (insert op G) op"
  proof -
    have "(a, b) \<notin> (causes h (insert op G))\<^sup>+" if "a \<in> preds op" "b \<in> preds op" for a b
    proof
      assume "(a, b) \<in> (causes h (insert op G))\<^sup>+"
      moreover have "b \<noteq> h op" "b \<in> h ` S" using that sub op(2) p by blast+
      ultimately have "(a, b) \<in> (causes h S)\<^sup>+"
        using old_paths [OF D(1) op(2)] ancestors_stay [OF D(1) S(1,2)] by blast
      then obtain c where "(a, c) \<in> causes h S" by (meson tranclD)
      then show False using that(1) p(1) by (auto simp: causes_def)
    qed
    then show ?thesis using ne by (simp add: irredundant_def)
  qed
  have "(k, h op) \<in> (causes h (insert op G))\<^sup>+" if k: "k \<in> add_preds op" for k
  proof -
    obtain q where q: "q \<in> preds op" "(k, q) \<in> (causes h S)\<^sup>*" using anc [of k] k p(2) by blast
    have "causes h S \<subseteq> causes h (insert op G)" using S(2) by (intro causes_mono) blast
    then have "(k, q) \<in> (causes h (insert op G))\<^sup>*" using q(2) by (meson rtrancl_mono subsetD)
    moreover have "(q, h op) \<in> causes h (insert op G)" using q(1) by (simp add: causes_insert)
    ultimately show ?thesis by (rule rtrancl_into_trancl1)
  qed
  moreover have "irredundant h (insert op G) a" if "a \<in> G" "a \<noteq> init" for a
    using old [OF that] causal_setD(3) [OF D(1) that(1)] op(2) old_paths [OF D(1) op(2)] unfolding irredundant_def by blast
  moreover have "one_root (insert op G)" using D(3) ne by (auto simp: one_root_def)
  ultimately show ?thesis using C D(2,4) irr old mono unfolding grown_def by blast
qed

definition sound_network ::
    "('r, 'cr) cgka_env \<Rightarrow> ('i \<Rightarrow> digest set \<Rightarrow> digest list) \<Rightarrow> ('i \<rightharpoonup> cgka \<times> signed_op set) \<Rightarrow> signed_op set \<Rightarrow> bool" where
  "sound_network V it N G \<longleftrightarrow> (\<forall>i c S. N i = Some (c, S) \<longrightarrow> synced (env_of V it i) S c \<and> S \<subseteq> G)"

lemma sound_networkD: "sound_network V it N G \<Longrightarrow> N i = Some (c, S) \<Longrightarrow> synced (env_of V it i) S c \<and> S \<subseteq> G"
  by (simp add: sound_network_def)

lemma sound_network_upd:
  assumes "sound_network V it N G" "synced (env_of V it i) S c" "S \<subseteq> G'" "G \<subseteq> G'"
  shows "sound_network V it (N(i \<mapsto> (c, S))) G'"
  using assms unfolding sound_network_def by (metis Pair_inject fun_upd_apply option.inject subset_trans)

lemma receive_sync:
  assumes it: "iterates (it i)" and G: "grown (op_hash V) init G" and c: "synced (env_of V it i) S c" "S \<subseteq> G"
    and op: "op \<in> G" "merge_concurrent_operation (env_of V it i) op c = (Ok b, c')"
  shows "synced (env_of V it i) (insert op S) c'"
proof -
  let ?h = "op_hash V"
  note D = syncedD [OF c(1), simplified]
  have G': "causal_set ?h G" "init \<in> G" "one_root G" "preds init = {}" using G by (auto simp: grown_def)
  have same: "op \<in> S" if "?h op \<in> ?h ` S" using that causal_setD(2) [OF G'(1)] c(2) op(1) by (auto dest: inj_onD)
  show ?thesis
  proof (cases "op \<in> S")
    case True
    then have "c' = c" using op(2) represents_contains(1) [OF D(3)] by (simp add: merge_concurrent_operation_def)
    then show ?thesis using True c(1) by (simp add: insert_absorb)
  next
    case False
    then have new: "\<not> contains_op_hash (cg_ops_graph c) (?h op)" using same represents_contains(1) [OF D(3)] by blast
    have "preds (cg_init_add_op c) = {}" using D(5) by (simp add: init_add_def)
    then have "init = cg_init_add_op c" using G'(2,3,4) D(4) c(2) unfolding one_root_def by blast
    then have "op \<noteq> init" using False D(4) by blast
    then have facts: "irredundant ?h G op" "\<And>p. p \<in> add_preds op \<Longrightarrow> (p, ?h op) \<in> (causes ?h G)\<^sup>+"
      using G op(1) by (auto simp: grown_def)
    have sub: "preds op \<subseteq> ?h ` S"
      using op(2) new represents_contains(2) [OF D(3)] by (auto simp: merge_concurrent_operation_def Let_def split: if_splits)
    have irr: "irredundant ?h S op"
      using facts(1) trancl_mono [OF _ causes_mono [OF c(2)]] unfolding irredundant_def by blast
    have "add_preds op \<subseteq> ?h ` S"
    proof
      fix p assume "p \<in> add_preds op"
      then obtain q where "(p, q) \<in> (causes ?h G)\<^sup>*" "(q, ?h op) \<in> causes ?h G" using facts(2) by (meson tranclD2)
      then have q: "(p, q) \<in> (causes ?h G)\<^sup>*" "q \<in> ?h ` S"
        using sub causal_setD(2) [OF G'(1)] op(1) by (auto simp: causes_def dest: inj_onD)
      show "p \<in> ?h ` S"
      proof (cases "p = q")
        case False
        then have "(p, q) \<in> (causes ?h S)\<^sup>+" using q ancestors_stay [OF G'(1) D(1) c(2)] by (simp add: rtrancl_eq_or_trancl)
        then show ?thesis using causes_Range [OF D(1)] by (blast dest: tranclD)
      qed (use q(2) in simp)
    qed
    then show ?thesis using merge_sync [of "env_of V it i", simplified, OF it c(1) op(2)] same irr by simp
  qed
qed

lemma network_sound:
  assumes net: "network V it init N G" and it: "\<And>i. iterates (it i)"
  shows "grown (op_hash V) init G \<and> sound_network V it N G"
  using net
proof induction
  case (net_empty doc mid pk)
  have p: "preds init = {}" "add_preds init = {}" using net_empty by (simp_all add: init_add_def add_predecessors_def)
  then have "causal_set (op_hash V) {init}" using causal_insert [OF causal_empty, of "op_hash V" init] by simp
  then show ?case using p by (simp add: grown_def one_root_def sound_network_def)
next
  case (net_join N G doc mid pk i c)
  then have "synced (env_of V it i) {init} c" using it by (intro new_sync) simp_all
  moreover have "{init} \<subseteq> G" using net_join.IH by (simp add: grown_def)
  ultimately show ?case using net_join.IH by (blast intro: sound_network_upd)
next
  case (net_create N G i c S op c')
  have c: "synced (env_of V it i) S c" "S \<subseteq> G" using sound_networkD net_create by metis+
  have "op_hash V op \<notin> op_hash V ` S" using net_create.hyps(4) c(2) by blast
  then have c': "synced (env_of V it i) (insert op S) c'" "on_heads (op_hash V) S op"
    using creates_sync [OF net_create.hyps(3) _ c(1)] it by simp_all
  note D = syncedD [OF c(1), simplified]
  have "grown (op_hash V) init (insert op G)"
    using net_create.IH grown_create [OF _ D(1) c(2) D(3,6) c'(2) net_create.hyps(4)] by blast
  moreover have "sound_network V it (N(i \<mapsto> (c', insert op S))) (insert op G)"
    using net_create.IH c(2) by (intro sound_network_upd [where G = G]) (use c'(1) in auto)
  ultimately show ?case by blast
next
  case (net_keep N G i c S c')
  have c: "synced (env_of V it i) S c" "S \<subseteq> G" using sound_networkD net_keep by metis+
  have "synced (env_of V it i) S c'" by (rule keeps_sync [OF net_keep.hyps(3) c(1)])
  then show ?case using net_keep.IH c(2) by (blast intro: sound_network_upd)
next
  case (net_receive N G i c S op b c')
  have c: "synced (env_of V it i) S c" "S \<subseteq> G" using sound_networkD net_receive by metis+
  have "synced (env_of V it i) (insert op S) c'"
    using receive_sync [where it = it and i = i, OF it _ c net_receive.hyps(3,4)] net_receive.IH by blast
  then show ?case using net_receive.IH net_receive.hyps(3) c(2) by (blast intro: sound_network_upd)
qed

lemma synced_agree:
  assumes it: "iterates (it i)" "iterates (it j)" and G: "one_root S"
    and c: "synced (env_of V it i) S c" "synced (env_of V it j) S c'"
  shows "cg_ops_graph c' = cg_ops_graph c" "same_origin c c'"
    "in_sync (env_of V it i) c \<Longrightarrow> in_sync (env_of V it j) c' \<Longrightarrow> cg_tree c' = cg_tree c"
proof -
  note D = syncedD [OF c(1), simplified] and D' = syncedD [OF c(2), simplified]
  show g: "cg_ops_graph c' = cg_ops_graph c" by (rule represents_unique [OF D'(3) D(3)])
  have "cg_init_add_op c' = cg_init_add_op c"
    using G D(4,5) D'(4,5) unfolding one_root_def by (auto simp: init_add_def)
  then show o: "same_origin c c'" using D(5) D'(5) by (simp add: same_origin_def init_add_def prod_eq_iff)
  show "cg_tree c' = cg_tree c" if "in_sync (env_of V it i) c" "in_sync (env_of V it j) c'"
    using that topsort_graph_eq(1) [OF it(1) D(1,6,3,2)] topsort_graph_eq(1) [OF it(2) D(1,6,3,2)] g o
    by (simp add: in_sync_def same_origin_def)
qed

section \<open>Two removals of the same member\<close>

lemma blank_path_loop_ids: "blank_path_loop n idx t = Ok t' \<Longrightarrow> bk_id_to_leaf_idx t' = bk_id_to_leaf_idx t"
  by (induction n arbitrary: idx t; subst (asm) blank_path_loop.simps)
    (auto simp: outcome_simps blank_inner_node_def split: if_splits)

lemma blank_path_ids: "blank_path idx t = Ok t' \<Longrightarrow> bk_id_to_leaf_idx t' = bk_id_to_leaf_idx t"
  unfolding blank_path_def by (rule blank_path_loop_ids)

lemma collect_tombstones_ids: "collect_tombstones n t = Ok t' \<Longrightarrow> bk_id_to_leaf_idx t' = bk_id_to_leaf_idx t"
proof (induction n arbitrary: t)
  case 0
  then show ?case by (subst (asm) collect_tombstones.simps) (auto simp: outcome_simps split: if_splits)
next
  case (Suc n)
  from Suc.prems show ?case
    by (subst (asm) collect_tombstones.simps) (auto simp: outcome_simps split: if_splits dest!: Suc.IH blank_path_ids)
qed

lemma remove_id_twice:
  assumes "remove_id mid t = (Ok x, t')"
  shows "remove_id mid t' \<noteq> (Ok y, t2)"
proof -
  have "bk_id_to_leaf_idx t' mid = None"
    using assms by (auto simp: remove_id_def outcome_simps blank_leaf_and_path_def Let_def split: if_splits
        dest!: collect_tombstones_ids blank_path_ids)
  then have "leaf_index_for_id t' mid = Err IdentifierNotFound" by (simp add: leaf_index_for_id_def)
  then show ?thesis by (simp add: remove_id_def outcome_simps)
qed

lemma causes_fork:
  assumes "preds a = {z}" "preds b = {z}"
  shows "causes h (insert a (insert b S)) = causes h S \<union> {z} \<times> {h a, h b}"
  using assms by (auto simp: causes_insert)

lemma topsort_graph_fork:
  assumes it: "iterates iter" and S: "causal_set h S" "S \<noteq> {}" and g: "represents h S g" and root: "one_root S"
    and z: "cgka_op_heads g = {z}" and ab: "on_heads h S a" "on_heads h S b" "h a \<notin> h ` S" "h b \<notin> h ` S" "h a < h b"
    and g': "represents h (insert a (insert b S)) g'" and es: "topsort_graph iter g = Ok es"
  shows "topsort_graph iter g' = Ok (es @ [[a, b]])"
proof -
  let ?S = "insert a (insert b S)" and ?X = "{h a, h b}"
  note top = topsort_graph_eq [OF it S g root]
  have heads: "h ` S - \<Union> (preds ` S) = {z}" using z by (simp add: representsD(3) [OF g])
  then have p: "preds a = {z}" "preds b = {z}" "add_preds a \<subseteq> h ` S" "add_preds b \<subseteq> h ` S"
    using ab(1,2) by (auto simp: on_heads_def)
  have zS: "z \<in> h ` S" using heads by blast
  have Sb: "causal_set h (insert b S)" using S(1) ab(4) p zS by (intro causal_insert) auto
  have S': "causal_set h ?S" using ab(3,5) p zS by (intro causal_insert [OF Sb]) auto
  have root': "one_root ?S" using root p by (auto simp: one_root_def)
  have sink: "{k \<in> h ` S. causes h S `` {k} = {}} = {z}"
  proof -
    have "causes h S `` {k} = {} \<longleftrightarrow> k \<notin> \<Union> (preds ` S)" for k by (auto simp: causes_def)
    then have "{k \<in> h ` S. causes h S `` {k} = {}} = h ` S - \<Union> (preds ` S)" by auto
    then show ?thesis using heads by simp
  qed
  have X: "?X \<inter> h ` S = {}" "finite ?X" "2 \<le> card ?X" "sorted_list_of_set ?X = [h a, h b]" using ab(3,4,5) by auto
  have "epochs_from (h ` S \<union> ?X) (causes h S \<union> {z} \<times> ?X) {} [] = epochs_from (h ` S) (causes h S) {} [] @ [sorted_list_of_set ?X]"
    by (rule epochs_from_fork [OF top(2) _ _ sink X(1-3)]) (simp_all add: down_closed_def)
  moreover have "h ` ?S = h ` S \<union> ?X" by auto
  ultimately have ep: "epochs_from (h ` ?S) (causes h ?S) {} [] = epochs_from (h ` S) (causes h S) {} [] @ [[h a, h b]]"
    using causes_fork [OF p(1,2), of h S] X(4) by simp
  have at: "op_at g' (h op) = op" if "op \<in> ?S" for op using that represents_preds(5) [OF S' g'] by auto
  have "set (concat (epochs_from (h ` S) (causes h S) {} [])) = h ` S"
    using epochs_from_ordered [OF top(2), of "{}" "[]"] by (simp add: down_closed_def)
  moreover have "op_at g' k = op_at g k" if "k \<in> h ` S" for k using that at represents_preds(5) [OF S(1) g] by auto
  ultimately have "map (map (op_at g')) (epochs_from (h ` S) (causes h S) {} []) = es"
    using top(1) es by (auto intro!: list.map_cong0)
  then show ?thesis using topsort_graph_eq(1) [OF it S' _ g' root'] ep at by simp
qed

lemma core_epoch_two_removes:
  assumes "is_Remove (sg_payload a)" "is_Remove (sg_payload b)" "removed_id (sg_payload a) = removed_id (sg_payload b)"
    and "\<not> contains_op_hash (snd s) (op_hash V a)" "\<not> contains_op_hash (snd s) (op_hash V b)" "op_hash V a \<noteq> op_hash V b"
  shows "core_epoch V [a, b] s \<noteq> (Ok x, s')"
proof
  assume ok: "core_epoch V [a, b] s = (Ok x, s')"
  have "\<not> is_Update (sg_payload a)" using assms(1) by (cases "sg_payload a") auto
  then obtain s1 s2 where s1: "core_op V a s = (Ok (), s1)" and s2: "core_op V b s1 = (Ok (), s2)"
    using ok by (auto simp: core_epoch_def outcome_simps Let_def)
  let ?id = "removed_id (sg_payload a)"
  obtain y t1 where t1: "remove_id ?id (fst s) = (Ok y, t1)" "fst s1 = t1"
      "snd s1 = graph_added (op_hash V) a (preds a) (add_preds a) (snd s)"
    using s1 assms(1,4) by (cases "sg_payload a")
      (auto simp: core_op_def tree_apply_def sbind_def ret_def split: prod.splits outcome.splits if_splits)
  have "\<not> contains_op_hash (snd s1) (op_hash V b)"
    using assms(5,6) t1(3) by (simp add: graph_added_def contains_op_hash_def ca_contains_key_def)
  then obtain z t2 where "remove_id ?id t1 = (Ok z, t2)"
    using s2 assms(2,3) t1(2) by (cases "sg_payload b")
      (auto simp: core_op_def tree_apply_def sbind_def ret_def split: prod.splits outcome.splits if_splits)
  then show False using remove_id_twice [OF t1(1)] by blast
qed

lemma replay_two_removes:
  assumes it: "iterates (env_iter V)" and inv: "synced V S c" and g: "represents (op_hash V) S g" "cgka_op_heads g = {z}"
    and ab: "on_heads (op_hash V) S a" "on_heads (op_hash V) S b" "op_hash V a \<notin> op_hash V ` S" "op_hash V b \<notin> op_hash V ` S"
      "op_hash V a < op_hash V b"
    and rm: "is_Remove (sg_payload a)" "is_Remove (sg_payload b)" "removed_id (sg_payload a) = removed_id (sg_payload b)"
    and c': "represents (op_hash V) (insert a (insert b S)) (cg_ops_graph c')" "cg_init_add_op c' \<in> S"
  shows "replay_ops_graph V c' \<noteq> (Ok x, c2)"
proof
  note D = syncedD [OF inv]
  assume ok: "replay_ops_graph V c' = (Ok x, c2)"
  note eq = topsort_graph_eq [OF it D(1,6) g(1) D(2)]
  let ?E = "epochs_from (op_hash V ` S) (causes (op_hash V) S) {} []"
  let ?es = "map (map (op_at g)) ?E"
  have top: "topsort_graph (env_iter V) (cg_ops_graph c') = (Ok (?es @ [[a, b]]) :: cgka_epoch list cgka_result)"
    by (rule topsort_graph_fork [OF it D(1,6) g(1) D(2) g(2) ab c'(1) eq(1)])
  then obtain rb where "rebuild_cgka V c' (?es @ [[a, b]]) = Ok rb"
    using ok by (auto simp: replay_ops_graph_def outcome_simps)
  from rebuild_cgka_tree [OF this] obtain t0 g0 s1 s2 where g0: "add_local_op (op_hash V) (cg_init_add_op c') graph_new = (Ok g0 :: op_graph cgka_result)"
    and s1: "core_epochs V ?es (t0, g0) = (Ok (), s1)" and s2: "core_epoch V [a, b] s1 = (Ok (), s2)"
    by (auto simp: replay_tree_def outcome_simps core_epochs_def for_st_append)
  have E: "set (concat ?E) = op_hash V ` S" "[] \<notin> set ?E"
    using epochs_from_ordered [OF eq(2), of "{}" "[]"] by (simp_all add: down_closed_def)
  have es: "set (concat ?es) \<subseteq> S" "[] \<notin> set ?es" using map_hash_epochs(2) [OF D(1) g(1), of ?E] E by auto
  have "dom (cgka_ops g0) \<subseteq> op_hash V ` S"
    using g0 c'(2) by (auto simp: add_local_op_eq graph_added_def graph_new_def ca_new_def split: if_splits)
  then have "dom (cgka_ops (snd s1)) \<subseteq> op_hash V ` S"
    using core_epochs_dom [OF s1 es(2)] image_mono [OF es(1), of "op_hash V"] unfolding snd_conv by blast
  then have "\<not> contains_op_hash (snd s1) (op_hash V a)" "\<not> contains_op_hash (snd s1) (op_hash V b)"
    using ab(3,4) by (auto simp: contains_op_hash_def ca_contains_key_def)
  then show False using core_epoch_two_removes [OF rm] less_imp_neq [OF ab(5)] s2 by blast
qed

lemma cgka_remove_payload:
  "cgka_remove V sg mid c = (Ok (Some op), c') \<Longrightarrow> is_Remove (sg_payload op) \<and> removed_id (sg_payload op) = mid"
  by (auto simp: cgka_remove_def local_steps Let_def split: if_splits dest!: sign_op_Ok)

lemma stuck_methods:
  assumes "\<And>x c2. maybe_replay V c \<noteq> (Ok x, c2)"
  shows "cgka_add V sg mid pk c \<noteq> (Ok (Some op), c2)" "cgka_remove V sg mid c \<noteq> (Ok (Some op), c2)"
    "cgka_update V sg pk sk (c, r) \<noteq> (Ok y, s)"
  using assms unfolding cgka_add_def cgka_remove_def cgka_update_def
  by (cases s; auto simp: local_steps with_rng_eq_Ok Let_def split: if_splits)+

end
