(* ===== verification/Cgka_Props.thy ===== *)
theory Cgka_Props
  imports Cgka_Run
begin

text \<open>
  The properties of the CGKA: convergence of replicas, idempotence of merging, what an encrypter
  can decrypt, and the situations in which the code gives up. The first section is a concrete
  group of two members, on which the witnesses run the methods.
\<close>

section \<open>A group of two\<close>

definition demo_env :: "(nat, nat) cgka_env" where
  "demo_env = \<lparr> env_crypto = demo_crypto, env_bincode = demo_bincode,
     env_ser_op = (\<lambda>op. Some (case op of Add _ _ i _ _ _ \<Rightarrow> [1, of_nat i] | Remove _ _ _ _ _ \<Rightarrow> [2] | Update _ _ _ _ \<Rightarrow> [3])),
     env_ser_signed = (\<lambda>op. sg_issuer op @ sg_signature op), env_ser_refs = (\<lambda>_. []), env_iter = sorted_list_of_set \<rparr>"

definition demo_signer :: "byte \<Rightarrow> signer" where
  "demo_signer k = \<lparr> signer_verifying_key = [k], try_sign_bytes = Ok \<rparr>"

definition demo_init :: signed_op where
  "demo_init = signed_new (init_add (TreeId [7]) (MemberId [0]) (PublicKey [10])) [0] [1, 0]"

definition demo_add :: signed_op where
  "demo_add = signed_new (Add (MemberId [1]) (PublicKey [11]) 1 [op_hash demo_env demo_init] [op_hash demo_env demo_init] (TreeId [7])) [0] [1, 1]"

lemma demo_hashes:
  "op_hash demo_env (signed_new p [a] sig) = Digest (take 32 (a # sig @ replicate 32 0))"
  by (simp add: op_hash_def demo_env_def signed_digest_def digest_hash_def demo_crypto_def signed_new_def)

definition demo_graph :: "op_graph" where
  "demo_graph = graph_added (op_hash demo_env) demo_init {} {} graph_new"

definition demo_start :: cgka where
  "demo_start = \<lparr> cg_doc_id = TreeId [7], cg_owner_id = MemberId [0], cg_owner_sks = share_key_map_new,
     cg_tree = pushed 1 (MemberId [0]) (ShareKey (PublicKey [10])) (empty_tree (TreeId [7])),
     cg_ops_graph = demo_graph, cg_pending_ops_for_structural_change = False, cg_pcs_keys = ca_new,
     cg_pcs_key_ops = Map.empty, cg_original_member = (MemberId [0], PublicKey [10]), cg_init_add_op = demo_init \<rparr>"

lemma demo_new:
  "new_from_init_add (demo_env\<lparr> env_iter := f \<rparr>) (TreeId [7]) (MemberId [0]) (PublicKey [10]) demo_init = Ok demo_start"
  by (simp add: new_from_init_add_def beekem_new_eq add_local_op_eq demo_start_def demo_graph_def graph_new_def Let_def)

lemma demo_graph_heads: "cgka_op_heads demo_graph = {op_hash demo_env demo_init}" "add_heads demo_graph = {op_hash demo_env demo_init}"
  by (simp_all add: demo_graph_def graph_added_def graph_new_def demo_init_def signed_new_def init_add_def)

definition demo_two :: cgka where
  "demo_two = demo_start\<lparr> cg_tree := demo_tree, cg_ops_graph :=
     graph_added (op_hash demo_env) demo_add {op_hash demo_env demo_init} {op_hash demo_env demo_init} demo_graph \<rparr>"

lemma demo_push: "push_leaf (MemberId [1]) (ShareKey (PublicKey [11])) (cg_tree demo_start) = Ok (demo_tree, 1)"
  using push_leaf_eq [OF beekem_new_wf, of "MemberId [0]" "ShareKey (PublicKey [10])" "TreeId [7]"]
  by (simp add: demo_start_def demo_tree_def pushed_def empty_tree_def)

lemma demo_start_no_replay: "\<not> should_replay demo_start"
  by (simp add: should_replay_def demo_start_def has_single_head_def demo_graph_heads)

lemma iter_single [simp]: "iterates f \<Longrightarrow> f {x} = [x]"
proof -
  assume "iterates f"
  then have "set (f {x}) = {x}" "distinct (f {x})" by (simp_all add: iterates_def)
  then show ?thesis by (cases "f {x}") (auto simp: subset_singleton_iff)
qed

lemma demo_start_fields [simp]:
  "cg_tree demo_start = pushed 1 (MemberId [0]) (ShareKey (PublicKey [10])) (empty_tree (TreeId [7]))"
  "cg_ops_graph demo_start = demo_graph" "cg_doc_id demo_start = TreeId [7]"
  by (simp_all add: demo_start_def)

lemma demo_sign:
  "sign_op (demo_env\<lparr> env_iter := f \<rparr>) (demo_signer k) p =
     Ok (signed_new p [k] (case p of Add _ _ i _ _ _ \<Rightarrow> [1, of_nat i] | Remove _ _ _ _ _ \<Rightarrow> [2] | Update _ _ _ _ \<Rightarrow> [3]))"
  by (simp add: sign_op_def try_sign_async_def demo_env_def demo_signer_def)

lemma demo_add_step:
  assumes "iterates f"
  shows "cgka_add (demo_env\<lparr> env_iter := f \<rparr>) (demo_signer 0) (MemberId [1]) (PublicKey [11]) demo_start = (Ok (Some demo_add), demo_two)"
proof -
  have "\<not> contains_id (cg_tree demo_start) (MemberId [1])" by (simp add: contains_id_def pushed_def empty_tree_def)
  then show ?thesis using assms demo_push demo_start_no_replay
    by (simp add: cgka_add_def maybe_replay_def sbind_def get_st_def ret_def at_tree_def demo_graph_heads demo_sign Let_def
        lift_st_def at_graph_def modify_st_def add_local_op_eq demo_add_def demo_two_def)
qed

lemma demo_hash_values:
  "op_hash demo_env demo_init = Digest (0 # 1 # replicate 30 0)" "op_hash demo_env demo_add = Digest (0 # 1 # 1 # replicate 29 0)"
  unfolding demo_init_def demo_add_def demo_hashes by (simp_all add: numeral_eq_Suc)

lemma demo_hashes_differ [simp]: "op_hash demo_env demo_add \<noteq> op_hash demo_env demo_init"
  by (simp add: demo_hash_values numeral_eq_Suc)

lemma demo_add_payload: "sg_payload demo_add = Add (MemberId [1]) (PublicKey [11]) 1 [op_hash demo_env demo_init]
    [op_hash demo_env demo_init] (TreeId [7])"
  by (simp add: demo_add_def signed_new_def)

lemma demo_merge_step:
  "merge_concurrent_operation (demo_env\<lparr> env_iter := f \<rparr>) demo_add (demo_start\<lparr> cg_owner_id := m, cg_owner_sks := k \<rparr>) =
     (Ok True, demo_two\<lparr> cg_owner_id := m, cg_owner_sks := k \<rparr>)"
proof -
  have "\<not> contains_op_hash demo_graph (op_hash demo_env demo_add)"
    by (simp add: demo_graph_def graph_added_def graph_new_def contains_op_hash_def ca_contains_key_def ca_new_def)
  moreover have "contains_predecessors demo_graph (predecessors (sg_payload demo_add))"
    "heads_contained_in demo_graph (predecessors (sg_payload demo_add))"
    by (simp_all add: demo_add_payload contains_predecessors_def heads_contained_in_def demo_graph_heads)
      (simp add: demo_graph_def graph_added_def ca_contains_key_def)
  moreover have "\<not> should_replay (demo_start\<lparr> cg_owner_id := m, cg_owner_sks := k \<rparr>)"
    using demo_start_no_replay by (simp add: should_replay_def)
  ultimately show ?thesis using demo_push
    by (simp add: merge_concurrent_operation_def maybe_replay_def sbind_def get_st_def ret_def apply_operation_def at_tree_def
        Let_def at_graph_def modify_st_def add_op_eq demo_add_payload tree_apply_def demo_two_def add_predecessors_def)
qed

definition demo_iter :: "nat \<Rightarrow> digest set \<Rightarrow> digest list" where
  "demo_iter i = (if i = 0 then sorted_list_of_set else rev \<circ> sorted_list_of_set)"

lemma iterates_demo: "iterates (demo_iter i)"
  by (simp add: demo_iter_def iterates_def)

definition demo_other :: cgka where
  "demo_other = demo_two\<lparr> cg_owner_id := MemberId [1], cg_owner_sks := share_key_map_new \<rparr>"

lemma demo_network:
  "network demo_env demo_iter demo_init [0 \<mapsto> (demo_two, {demo_add, demo_init}), 1 \<mapsto> (demo_other, {demo_add, demo_init})]
     {demo_add, demo_init}"
proof -
  let ?N = "network demo_env demo_iter demo_init" and ?other = "demo_start\<lparr> cg_owner_id := MemberId [1], cg_owner_sks := share_key_map_new \<rparr>"
  have p: "sg_payload demo_init = init_add (TreeId [7]) (MemberId [0]) (PublicKey [10])" by (simp add: demo_init_def signed_new_def)
  let ?s = "(demo_start, {demo_init})" and ?S = "{demo_add, demo_init}"
  have n1: "?N [0 \<mapsto> ?s] {demo_init}" by (rule net_join [OF net_empty [OF p] p demo_new])
  have n2: "?N [0 \<mapsto> ?s, 1 \<mapsto> ?s] {demo_init}" by (rule net_join [OF n1 p demo_new])
  have "keeps (env_of demo_env demo_iter 1) demo_start ?other" by (rule keeps_owner) (simp add: with_new_owner_def)
  then have n3: "?N [0 \<mapsto> ?s, 1 \<mapsto> (?other, {demo_init})] {demo_init}"
    using net_keep [OF n2, of 1 demo_start "{demo_init}"] by simp
  have n4: "?N [0 \<mapsto> (demo_two, ?S), 1 \<mapsto> (?other, {demo_init})] ?S"
    using net_create [OF n3, of 0 demo_start "{demo_init}" demo_add demo_two] creates_add [OF demo_add_step [OF iterates_demo]]
    by (simp add: fun_upd_twist)
  show ?thesis
    using net_receive [OF n4, of 1 ?other "{demo_init}" demo_add True demo_other] demo_merge_step by (simp add: demo_other_def)
qed

lemma demo_encrypt:
  assumes "sks (PublicKey bs) = Some (ShareSecretKey bs)"
  shows "\<exists>root P t' r'. encrypt_path demo_crypto (MemberId [0]) (PublicKey bs) sks (demo_tree, r) = (Ok (Some (PcsKey root, P)), (t', r')) \<and>
    apply_path P demo_tree = Ok t' \<and> has_root_key t' = Ok True \<and>
    fst (decrypt_tree_secret demo_crypto t' (MemberId [1]) [PublicKey [11] \<mapsto> ShareSecretKey [11]]) = Ok root"
proof -
  let ?sk = "ShareSecretKey bs" and ?i = "bk_id_to_leaf_idx demo_tree (MemberId [0])"
  let ?root = "ratchet_n_forward demo_crypto 1 ?sk" and ?sec = "updated_secrets demo_crypto 0 ?sk demo_sec"
  note K = demo_tree_keyed
  note shape = keyedD(2) [OF K] and single = keyed_others_single [OF keyedD(3) [OF K], of 0]
  have i: "?i = Some 0" by (simp add: demo_tree_ids)
  obtain S r' where enc: "encrypt_path demo_crypto (MemberId [0]) (share_key demo_crypto ?sk) sks (demo_tree, r) =
      (Ok (Some (PcsKey ?root, updated_path 1 (MemberId [0]) 0 (share_key demo_crypto ?sk) S demo_tree)),
       (updated_tree 1 (MemberId [0]) 0 (share_key demo_crypto ?sk) S demo_tree, r'))"
    and S: "\<forall>m < 1. path_store_ok demo_crypto demo_tree 0 0 ?sk m (S (Suc m))"
    using encrypt_path_eq [OF demo_crypto_laws shape single i, of sks ?sk r] assms by auto
  let ?t = "updated_tree 1 (MemberId [0]) 0 (share_key demo_crypto ?sk) S demo_tree"
  have K': "keyed demo_crypto 1 ?sec ?t" using S by (intro keyed_updated [OF keyedD(6) [OF K] shape single i]) simp
  have chained: "path_chained demo_crypto 1 ?sec ?t 0" by (rule keyedD(5) [OF K']) (simp add: updated_tree_def)
  then have "has_root_key ?t = Ok True" using has_root_key_wf [OF keyedD(2) [OF K']] by (auto simp: path_chained_def)
  moreover have "fst (decrypt_tree_secret demo_crypto ?t (MemberId [1]) [PublicKey [11] \<mapsto> ShareSecretKey [11]]) = Ok ?root"
  proof -
    have "bk_id_to_leaf_idx ?t (MemberId [1]) = Some 1"
      by (simp add: updated_tree_def loop_tree_def with_leaf_def demo_tree_ids)
    moreover have "\<not> node_skip ?t 1 0" using chained by (auto simp: path_chained_def)
    moreover have "?sec 0 1 = ShareSecretKey [11]" "?sec 1 0 = ?root" by (simp_all add: updated_secrets_def demo_sec_def)
    ultimately show ?thesis
      using decrypt_tree_secret_eq [OF demo_crypto_laws K' demo_distinct_keys, of "MemberId [1]" 1]
        demo_sound_keys [of 1 ?sec ?t "ShareSecretKey [11]"] by fastforce
  qed
  ultimately show ?thesis using enc encrypt_path_applies [OF demo_tree_wf enc] by auto
qed

lemma demo_two_fields [simp]:
  "cg_tree demo_two = demo_tree" "cg_owner_id demo_two = MemberId [0]" "cg_owner_sks demo_two = share_key_map_new"
  "cg_doc_id demo_two = TreeId [7]" "cg_pcs_keys demo_two = Map.empty" "cg_pcs_key_ops demo_two = Map.empty"
  by (simp_all add: demo_two_def demo_start_def ca_new_def)

lemma demo_two_heads: "cgka_op_heads (cg_ops_graph demo_two) = {op_hash demo_env demo_add}"
  by (simp add: demo_two_def graph_added_def demo_graph_heads)

lemma demo_two_no_replay: "\<not> should_replay demo_two"
  using demo_two_heads by (simp add: should_replay_def has_single_head_def) (simp add: demo_two_def demo_start_def)

lemma demo_update_step:
  "\<exists>root P t' r' c'. apply_path P demo_tree = Ok t' \<and> has_root_key t' = Ok True \<and>
    fst (decrypt_tree_secret demo_crypto t' (MemberId [1]) [PublicKey [11] \<mapsto> ShareSecretKey [11]]) = Ok root \<and>
    cgka_update demo_env (demo_signer 0) (PublicKey bs) (ShareSecretKey bs) (demo_two, r) =
      (Ok (PcsKey root, signed_new (Update (MemberId [0]) P [op_hash demo_env demo_add] (TreeId [7])) [0] [3]), (c', r'))"
proof -
  obtain root P t' r' where enc: "encrypt_path demo_crypto (MemberId [0]) (PublicKey bs)
      (share_key_map_insert (PublicKey bs) (ShareSecretKey bs) share_key_map_new) (demo_tree, r) = (Ok (Some (PcsKey root, P)), (t', r'))"
    and t': "apply_path P demo_tree = Ok t'" "has_root_key t' = Ok True"
      "fst (decrypt_tree_secret demo_crypto t' (MemberId [1]) [PublicKey [11] \<mapsto> ShareSecretKey [11]]) = Ok root"
    using demo_encrypt [of "share_key_map_insert (PublicKey bs) (ShareSecretKey bs) share_key_map_new" bs r]
    by (auto simp: share_key_map_insert_def)
  have V: "demo_env\<lparr> env_iter := sorted_list_of_set \<rparr> = demo_env" "env_crypto demo_env = demo_crypto" "env_iter demo_env = sorted_list_of_set"
    by (simp_all add: demo_env_def)
  have "\<exists>c'. cgka_update demo_env (demo_signer 0) (PublicKey bs) (ShareSecretKey bs) (demo_two, r) =
      (Ok (PcsKey root, signed_new (Update (MemberId [0]) P [op_hash demo_env demo_add] (TreeId [7])) [0] [3]), (c', r'))"
    using enc demo_two_no_replay demo_sign [of sorted_list_of_set, unfolded V] demo_two_heads
    by (simp add: cgka_update_def maybe_replay_def sbind_def get_st_def ret_def with_rng_def modify_st_def encrypt_own_path_def V
        lift_st_def at_graph_def add_local_op_eq Let_def)
  then show ?thesis using t' by blast
qed

section \<open>Properties\<close>



lemma graph_added_contains: "contains_op_hash (graph_added h op ps aps g) (h op)"
  by (simp add: contains_op_hash_def graph_added_def ca_contains_key_def)

lemma apply_operation_contains:
  assumes "apply_operation V op c = (Ok x, c')"
  shows "contains_op_hash (cg_ops_graph c') (op_hash V op)"
proof (cases "contains_op_hash (cg_ops_graph c) (op_hash V op)")
  case True
  then show ?thesis using assms by (simp add: apply_operation_def)
next
  case False
  show ?thesis unfolding apply_operation_OkD(2) [OF assms False] by (rule graph_added_contains)
qed

text \<open>
  C12 Merging an operation is idempotent: after \<open>merge_concurrent_operation\<close> has returned without
  an error, whichever branch it took, merging the same operation again reports that it is known
  and changes nothing.
\<close>

theorem merge_idempotent:
  assumes "merge_concurrent_operation V op c = (Ok b, c')"
  shows "merge_concurrent_operation V op c' = (Ok False, c')"
proof -
  have added: "contains_op_hash (cg_ops_graph c') (op_hash V op)" if "at_graph (add_op (op_hash V) op ps) c1 = (Ok x, c')" for ps c1 x
    using that by (auto simp: at_graph_def outcome_simps add_op_eq graph_added_contains)
  have "contains_op_hash (cg_ops_graph c') (op_hash V op)"
    using assms by (auto simp: merge_concurrent_operation_def Let_def outcome_simps split: if_splits
        dest: apply_operation_contains added)
  then show ?thesis by (simp add: merge_concurrent_operation_def)
qed

theorem merge_idempotent_witness:
  "merge_concurrent_operation (demo_env\<lparr> env_iter := sorted_list_of_set \<rparr>) demo_add
     (demo_two\<lparr> cg_owner_id := MemberId [1], cg_owner_sks := share_key_map_new \<rparr>) =
   (Ok False, demo_two\<lparr> cg_owner_id := MemberId [1], cg_owner_sks := share_key_map_new \<rparr>)"
  by (rule merge_idempotent [OF demo_merge_step])



text \<open>
  What the maps of known PCS keys satisfy: a key is stored under its hash, and every key whose
  update operation is recorded is stored.
\<close>

definition keys_ok :: "('r, 'cr) cgka_env \<Rightarrow> cgka \<Rightarrow> bool" where
  "keys_ok V c \<longleftrightarrow> (\<forall>h k. cg_pcs_keys c h = Some k \<longrightarrow> pcs_hash V k = h) \<and> dom (cg_pcs_key_ops c) \<subseteq> dom (cg_pcs_keys c)"

lemma insert_pcs_key_known: "cg_pcs_keys (insert_pcs_key V k h c) (pcs_hash V k) = Some k"
  by (simp add: insert_pcs_key_def ca_insert_def Let_def)

lemma new_app_secret_key:
  assumes ok: "new_app_secret_for V sg ref content refs (c, r) = (Ok (secret, op), (c', r'))" and keys: "keys_ok V c"
    and coll: "\<forall>k c1. pcs_key_from_tree_root V c = (Ok k, c1) \<longrightarrow> inj_on (pcs_hash V) (insert k (ran (cg_pcs_keys c)))"
  shows "\<exists>k nonce h. secret = derive_application_secret (env_crypto V) (env_bincode V) k nonce ref
      (digest_hash (env_crypto V) (env_ser_refs V refs)) h \<and> cg_pcs_keys c' (pcs_hash V k) = Some k"
proof -
  obtain b where b: "has_pcs_key c = Ok b"
    using ok unfolding new_app_secret_for_def by (auto simp: outcome_simps)
  show ?thesis
  proof (cases b)
    case True
    then obtain k h nonce where k: "pcs_key_from_tree_root V c = (Ok k, c')" and h: "cg_pcs_key_ops c' (pcs_hash V k) = Some h"
      and secret: "secret = derive_application_secret (env_crypto V) (env_bincode V) k nonce ref
        (digest_hash (env_crypto V) (env_ser_refs V refs)) h"
      using ok b unfolding new_app_secret_for_def by (auto simp: outcome_simps with_rng_eq_Ok Let_def split: prod.splits)
    have same: "cg_pcs_keys c' = cg_pcs_keys c" "cg_pcs_key_ops c' = cg_pcs_key_ops c"
      using pcs_key_from_tree_root_frame [OF k] by auto
    then obtain k' where k': "cg_pcs_keys c (pcs_hash V k) = Some k'" using h keys by (auto simp: keys_ok_def)
    then have "k' = k" using coll [rule_format, OF k] keys by (auto simp: keys_ok_def inj_on_def ran_def)
    then show ?thesis using secret k' same by auto
  next
    case False
    then show ?thesis using ok b unfolding new_app_secret_for_def
      by (auto simp: outcome_simps with_rng_eq_Ok Let_def split: prod.splits) (metis insert_pcs_key_known)
  qed
qed

text \<open>
  C7 An encrypter can read its own content: after \<open>new_app_secret_for\<close> has returned an application
  secret, with or without a fresh key rotation, \<open>decryption_key_for\<close> on the resulting state
  derives a key that decrypts whatever was encrypted under that secret.
\<close>

theorem own_content_readable:
  assumes C: "crypto_laws (env_crypto V)" and keys: "keys_ok V c"
    and coll: "\<forall>k c1. pcs_key_from_tree_root V c = (Ok k, c1) \<longrightarrow> inj_on (pcs_hash V) (insert k (ran (cg_pcs_keys c)))"
    and ok: "new_app_secret_for V sg ref content refs (c, r) = (Ok (secret, op), (c', r'))"
    and ec: "app_try_encrypt (env_crypto V) secret plaintext = Some ec"
  shows "\<exists>key. decryption_key_for V ec c' = (Ok key, c') \<and> content_try_decrypt (env_crypto V) ec key = Some plaintext"
proof -
  obtain k nonce h where secret: "secret = derive_application_secret (env_crypto V) (env_bincode V) k nonce ref
      (digest_hash (env_crypto V) (env_ser_refs V refs)) h" and known: "cg_pcs_keys c' (pcs_hash V k) = Some k"
    using new_app_secret_key [OF ok keys coll] by blast
  note D = content_roundtrip [OF C ec [unfolded secret]]
  have "ec_pcs_key_hash ec = pcs_hash V k" using D by (simp add: pcs_hash_def)
  then have "decryption_key_for V ec c' = (Ok (as_key (derive_application_secret (env_crypto V) (env_bincode V) k (ec_nonce ec)
      (ec_content_ref ec) (ec_pred_refs ec) (ec_pcs_update_op_hash ec))), c')"
    using known by (simp add: decryption_key_for_def pcs_key_from_hashes_def ca_get_def ca_contains_key_def sbind_def get_st_def
        ret_def modify_st_def)
  then show ?thesis using D by blast
qed

theorem own_content_readable_witness:
  "\<exists>secret op c' r' ec key. new_app_secret_for demo_env (demo_signer 0) 5 [1] [] (demo_two, 5) = (Ok (secret, op), (c', r')) \<and>
     app_try_encrypt demo_crypto secret [1, 2, 3] = Some ec \<and> decryption_key_for demo_env ec c' = (Ok key, c') \<and>
     content_try_decrypt demo_crypto ec key = Some [1, 2, 3]"
proof -
  have V: "env_crypto demo_env = demo_crypto" by (simp add: demo_env_def)
  have "has_pcs_key demo_two = Ok False"
    using has_root_key_wf [OF bk_wf_shape [OF demo_tree_wf]]
    by (simp add: has_pcs_key_def node_skip_def demo_tree_nodes inner_at_def)
  then obtain secret op c' r' where ok: "new_app_secret_for demo_env (demo_signer 0) 5 [1] [] (demo_two, 5) = (Ok (secret, op), (c', r'))"
    using demo_update_step [of "replicate 32 5" 6]
    by (auto simp: new_app_secret_for_def sbind_def get_st_def lift_st_def ret_def with_rng_def modify_st_def V secret_generate_def
        Let_def expect_def insert_pcs_key_def demo_crypto_def [THEN arg_cong, of random_32])
  obtain ct where "sym_try_encrypt demo_crypto (as_key secret) (as_nonce secret) [1, 2, 3] = Some ct"
    by (rule sym_encrypt_short [OF demo_crypto_laws, of "[1, 2, 3]"]) simp
  then obtain ec where ec: "app_try_encrypt demo_crypto secret [1, 2, 3] = Some ec" by (simp add: app_try_encrypt_def)
  have "\<exists>key. decryption_key_for demo_env ec c' = (Ok key, c') \<and> content_try_decrypt demo_crypto ec key = Some [1, 2, 3]"
    using own_content_readable [of demo_env demo_two "demo_signer 0" 5 "[1]" "[]" 5 secret op c' r' "[1, 2, 3]" ec] ok ec
    by (simp add: V demo_crypto_laws keys_ok_def)
  then show ?thesis using ok ec by blast
qed

text \<open>
  C27 Encrypting after receiving a key rotation can panic: \<open>new_app_secret_for\<close> takes the key from
  the tree root without recording it, and then expects its update operation to be recorded. A
  replica that merges an update on top of its heads and can decrypt the new root, but has not
  met the key before, panics on its first encryption.
\<close>

theorem encrypting_after_update_panics:
  assumes merged: "merge_concurrent_operation V op c = (Ok True, c1)" "\<not> should_replay c" "is_Update (sg_payload op)"
    and root: "has_pcs_key c1 = Ok True" "pcs_key_from_tree_root V c1 = (Ok k, c2)"
    and unknown: "cg_pcs_key_ops c (pcs_hash V k) = None"
  shows "new_app_secret_for V sg ref content refs (c1, r) = (Panic, (c2, r))"
proof -
  have "cg_pcs_key_ops c1 = cg_pcs_key_ops c"
    using merged by (auto simp: merge_concurrent_operation_def Let_def maybe_replay_def outcome_simps at_graph_def
        apply_operation_core at_core_eq_Ok split: if_splits)
  then have "cg_pcs_key_ops c2 (pcs_hash V k) = None"
    using unknown pcs_key_from_tree_root_frame [OF root(2)] by auto
  then show ?thesis using root
    by (simp add: new_app_secret_for_def sbind_def get_st_def lift_st_def with_rng_def ret_def Let_def expect_def)
qed

theorem encrypting_after_update_panics_witness:
  "\<exists>P c1 c2. merge_concurrent_operation demo_env (signed_new (Update (MemberId [0]) P [op_hash demo_env demo_add] (TreeId [7])) [0] [3])
       (demo_other\<lparr> cg_owner_sks := [PublicKey [11] \<mapsto> ShareSecretKey [11]] \<rparr>) = (Ok True, c1) \<and>
     new_app_secret_for demo_env (demo_signer 1) 5 [1] [] (c1, 7) = (Panic, (c2, 7))"
proof -
  obtain root P t' where t': "apply_path P demo_tree = Ok t'" "has_root_key t' = Ok True"
    "fst (decrypt_tree_secret demo_crypto t' (MemberId [1]) [PublicKey [11] \<mapsto> ShareSecretKey [11]]) = Ok root"
    using demo_update_step [of "[]" 5] by blast
  let ?op = "signed_new (Update (MemberId [0]) P [op_hash demo_env demo_add] (TreeId [7])) [0] [3]"
  let ?c = "demo_other\<lparr> cg_owner_sks := [PublicKey [11] \<mapsto> ShareSecretKey [11]] \<rparr>"
  let ?g = "cg_ops_graph demo_two" and ?h = "op_hash demo_env"
  have g: "cg_ops_graph ?c = ?g" "cg_tree ?c = demo_tree" "cg_pcs_key_ops ?c = Map.empty" "\<not> should_replay ?c"
    using demo_two_no_replay by (simp_all add: demo_other_def should_replay_def)
  have no: "\<not> contains_op_hash ?g (?h ?op)"
    by (simp add: demo_hashes demo_hash_values demo_two_def demo_graph_def graph_added_def graph_new_def contains_op_hash_def
        ca_contains_key_def ca_new_def numeral_eq_Suc)
  have heads: "contains_predecessors ?g {?h demo_add}" "heads_contained_in ?g {?h demo_add}"
    by (simp_all add: contains_predecessors_def heads_contained_in_def demo_two_heads)
      (simp add: demo_two_def graph_added_def ca_contains_key_def)
  let ?c1 = "?c\<lparr> cg_tree := t', cg_ops_graph := graph_added ?h ?op {?h demo_add} {} ?g \<rparr>"
  have merged: "merge_concurrent_operation demo_env ?op ?c = (Ok True, ?c1)"
    using g no heads t'(1)
    by (simp add: merge_concurrent_operation_def maybe_replay_def sbind_def get_st_def ret_def apply_operation_def at_tree_def
        Let_def at_graph_def modify_st_def add_op_eq tree_apply_def add_predecessors_def signed_new_def)
  have "cgka_op_heads (cg_ops_graph ?c1) = {?h ?op}" by (simp add: graph_added_def demo_two_heads)
  moreover have "add_heads (cg_ops_graph ?c1) = {?h demo_add}"
    by (simp add: graph_added_def demo_two_def demo_graph_heads signed_new_def demo_add_payload)
  ultimately have root1: "has_pcs_key ?c1 = Ok True" using t'(2) by (simp add: has_pcs_key_def has_single_head_def)
  have root2: "\<exists>c2. pcs_key_from_tree_root demo_env ?c1 = (Ok (PcsKey root), c2)"
    using t'(3) by (auto simp: pcs_key_from_tree_root_def sbind_def get_st_def at_sks_def ret_def demo_env_def demo_other_def split: prod.splits)
  obtain c2 where c2: "pcs_key_from_tree_root demo_env ?c1 = (Ok (PcsKey root), c2)" using root2 by blast
  have "new_app_secret_for demo_env (demo_signer 1) 5 [1] [] (?c1, 7) = (Panic, (c2, 7))"
    by (rule encrypting_after_update_panics [OF merged g(4) _ root1 c2]) (use g(3) in \<open>simp_all add: signed_new_def\<close>)
  then show ?thesis using merged by blast
qed


lemma demo_synced: "synced demo_env {demo_add, demo_init} demo_two"
proof -
  have "demo_env\<lparr> env_iter := demo_iter 0 \<rparr> = demo_env" by (simp add: demo_env_def demo_iter_def)
  moreover have "sound_network demo_env demo_iter [0 \<mapsto> (demo_two, {demo_add, demo_init}), 1 \<mapsto> (demo_other, {demo_add, demo_init})]
      {demo_add, demo_init}" using network_sound [OF demo_network iterates_demo] by blast
  ultimately show ?thesis using sound_networkD [of demo_env demo_iter _ _ 0 demo_two] by fastforce
qed

lemma demo_remove_step:
  "\<exists>ks t. \<forall>k. cgka_remove demo_env (demo_signer k) (MemberId [1]) demo_two =
     (Ok (Some (signed_new (Remove (MemberId [1]) 1 ks [op_hash demo_env demo_add] (TreeId [7])) [k] [2])),
      demo_two\<lparr> cg_tree := t, cg_ops_graph := graph_added (op_hash demo_env)
        (signed_new (Remove (MemberId [1]) 1 ks [op_hash demo_env demo_add] (TreeId [7])) [k] [2])
        {op_hash demo_env demo_add} (add_heads (cg_ops_graph demo_two)) (cg_ops_graph demo_two) \<rparr>)"
proof -
  obtain t ks where t: "remove_id (MemberId [1]) demo_tree = (Ok (1, ks), t)"
    using remove_id_eq [OF demo_tree_wf, of "MemberId [1]" 1 "MemberId [0]"] by (auto simp: demo_tree_ids)
  have V: "demo_env\<lparr> env_iter := sorted_list_of_set \<rparr> = demo_env" "env_iter demo_env = sorted_list_of_set"
    by (simp_all add: demo_env_def)
  have "contains_id demo_tree (MemberId [1])" "group_size demo_two \<noteq> 1"
    by (simp_all add: contains_id_def group_size_def member_count_def demo_tree_ids)
  then show ?thesis using t demo_two_no_replay demo_sign [of sorted_list_of_set, unfolded V] demo_two_heads V
    by (intro exI [of _ ks] exI [of _ t])
      (simp add: cgka_remove_def maybe_replay_def sbind_def get_st_def ret_def lift_st_def at_tree_def at_graph_def modify_st_def
        add_local_op_eq Let_def)
qed


end
