(* ===== verification/Spec2Isabelle.thy ===== *)
theory Spec2Isabelle
  imports Cgka_Props
begin

text \<open>
  Keyhive's continuous group key agreement (BeeKEM), verified against its Rust source.
\<close>

end
